(* ===== verification/Prelude.thy ===== *)
theory Prelude
  imports "HOL-Library.Word"
begin

text \<open>
  Prelude of the spinel-ebpf development: the machine types of the C sources, the fragments of
  the C standard library that several components use (bounded string copies, prefix tests,
  searches, byte order), and the generic facts on lists and machine words that the component
  theories share.

  A C string is modelled as the list of its characters before the terminating NUL; a byte
  buffer as a list of \<open>8 word\<close>.  Fixed-width unsigned integers keep their width, so that
  addition and subtraction wrap as they do in C.
\<close>

unbundle bit_operations_syntax

type_synonym u8 = "8 word"
type_synonym u16 = "16 word"
type_synonym u32 = "32 word"
type_synonym u64 = "64 word"
type_synonym bytes = "u8 list"

named_theorems ring_simps \<open>index arithmetic of the single-producer single-consumer rings\<close>
named_theorems cstr_simps \<open>facts on the C string helpers\<close>
named_theorems bytes_simps \<open>facts on fixed-width byte encodings\<close>

subsection \<open>Bounded C strings\<close>

text \<open>\<open>snprintf(dst, cap, "%s", s)\<close>: the characters that end up in \<open>dst\<close> (\<open>cap > 0\<close>).\<close>

definition c_trunc :: "nat \<Rightarrow> string \<Rightarrow> string" where
  "c_trunc cap s = take (cap - 1) s"

text \<open>\<open>strncmp(s, p, strlen(p)) == 0\<close>.\<close>

definition c_starts :: "string \<Rightarrow> string \<Rightarrow> bool" where
  "c_starts s p = (take (length p) s = p)"

text \<open>\<open>strchr(s, c)\<close> as the index of the first occurrence.\<close>

fun c_strchr :: "string \<Rightarrow> char \<Rightarrow> nat option" where
  "c_strchr [] c = None"
| "c_strchr (x # xs) c = (if x = c then Some 0 else map_option Suc (c_strchr xs c))"

text \<open>\<open>strrchr(s, c)\<close> as the index of the last occurrence.\<close>

fun c_strrchr :: "string \<Rightarrow> char \<Rightarrow> nat option" where
  "c_strrchr [] c = None"
| "c_strrchr (x # xs) c =
     (case c_strrchr xs c of Some i \<Rightarrow> Some (Suc i) | None \<Rightarrow> if x = c then Some 0 else None)"

text \<open>\<open>strstr(s, p)\<close> as the index of the first occurrence.\<close>

fun c_strstr :: "string \<Rightarrow> string \<Rightarrow> nat option" where
  "c_strstr s p =
     (if c_starts s p then Some 0
      else case s of [] \<Rightarrow> None | x # xs \<Rightarrow> map_option Suc (c_strstr xs p))"

declare c_strstr.simps [simp del]

text \<open>\<open>strcspn(s, reject)\<close>: the prefix without a character of \<open>reject\<close>, and what follows it.\<close>

definition c_span :: "string \<Rightarrow> string \<Rightarrow> string" where
  "c_span s reject = takeWhile (\<lambda>c. c \<notin> set reject) s"

definition c_rest :: "string \<Rightarrow> string \<Rightarrow> string" where
  "c_rest s reject = dropWhile (\<lambda>c. c \<notin> set reject) s"

text \<open>Decimal rendering of a natural number (\<open>%u\<close>, \<open>%llu\<close>).\<close>

definition digit_char :: "nat \<Rightarrow> char" where
  "digit_char d = char_of (48 + d)"

fun dec_of :: "nat \<Rightarrow> string" where
  "dec_of n = (if n < 10 then [digit_char n] else dec_of (n div 10) @ [digit_char (n mod 10)])"

declare dec_of.simps [simp del]

definition is_digit :: "char \<Rightarrow> bool" where
  "is_digit c = (48 \<le> (of_char c :: nat) \<and> (of_char c :: nat) \<le> 57)"

definition digit_val :: "char \<Rightarrow> nat" where
  "digit_val c = of_char c - 48"

definition is_space :: "char \<Rightarrow> bool" where
  "is_space c = (of_char c \<in> {9, 10, 11, 12, 13, 32 :: nat})"

definition digits_val :: "string \<Rightarrow> nat" where
  "digits_val ds = foldl (\<lambda>a c. a * 10 + digit_val c) 0 ds"

text \<open>One \<open>%d\<close> conversion of \<open>sscanf\<close>: leading white space, an optional sign, at least one digit.\<close>

definition scan_int :: "string \<Rightarrow> (int \<times> string) option" where
  "scan_int s =
     (let t = dropWhile is_space s;
          neg = (t \<noteq> [] \<and> hd t = CHR ''-'');
          u = (if t \<noteq> [] \<and> (hd t = CHR ''-'' \<or> hd t = CHR ''+'') then tl t else t);
          ds = takeWhile is_digit u
      in if ds = [] then None
         else Some (if neg then - int (digits_val ds) else int (digits_val ds), dropWhile is_digit u))"

text \<open>\<open>atoi\<close> on a string (no overflow: the value is an unbounded integer).\<close>

definition c_atoi :: "string \<Rightarrow> int" where
  "c_atoi s = (case scan_int s of None \<Rightarrow> 0 | Some (v, _) \<Rightarrow> v)"

text \<open>One \<open>%<w>s\<close> conversion: leading white space, then 1 to \<open>w\<close> characters that are not space.\<close>

definition scan_str :: "nat \<Rightarrow> string \<Rightarrow> (string \<times> string) option" where
  "scan_str w s =
     (let t = dropWhile is_space s; u = take w (takeWhile (\<lambda>c. \<not> is_space c) t)
      in if u = [] then None else Some (u, drop (length u) t))"

text \<open>A sequence of such conversions, as far as they succeed.\<close>

fun scan_strs :: "nat list \<Rightarrow> string \<Rightarrow> string list" where
  "scan_strs [] s = []"
| "scan_strs (w # ws) s = (case scan_str w s of None \<Rightarrow> [] | Some (t, r) \<Rightarrow> t # scan_strs ws r)"

text \<open>The successive results of \<open>fgets(line, cap, f)\<close> on a file with the given contents.\<close>

function fgets_all :: "nat \<Rightarrow> string \<Rightarrow> string list" where
  "fgets_all cap s =
     (if s = [] \<or> cap \<le> 1 then []
      else let pre = takeWhile (\<lambda>c. c \<noteq> CHR 0x0A) s;
               full = (if length pre < length s then pre @ [CHR 0x0A] else pre);
               line = take (cap - 1) full
           in line # fgets_all cap (drop (length line) s))"
  by pat_completeness auto
termination
proof (relation "measure (\<lambda>(cap, s). length s)", goal_cases)
  case (2 cap s pre full line)
  then show ?case by (cases s) (auto split: if_splits)
qed simp

declare fgets_all.simps [simp del]

text \<open>\<open>strtok\<close> with a single separator: the non-empty pieces.\<close>

fun c_split :: "char \<Rightarrow> string \<Rightarrow> string list" where
  "c_split sep [] = [[]]"
| "c_split sep (c # cs) =
     (if c = sep then [] # c_split sep cs
      else case c_split sep cs of [] \<Rightarrow> [[c]] | w # ws \<Rightarrow> (c # w) # ws)"

definition c_strtok :: "char \<Rightarrow> string \<Rightarrow> string list" where
  "c_strtok sep s = filter (\<lambda>w. w \<noteq> []) (c_split sep s)"

text \<open>\<open>%d\<close> and \<open>%lld\<close>.\<close>

definition show_int :: "int \<Rightarrow> string" where
  "show_int i = (if i < 0 then CHR ''-'' # dec_of (nat (- i)) else dec_of (nat i))"

text \<open>Lines printed one after the other.\<close>

definition print_lines :: "string list \<Rightarrow> string" where
  "print_lines ls = concat (map (\<lambda>l. l @ [CHR 0x0A]) ls)"

text \<open>The fields of a record written with a separator between them.\<close>

fun join_with :: "string \<Rightarrow> string list \<Rightarrow> string" where
  "join_with sep [] = []"
| "join_with sep [w] = w"
| "join_with sep (w # ws) = w @ sep @ join_with sep ws"

subsection \<open>Facts on the string helpers\<close>

lemma c_trunc_length [cstr_simps]: "0 < cap \<Longrightarrow> length (c_trunc cap s) < cap"
  by (simp add: c_trunc_def)

lemma c_trunc_id [cstr_simps]: "length s < cap \<Longrightarrow> c_trunc cap s = s"
  by (simp add: c_trunc_def)

lemma c_trunc_idem [cstr_simps]: "c_trunc cap (c_trunc cap s) = c_trunc cap s"
  by (simp add: c_trunc_def)

lemma c_trunc_eq_iff: "0 < cap \<Longrightarrow> c_trunc cap s = s \<longleftrightarrow> length s < cap"
  by (auto simp: c_trunc_def)

lemma c_starts_append [cstr_simps]: "c_starts (p @ s) p"
  by (simp add: c_starts_def)

lemma c_starts_iff: "c_starts s p \<longleftrightarrow> (\<exists>t. s = p @ t)"
  unfolding c_starts_def by (metis append_eq_conv_conj append_take_drop_id)

lemma c_span_rest [cstr_simps]: "c_span s r @ c_rest s r = s"
  by (simp add: c_span_def c_rest_def)

lemma c_span_append [cstr_simps]:
  "set a \<inter> set r = {} \<Longrightarrow> c \<in> set r \<Longrightarrow> c_span (a @ c # b) r = a"
  "set a \<inter> set r = {} \<Longrightarrow> c \<in> set r \<Longrightarrow> c_rest (a @ c # b) r = c # b"
  "set a \<inter> set r = {} \<Longrightarrow> c_span a r = a"
  "set a \<inter> set r = {} \<Longrightarrow> c_rest a r = []"
  by (induction a; auto simp: c_span_def c_rest_def)+

lemma c_strstr_Nil: "c_strstr [] p = (if p = [] then Some 0 else None)"
  by (subst c_strstr.simps) (auto simp: c_starts_def)

lemma c_strstr_Cons: "c_strstr (c # s) p = (if c_starts (c # s) p then Some 0 else map_option Suc (c_strstr s p))"
  by (subst c_strstr.simps) simp

lemma c_strstr_bound: "c_strstr s p = Some i \<Longrightarrow> i + length p \<le> length s"
proof (induction s arbitrary: i)
  case Nil
  then show ?case by (simp add: c_strstr_Nil split: if_splits)
next
  case (Cons c s)
  show ?case
  proof (cases "c_starts (c # s) p")
    case True
    then have "length p \<le> length (c # s)" by (metis c_starts_iff le_add1 length_append)
    then show ?thesis using Cons.prems True by (simp add: c_strstr_Cons)
  next
    case False
    then show ?thesis using Cons by (auto simp: c_strstr_Cons)
  qed
qed

lemma c_strchr_None [cstr_simps]: "c_strchr s c = None \<longleftrightarrow> c \<notin> set s"
  by (induction s) auto

lemma c_strchr_append [cstr_simps]: "c \<notin> set a \<Longrightarrow> c_strchr (a @ c # b) c = Some (length a)"
  by (induction a) auto

lemma c_strchr_SomeD:
  "c_strchr s c = Some i \<Longrightarrow> i < length s \<and> s ! i = c \<and> c \<notin> set (take i s)"
proof (induction s arbitrary: i)
  case (Cons x xs)
  then show ?case by (cases i) (auto split: if_splits)
qed simp

lemma c_strrchr_None [cstr_simps]: "c_strrchr s c = None \<longleftrightarrow> c \<notin> set s"
  by (induction s) (auto split: option.splits)

lemma c_strrchr_append [cstr_simps]: "c \<notin> set b \<Longrightarrow> c_strrchr (a @ c # b) c = Some (length a)"
  by (induction a) (auto split: option.splits simp: c_strrchr_None)

lemma c_strrchr_SomeD:
  "c_strrchr s c = Some i \<Longrightarrow> i < length s \<and> s ! i = c \<and> c \<notin> set (drop (Suc i) s)"
proof (induction s arbitrary: i)
  case (Cons x xs)
  then show ?case by (auto split: option.splits if_splits simp: c_strrchr_None)
qed simp

lemma digit_char_props:
  assumes "d < 10"
  shows "is_digit (digit_char d)" "digit_val (digit_char d) = d" "\<not> is_space (digit_char d)"
    "digit_char d \<noteq> CHR ''-''" "digit_char d \<noteq> CHR ''+''"
proof -
  have o: "(of_char (digit_char d) :: nat) = 48 + d" using assms by (simp add: digit_char_def)
  show "is_digit (digit_char d)" "digit_val (digit_char d) = d" "\<not> is_space (digit_char d)"
    using assms o by (simp_all add: is_digit_def digit_val_def is_space_def)
  show "digit_char d \<noteq> CHR ''-''"
  proof
    assume e: "digit_char d = CHR ''-''"
    show False using o unfolding e by simp
  qed
  show "digit_char d \<noteq> CHR ''+''"
  proof
    assume e: "digit_char d = CHR ''+''"
    show False using o unfolding e by simp
  qed
qed

lemma digits_val_snoc: "digits_val (ds @ [c]) = digits_val ds * 10 + digit_val c"
  by (simp add: digits_val_def)

lemma dec_of_props:
  "dec_of n \<noteq> [] \<and> list_all is_digit (dec_of n) \<and> digits_val (dec_of n) = n
   \<and> \<not> is_space (hd (dec_of n)) \<and> hd (dec_of n) \<noteq> CHR ''-'' \<and> hd (dec_of n) \<noteq> CHR ''+''"
proof (induction n rule: dec_of.induct)
  case (1 n)
  show ?case
  proof (cases "n < 10")
    case True
    then show ?thesis
      using digit_char_props [of n] by (subst (1 2 3 4 5 6) dec_of.simps) (simp add: digits_val_def)
  next
    case False
    have e: "dec_of n = dec_of (n div 10) @ [digit_char (n mod 10)]"
      using False by (subst dec_of.simps) simp
    show ?thesis
      using 1 [OF False] digit_char_props [of "n mod 10"] unfolding e by (simp add: digits_val_snoc)
  qed
qed

lemma dec_of_lt10: "n < 10 \<Longrightarrow> dec_of n = [digit_char n]"
  by (subst dec_of.simps) simp

lemma dec_of_ge10: "\<not> n < 10 \<Longrightarrow> dec_of n = dec_of (n div 10) @ [digit_char (n mod 10)]"
  by (subst dec_of.simps) simp

lemma dec_of_len2: "n < 100 \<Longrightarrow> length (dec_of n) \<le> 2"
  by (cases "n < 10") (simp_all add: dec_of_lt10 dec_of_ge10)

lemma scan_int_dec_of:
  assumes "r = [] \<or> \<not> is_digit (hd r)"
  shows "scan_int (dec_of n @ r) = Some (int n, r)"
proof -
  note d = dec_of_props [of n]
  obtain c cs where c: "dec_of n = c # cs" using d by (cases "dec_of n") auto
  have t: "takeWhile is_digit (dec_of n @ r) = dec_of n" "dropWhile is_digit (dec_of n @ r) = r"
    using d assms by (auto simp: takeWhile_append dropWhile_append list_all_iff takeWhile_eq_Nil_iff dropWhile_eq_self_iff)
  have w: "dropWhile is_space (dec_of n @ r) = dec_of n @ r" using d c by simp
  show ?thesis
    using d c t w by (auto simp: scan_int_def Let_def)
qed

lemma c_atoi_dec_of: "c_atoi (dec_of n) = int n"
  using scan_int_dec_of [of "[]" n] by (simp add: c_atoi_def)

lemma c_atoi_show_int: "c_atoi (show_int i) = i"
proof (cases "i < 0")
  case True
  have "scan_int (CHR ''-'' # dec_of (nat (- i))) = Some (i, [])"
    using dec_of_props [of "nat (- i)"] True by (auto simp: scan_int_def Let_def is_space_def list_all_iff takeWhile_eq_all_conv [THEN iffD2] dropWhile_eq_Nil_conv [THEN iffD2])
  then show ?thesis using True by (simp add: c_atoi_def show_int_def)
qed (simp add: show_int_def c_atoi_dec_of)

lemma show_int_chars: "set (show_int i) \<subseteq> insert CHR ''-'' {c. is_digit c}"
  using dec_of_props [of "nat (- i)"] dec_of_props [of "nat i"] by (auto simp: show_int_def list_all_iff)

lemma c_split_no_sep: "sep \<notin> set w \<Longrightarrow> c_split sep w = [w]"
  by (induction w) auto

lemma c_split_append: "sep \<notin> set w \<Longrightarrow> c_split sep (w @ sep # s) = w # c_split sep s"
  by (induction w) auto

lemma c_split_join: "ws \<noteq> [] \<Longrightarrow> \<forall>w \<in> set ws. sep \<notin> set w \<Longrightarrow> c_split sep (join_with [sep] ws) = ws"
  by (induction "[sep]" ws rule: join_with.induct) (auto simp: c_split_no_sep c_split_append)

lemma c_strtok_lines: "\<forall>l \<in> set ls. l \<noteq> [] \<and> CHR 0x0A \<notin> set l \<Longrightarrow> c_strtok CHR 0x0A (print_lines ls) = ls"
  by (induction ls) (simp_all add: print_lines_def c_strtok_def c_split_append)

lemma set_join_with: "set (join_with sep ws) \<subseteq> set sep \<union> \<Union> (set ` set ws)"
  by (induction sep ws rule: join_with.induct) auto

subsection \<open>Words as indices\<close>

lemma unat_plus_1_mod: "unat (w + 1 :: 'a::len word) = Suc (unat w) mod 2 ^ LENGTH('a)"
  by (simp add: unat_word_ariths)

lemma unat_plus_of_nat_mod:
  "unat (w + of_nat k :: 'a::len word) = (unat w + k) mod 2 ^ LENGTH('a)"
  by (simp add: unat_word_ariths unat_of_nat mod_add_right_eq)

lemma unat_index_mod:
  fixes w :: "'a::len word"
  assumes "c dvd 2 ^ LENGTH('a)"
  shows "unat (w + of_nat k) mod c = (unat w + k) mod c"
  using assms by (simp add: unat_plus_of_nat_mod mod_mod_cancel)

lemma mod_add_inj:
  fixes a c i j :: nat
  assumes "(a + i) mod c = (a + j) mod c" "i < c" "j < c"
  shows "i = j"
proof -
  have "\<And>x y :: nat. (a + x) mod c = (a + y) mod c \<Longrightarrow> x \<le> y \<Longrightarrow> y < c \<Longrightarrow> x = y"
  proof -
    fix x y :: nat
    assume h: "(a + x) mod c = (a + y) mod c" "x \<le> y" "y < c"
    then have "c dvd (a + y) - (a + x)" by (metis mod_eq_dvd_iff_nat add_le_mono le_refl)
    then have "c dvd y - x" by simp
    then show "x = y" using h(2,3) by (auto dest: dvd_imp_le)
  qed
  from this [of i j] this [of j i] show ?thesis using assms by (cases "i \<le> j") auto
qed

lemma unat_less: "unat (w :: 'a::len word) < 2 ^ LENGTH('a)"
  by (rule unsigned_less)

lemma word_diff_Suc:
  fixes p c :: "'a::len word"
  assumes "Suc (unat (p - c)) < 2 ^ LENGTH('a)"
  shows "unat (p + 1 - c) = Suc (unat (p - c))"
proof -
  have "p + 1 - c = (p - c) + 1" by simp
  then show ?thesis using assms by (simp only: unat_plus_1_mod) simp
qed

lemma word_diff_pred:
  fixes p c :: "'a::len word"
  assumes "p \<noteq> c"
  shows "unat (p - c) = Suc (unat (p - (c + 1)))"
proof -
  let ?d = "p - (c + 1)"
  have e: "p - c = ?d + 1" by simp
  have "?d + 1 \<noteq> 0" using assms e by (metis eq_iff_diff_eq_0)
  then have "unat (?d + 1) \<noteq> 0" by (simp only: unat_eq_0 not_False_eq_True)
  then have "Suc (unat ?d) mod 2 ^ LENGTH('a) \<noteq> 0" by (simp only: unat_plus_1_mod not_False_eq_True)
  then have "Suc (unat ?d) < 2 ^ LENGTH('a)"
    by (metis Suc_lessI mod_self unat_less)
  then show ?thesis unfolding e by (simp only: unat_plus_1_mod) simp
qed

lemma word_diff_of_nat:
  fixes p c :: "'a::len word"
  assumes "k \<le> unat (p - c)"
  shows "unat (p - (c + of_nat k)) = unat (p - c) - k"
proof -
  have k: "k < 2 ^ LENGTH('a)" using assms unat_less by (rule le_less_trans)
  have u: "unat (of_nat k :: 'a word) = k" using k by (simp add: unat_of_nat)
  have "of_nat k \<le> p - c"
    using assms u by (simp add: word_le_nat_alt)
  then have "unat ((p - c) - of_nat k) = unat (p - c) - unat (of_nat k :: 'a word)"
    by (rule unat_sub)
  moreover have "p - (c + of_nat k) = (p - c) - of_nat k" by simp
  ultimately show ?thesis using u by (simp only:)
qed

lemma unat_less_take_bit:
  fixes b :: "'a::len word"
  assumes "unat b < 2 ^ k"
  shows "take_bit k b = b"
proof -
  have "unat (take_bit k b) = unat b" using assms by (simp add: unsigned_take_bit_eq take_bit_nat_eq_self)
  then show ?thesis by (simp only: word_unat_eq_iff)
qed

lemma or_push_bit:
  fixes b c :: "'a::len word"
  assumes "unat b < 2 ^ k"
  shows "b OR push_bit k c = b + push_bit k c"
proof -
  have "b AND push_bit k c = 0"
  proof (rule bit_eqI)
    fix n
    have "bit b n = bit (take_bit k b) n" using unat_less_take_bit [OF assms] by simp
    then show "bit (b AND push_bit k c) n = bit (0 :: 'a word) n" by (auto simp: bit_simps)
  qed
  then show ?thesis by (simp add: disjunctive_add_eq_or)
qed
subsection \<open>Bytes and memory regions\<close>

text \<open>Little-endian encodings of natural numbers, and big-endian ones (network byte order).\<close>

fun enc_le :: "nat \<Rightarrow> nat \<Rightarrow> bytes" where
  "enc_le 0 v = []"
| "enc_le (Suc n) v = of_nat (v mod 256) # enc_le n (v div 256)"

fun dec_le :: "bytes \<Rightarrow> nat" where
  "dec_le [] = 0"
| "dec_le (b # bs) = unat b + 256 * dec_le bs"

definition enc_be :: "nat \<Rightarrow> nat \<Rightarrow> bytes" where
  "enc_be n v = rev (enc_le n v)"

definition dec_be :: "bytes \<Rightarrow> nat" where
  "dec_be bs = dec_le (rev bs)"

lemma length_enc_le [simp]: "length (enc_le n v) = n"
  by (induction n arbitrary: v) auto

lemma length_enc_be [simp]: "length (enc_be n v) = n"
  by (simp add: enc_be_def)

lemma dec_enc_le [bytes_simps]: "dec_le (enc_le n v) = v mod 256 ^ n"
proof (induction n arbitrary: v)
  case (Suc n)
  have "unat (of_nat (v mod 256) :: u8) = v mod 256" by (simp add: unat_of_nat)
  then show ?case using Suc by (simp add: mod_mult2_eq)
qed simp

lemma dec_enc_be [bytes_simps]: "dec_be (enc_be n v) = v mod 256 ^ n"
  by (simp add: dec_be_def enc_be_def dec_enc_le)

lemma dec_le_less: "dec_le bs < 256 ^ length bs"
proof (induction bs)
  case (Cons b bs)
  have b: "unat b < 256" using unat_less [of b] by simp
  have "unat b + 256 * dec_le bs < 256 * Suc (dec_le bs)" using b by simp
  also have "\<dots> \<le> 256 * 256 ^ length bs" using Cons by (intro mult_le_mono) simp_all
  finally show ?case by simp
qed simp

text \<open>Reading and writing a range of a byte region.\<close>

definition peek :: "'a list \<Rightarrow> nat \<Rightarrow> nat \<Rightarrow> 'a list" where
  "peek mem off n = take n (drop off mem)"

definition poke :: "nat \<Rightarrow> 'a list \<Rightarrow> 'a list \<Rightarrow> 'a list" where
  "poke off bs mem = take off mem @ bs @ drop (off + length bs) mem"

lemma length_poke [simp]: "off + length bs \<le> length mem \<Longrightarrow> length (poke off bs mem) = length mem"
  by (simp add: poke_def)

lemma peek_poke_same [bytes_simps]:
  "off + length bs \<le> length mem \<Longrightarrow> n = length bs \<Longrightarrow> peek (poke off bs mem) off n = bs"
  by (simp add: peek_def poke_def)

lemma peek_poke_after [bytes_simps]:
  "off + length bs \<le> length mem \<Longrightarrow> off + length bs \<le> at \<Longrightarrow> peek (poke off bs mem) at n = peek mem at n"
  by (simp add: peek_def poke_def)

lemma peek_poke_before [bytes_simps]:
  assumes "off + length bs \<le> length mem" "at + n \<le> off"
  shows "peek (poke off bs mem) at n = peek mem at n"
proof -
  have "drop at (take off mem) = take (off - at) (drop at mem)" by (simp add: drop_take)
  then have "take n (drop at (take off mem)) = take n (drop at mem)"
    using assms by (simp add: min_absorb1)
  then show ?thesis using assms by (simp add: peek_def poke_def)
qed

lemma nth_poke:
  assumes "off + length bs \<le> length mem" "k < length mem"
  shows "poke off bs mem ! k = (if k < off then mem ! k else if k < off + length bs then bs ! (k - off) else mem ! k)"
  using assms by (auto simp: poke_def nth_append)

subsection \<open>Strings as bytes\<close>

definition char_byte :: "char \<Rightarrow> u8" where
  "char_byte c = of_nat (of_char c)"

definition str_bytes :: "string \<Rightarrow> bytes" where
  "str_bytes s = map char_byte s"

definition byte_char :: "u8 \<Rightarrow> char" where
  "byte_char b = char_of (unat b)"

lemma byte_char_byte [simp]: "byte_char (char_byte c) = c"
  by (simp add: byte_char_def char_byte_def unat_of_nat take_bit_nat_def)

lemma map_byte_char [simp]: "map byte_char (str_bytes s) = s"
  by (simp add: str_bytes_def comp_def)

lemma length_str_bytes [simp]: "length (str_bytes s) = length s"
  by (simp add: str_bytes_def)

end
