(* ===== verification/Amp_Ring.thy ===== *)
theory Amp_Ring
  imports Prelude
begin

text \<open>
  The two shared-memory rings of the AMP probe: the event ring (\<open>include/spnl/amp_ring.h\<close>,
  M7 producer, A55 consumer) and the command ring (\<open>include/spnl/amp_abi_imx95m7.h\<close>, A55
  producer, M7 consumer).  Both are single-producer single-consumer rings over monotonic 32-bit
  indices that wrap at \<open>2^32\<close>; a slot is selected by \<open>index % capacity\<close>.

  The theory first develops the index arithmetic once (\<open>spsc_contents\<close>), states the queue
  contract as the locale \<open>bounded_fifo\<close>, proves there that any sequence of operations answers like a
  bounded list (\<open>queue_run\<close>), and interprets it on both rings.  The interleaving of the two cores is
  the subject of \<open>Amp_Ring_Steps\<close>.

  Memory that the code addresses through \<open>slots[index % capacity]\<close> is a list; an access with a
  zero capacity (division by zero) or past the end of the mapped slots is the value \<open>None\<close>.
\<close>

subsection \<open>Slot access and ring contents\<close>

definition slot_index :: "u32 \<Rightarrow> u32 \<Rightarrow> 'a list \<Rightarrow> nat option" where
  "slot_index idx cap slots =
     (if cap = 0 \<or> length slots \<le> unat (idx mod cap) then None else Some (unat (idx mod cap)))"

fun spsc_read :: "'a list \<Rightarrow> u32 \<Rightarrow> u32 \<Rightarrow> u32 \<Rightarrow> nat \<Rightarrow> ('a list \<times> u32) option" where
  "spsc_read slots cap pr co 0 = Some ([], co)"
| "spsc_read slots cap pr co (Suc room) =
     (if co = pr then Some ([], co)
      else case slot_index co cap slots of
        None \<Rightarrow> None
      | Some i \<Rightarrow>
          (case spsc_read slots cap pr (co + 1) room of
             None \<Rightarrow> None
           | Some (xs, c') \<Rightarrow> Some (slots ! i # xs, c')))"

definition spsc_contents :: "'a list \<Rightarrow> u32 \<Rightarrow> u32 \<Rightarrow> u32 \<Rightarrow> 'a list" where
  "spsc_contents slots cap pr co =
     map (\<lambda>k. slots ! (unat (co + of_nat k) mod unat cap)) [0..<unat (pr - co)]"

definition spsc_wf :: "'a list \<Rightarrow> u32 \<Rightarrow> u32 \<Rightarrow> u32 \<Rightarrow> bool" where
  "spsc_wf slots cap pr co \<longleftrightarrow>
     0 < cap \<and> unat cap dvd 2 ^ 32 \<and> length slots = unat cap \<and> unat (pr - co) \<le> unat cap"

lemma length_spsc_contents [simp]: "length (spsc_contents slots cap pr co) = unat (pr - co)"
  by (simp add: spsc_contents_def)

lemma slot_index_wf:
  assumes "spsc_wf slots cap pr co"
  shows "slot_index idx cap slots = Some (unat idx mod unat cap)"
proof -
  have "0 < unat cap" using assms by (simp add: spsc_wf_def word_less_nat_alt)
  then have "unat idx mod unat cap < unat cap" by simp
  then show ?thesis using assms
    by (auto simp: slot_index_def spsc_wf_def unat_mod)
qed

lemma spsc_contents_nth:
  assumes "spsc_wf slots cap pr co" "k < unat (pr - co)"
  shows "spsc_contents slots cap pr co ! k = slots ! ((unat co + k) mod unat cap)"
  using assms unat_index_mod [of "unat cap" co k]
  by (simp add: spsc_contents_def spsc_wf_def)

lemma spsc_contents_eqI:
  assumes "spsc_wf slots cap pr co" "length xs = unat (pr - co)"
    and "\<And>k. k < unat (pr - co) \<Longrightarrow> xs ! k = slots ! ((unat co + k) mod unat cap)"
  shows "spsc_contents slots cap pr co = xs"
  using assms by (intro nth_equalityI) (simp_all add: spsc_contents_nth)

lemma cap_small: "unat (cap :: u32) dvd 2 ^ 32 \<Longrightarrow> Suc (unat cap) < 2 ^ 32"
proof -
  assume d: "unat cap dvd 2 ^ 32"
  have "unat cap \<noteq> 2 ^ 32 - 1"
  proof
    assume "unat cap = 2 ^ 32 - 1"
    with d have "(2 ^ 32 - 1 :: nat) dvd 2 ^ 32" by simp
    then have "(2 ^ 32 :: nat) mod (2 ^ 32 - 1) = 0" by (rule dvd_imp_mod_0)
    then show False by simp
  qed
  then show ?thesis using unat_less [of cap] by simp
qed

text \<open>Writing the slot of the producer index leaves the unread slots alone while there is room.\<close>

lemma prod_slot_fresh:
  assumes w: "spsc_wf slots cap pr co" and room: "unat (pr - co) < unat cap"
    and k: "k < unat (pr - co)"
  shows "(unat co + k) mod unat cap \<noteq> unat pr mod unat cap"
proof -
  have "pr = co + of_nat (unat (pr - co))" by simp
  then have "unat pr mod unat cap = (unat co + unat (pr - co)) mod unat cap"
    using unat_index_mod [of "unat cap" co "unat (pr - co)"] w by (simp add: spsc_wf_def)
  then show ?thesis
    using mod_add_inj [of "unat co" k "unat cap" "unat (pr - co)"] room k by auto
qed

lemma contents_write_slot:
  assumes w: "spsc_wf slots cap pr co" and room: "unat (pr - co) < unat cap"
  shows "spsc_contents (slots[unat pr mod unat cap := x]) cap pr co = spsc_contents slots cap pr co"
proof -
  have w': "spsc_wf (slots[unat pr mod unat cap := x]) cap pr co"
    using w by (simp add: spsc_wf_def)
  show ?thesis
    by (rule spsc_contents_eqI [OF w'])
      (use prod_slot_fresh [OF w room, THEN not_sym] in \<open>auto simp: spsc_contents_nth [OF w]\<close>)
qed

lemma spsc_contents_push:
  assumes w: "spsc_wf slots cap pr co" and room: "unat (pr - co) < unat cap"
  shows "spsc_contents (slots[unat pr mod unat cap := x]) cap (pr + 1) co
           = spsc_contents slots cap pr co @ [x]"
    and "spsc_wf (slots[unat pr mod unat cap := x]) cap (pr + 1) co"
proof -
  let ?s = "slots[unat pr mod unat cap := x]"
  have pos: "0 < unat cap" using w by (simp add: spsc_wf_def word_less_nat_alt)
  have d: "unat (pr + 1 - co) = Suc (unat (pr - co))"
    using room cap_small [of cap] w by (intro word_diff_Suc) (simp add: spsc_wf_def)
  show w1: "spsc_wf ?s cap (pr + 1) co"
    using w room d by (simp add: spsc_wf_def)
  have last: "(unat co + unat (pr - co)) mod unat cap = unat pr mod unat cap"
    using unat_index_mod [of "unat cap" co "unat (pr - co)"] w by (simp add: spsc_wf_def)
  have idx: "unat pr mod unat cap < length slots" using w pos by (simp add: spsc_wf_def)
  show "spsc_contents ?s cap (pr + 1) co = spsc_contents slots cap pr co @ [x]"
  proof (rule spsc_contents_eqI [OF w1])
    fix k assume "k < unat (pr + 1 - co)"
    then consider "k < unat (pr - co)" | "k = unat (pr - co)" using d by linarith
    then show "(spsc_contents slots cap pr co @ [x]) ! k = ?s ! ((unat co + k) mod unat cap)"
      using prod_slot_fresh [OF w room, of k] last idx
      by cases (auto simp: nth_append spsc_contents_nth [OF w])
  qed (simp add: d)
qed

lemma spsc_contents_drop:
  assumes w: "spsc_wf slots cap pr co" and n: "n \<le> unat (pr - co)"
  shows "spsc_contents slots cap pr (co + of_nat n) = drop n (spsc_contents slots cap pr co)"
    and "spsc_wf slots cap pr (co + of_nat n)"
proof -
  have d: "unat (pr - (co + of_nat n)) = unat (pr - co) - n"
    using n by (rule word_diff_of_nat)
  show w1: "spsc_wf slots cap pr (co + of_nat n)"
    using w unfolding spsc_wf_def d by auto
  show "spsc_contents slots cap pr (co + of_nat n) = drop n (spsc_contents slots cap pr co)"
  proof (rule spsc_contents_eqI [OF w1])
    fix k assume k: "k < unat (pr - (co + of_nat n))"
    have "unat (co + of_nat n) mod unat cap = (unat co + n) mod unat cap"
      using unat_index_mod [of "unat cap" co n] w by (simp add: spsc_wf_def)
    from mod_add_cong [OF this refl, of k]
    have "(unat (co + of_nat n) + k) mod unat cap = (unat co + (n + k)) mod unat cap"
      by (simp only: add.assoc)
    then show "drop n (spsc_contents slots cap pr co) ! k
        = slots ! ((unat (co + of_nat n) + k) mod unat cap)"
      using k d n by (simp add: spsc_contents_nth [OF w])
  qed (simp add: d)
qed

lemma spsc_contents_Cons:
  assumes "spsc_wf slots cap pr co" "co \<noteq> pr"
  shows "spsc_wf slots cap pr (co + 1)"
    and "spsc_contents slots cap pr co = slots ! (unat co mod unat cap) # spsc_contents slots cap pr (co + 1)"
proof -
  have d: "unat (pr - co) = Suc (unat (pr - (co + 1)))"
    using assms(2) by (intro word_diff_pred) simp
  show "spsc_wf slots cap pr (co + 1)"
    using spsc_contents_drop [OF assms(1), of 1] d by simp
  have c1: "spsc_contents slots cap pr (co + 1) = drop 1 (spsc_contents slots cap pr co)"
    using spsc_contents_drop [OF assms(1), of 1] d by simp
  show "spsc_contents slots cap pr co = slots ! (unat co mod unat cap) # spsc_contents slots cap pr (co + 1)"
    using Cons_nth_drop_Suc [of 0 "spsc_contents slots cap pr co"] d spsc_contents_nth [OF assms(1), of 0]
    unfolding c1 by simp
qed

lemma spsc_contents_subset:
  assumes "spsc_wf slots cap pr co"
  shows "set (spsc_contents slots cap pr co) \<subseteq> set slots"
proof -
  have "0 < unat cap" "length slots = unat cap" using assms by (auto simp: spsc_wf_def word_less_nat_alt)
  then show ?thesis by (auto simp: spsc_contents_def)
qed

lemma spsc_read_wf:
  assumes "spsc_wf slots cap pr co"
  shows "spsc_read slots cap pr co room =
           Some (take room (spsc_contents slots cap pr co), co + of_nat (min room (unat (pr - co))))"
  using assms
proof (induction room arbitrary: co)
  case (Suc room)
  show ?case
  proof (cases "co = pr")
    case False
    have d: "unat (pr - co) = Suc (unat (pr - (co + 1)))"
      using False by (intro word_diff_pred) simp
    note w1 = spsc_contents_Cons(1) [OF Suc.prems False] and h = spsc_contents_Cons(2) [OF Suc.prems False]
    show ?thesis
      using False by (simp add: slot_index_wf [OF Suc.prems] Suc.IH [OF w1] d h)
  qed (simp add: spsc_contents_def)
qed simp

subsection \<open>The queue contract\<close>

text \<open>
  What both rings promise: \<open>put\<close> refuses exactly when the queue is full and then changes
  nothing, otherwise it appends; \<open>get n\<close> removes the first \<open>n\<close> elements.  The \<open>option\<close> is a
  memory fault, which a well-formed queue never raises.
\<close>

datatype 'a fifo_op = Put 'a | Get nat

datatype 'a fifo_reply = Accepted bool | Got "'a list"

fun fifo_run :: "('a \<Rightarrow> 'q \<Rightarrow> (bool \<times> 'q) option) \<Rightarrow> (nat \<Rightarrow> 'q \<Rightarrow> ('a list \<times> 'q) option) \<Rightarrow>
    'a fifo_op list \<Rightarrow> 'q \<Rightarrow> ('a fifo_reply list \<times> 'q) option" where
  "fifo_run put get [] q = Some ([], q)"
| "fifo_run put get (Put x # ops) q =
     Option.bind (put x q) (\<lambda>(b, q1). map_option (map_prod (Cons (Accepted b)) id) (fifo_run put get ops q1))"
| "fifo_run put get (Get n # ops) q =
     Option.bind (get n q) (\<lambda>(xs, q1). map_option (map_prod (Cons (Got xs)) id) (fifo_run put get ops q1))"

text \<open>The reference: a list with a bound.\<close>

fun queue_run :: "nat \<Rightarrow> 'a fifo_op list \<Rightarrow> 'a list \<Rightarrow> 'a fifo_reply list \<times> 'a list" where
  "queue_run bound [] xs = ([], xs)"
| "queue_run bound (Put x # ops) xs =
     (if length xs < bound then map_prod (Cons (Accepted True)) id (queue_run bound ops (xs @ [x]))
      else map_prod (Cons (Accepted False)) id (queue_run bound ops xs))"
| "queue_run bound (Get n # ops) xs = map_prod (Cons (Got (take n xs))) id (queue_run bound ops (drop n xs))"

locale bounded_fifo =
  fixes wf :: "'q \<Rightarrow> bool"
    and room :: "'q \<Rightarrow> nat"
    and contents :: "'q \<Rightarrow> 'a list"
    and put :: "'a \<Rightarrow> 'q \<Rightarrow> (bool \<times> 'q) option"
    and get :: "nat \<Rightarrow> 'q \<Rightarrow> ('a list \<times> 'q) option"
  assumes bounded: "wf q \<Longrightarrow> length (contents q) \<le> room q"
    and put_full: "wf q \<Longrightarrow> length (contents q) = room q \<Longrightarrow> put x q = Some (False, q)"
    and put_room: "wf q \<Longrightarrow> length (contents q) < room q \<Longrightarrow>
        \<exists>q'. put x q = Some (True, q') \<and> wf q' \<and> room q' = room q \<and> contents q' = contents q @ [x]"
    and get_take: "wf q \<Longrightarrow>
        \<exists>q'. get n q = Some (take n (contents q), q') \<and> wf q' \<and> room q' = room q
             \<and> contents q' = drop n (contents q)"
begin

lemma put_total: "wf q \<Longrightarrow> \<exists>b q'. put x q = Some (b, q') \<and> wf q' \<and> room q' = room q
    \<and> contents q' = contents q @ (if b then [x] else []) \<and> (b \<longleftrightarrow> length (contents q) < room q)"
proof (cases "length (contents q) < room q")
  case True
  assume "wf q"
  then obtain q' where "put x q = Some (True, q')" "wf q'" "room q' = room q" "contents q' = contents q @ [x]"
    using put_room True by blast
  then show ?thesis using True by (intro exI [of _ True] exI [of _ q']) simp
next
  case False
  assume w: "wf q"
  then have "length (contents q) = room q" using False bounded [of q] by simp
  then show ?thesis using put_full [OF w] w by (intro exI [of _ False] exI [of _ q]) simp
qed

lemma run_refines:
  assumes "wf q"
  shows "\<exists>rs q'. fifo_run put get ops q = Some (rs, q') \<and> wf q' \<and> room q' = room q
           \<and> queue_run (room q) ops (contents q) = (rs, contents q')"
  using assms
proof (induction ops arbitrary: q)
  case (Cons op ops)
  show ?case
  proof (cases op)
    case (Put x)
    obtain b q1 where p: "put x q = Some (b, q1)" "wf q1" "room q1 = room q"
        "contents q1 = contents q @ (if b then [x] else [])" "b \<longleftrightarrow> length (contents q) < room q"
      using put_total [OF Cons.prems] by blast
    from Cons.IH [OF p(2)] obtain rs q' where
      "fifo_run put get ops q1 = Some (rs, q')" "wf q'" "room q' = room q1" "queue_run (room q1) ops (contents q1) = (rs, contents q')"
      by blast
    then show ?thesis using p Put by (cases b) simp_all
  next
    case (Get n)
    obtain q1 where g: "get n q = Some (take n (contents q), q1)" "wf q1" "room q1 = room q" "contents q1 = drop n (contents q)"
      using get_take [OF Cons.prems] by blast
    from Cons.IH [OF g(2)] obtain rs q' where
      "fifo_run put get ops q1 = Some (rs, q')" "wf q'" "room q' = room q1" "queue_run (room q1) ops (contents q1) = (rs, contents q')"
      by blast
    then show ?thesis using g Get by simp
  qed
qed simp

end

subsection \<open>The event ring (\<open>amp_ring.h\<close>)\<close>

definition AMP_RING_MAGIC :: u32 where "AMP_RING_MAGIC = 0x474E5241"
definition AMP_RING_VERSION :: u32 where "AMP_RING_VERSION = 1"
definition AMP_EVT_USER_BASE :: u16 where "AMP_EVT_USER_BASE = 0x0100"

record amp_evt_hdr =
  evt_type :: u16
  evt_version :: u16
  evt_reserved :: u32
  evt_timestamp :: u64

record amp_ring_rec =
  rec_hdr :: amp_evt_hdr
  rec_value :: u64

text \<open>The control block, and the record slots that follow it in memory.\<close>

record amp_ring =
  rg_magic :: u32
  rg_version :: u32
  rg_capacity :: u32
  rg_rec_size :: u32
  rg_prod :: u32
  rg_cons :: u32
  rg_pad :: "u32 \<times> u32"
  rg_slots :: "amp_ring_rec list"

definition amp_ring_init :: "amp_ring \<Rightarrow> u32 \<Rightarrow> amp_ring" where
  "amp_ring_init r capacity =
     r \<lparr> rg_magic := AMP_RING_MAGIC, rg_version := AMP_RING_VERSION, rg_capacity := capacity,
         rg_rec_size := 24, rg_prod := 0, rg_cons := 0, rg_pad := (0, 0) \<rparr>"

definition amp_evt_rec :: "u64 \<Rightarrow> u64 \<Rightarrow> amp_ring_rec" where
  "amp_evt_rec ts value =
     \<lparr> rec_hdr = \<lparr> evt_type = AMP_EVT_USER_BASE, evt_version = ucast AMP_RING_VERSION,
                    evt_reserved = 0, evt_timestamp = ts \<rparr>,
       rec_value = value \<rparr>"

definition amp_ring_emit :: "amp_ring \<Rightarrow> u64 \<Rightarrow> u64 \<Rightarrow> (bool \<times> amp_ring) option" where
  "amp_ring_emit r ts value =
     (let pr = rg_prod r; co = rg_cons r in
      if pr - co \<ge> rg_capacity r then Some (False, r)
      else case slot_index pr (rg_capacity r) (rg_slots r) of
        None \<Rightarrow> None
      | Some i \<Rightarrow> Some (True, r \<lparr> rg_slots := (rg_slots r)[i := amp_evt_rec ts value],
                                 rg_prod := pr + 1 \<rparr>))"

definition amp_ring_wf :: "amp_ring \<Rightarrow> bool" where
  "amp_ring_wf r = spsc_wf (rg_slots r) (rg_capacity r) (rg_prod r) (rg_cons r)"

definition amp_ring_contents :: "amp_ring \<Rightarrow> amp_ring_rec list" where
  "amp_ring_contents r = spsc_contents (rg_slots r) (rg_capacity r) (rg_prod r) (rg_cons r)"

text \<open>The consumer side: the read loop of the drain followed by the commit of \<open>cons\<close>.\<close>

definition amp_ring_consume :: "nat \<Rightarrow> amp_ring \<Rightarrow> (amp_ring_rec list \<times> amp_ring) option" where
  "amp_ring_consume n r =
     (case spsc_read (rg_slots r) (rg_capacity r) (rg_prod r) (rg_cons r) n of
        None \<Rightarrow> None | Some (xs, c) \<Rightarrow> Some (xs, r \<lparr> rg_cons := c \<rparr>))"

definition amp_ring_put :: "u64 \<times> u64 \<Rightarrow> amp_ring \<Rightarrow> (bool \<times> amp_ring) option" where
  "amp_ring_put x r = amp_ring_emit r (fst x) (snd x)"

definition amp_rec_key :: "amp_ring_rec \<Rightarrow> u64 \<times> u64" where
  "amp_rec_key e = (evt_timestamp (rec_hdr e), rec_value e)"

definition amp_ring_get :: "nat \<Rightarrow> amp_ring \<Rightarrow> ((u64 \<times> u64) list \<times> amp_ring) option" where
  "amp_ring_get n r = map_option (map_prod (map amp_rec_key) id) (amp_ring_consume n r)"

lemma amp_rec_key_evt [simp]: "amp_rec_key (amp_evt_rec ts v) = (ts, v)"
  by (simp add: amp_rec_key_def amp_evt_rec_def)

lemma amp_ring_emit_wf:
  assumes "amp_ring_wf r"
  shows "amp_ring_emit r ts v =
    (if unat (rg_prod r - rg_cons r) = unat (rg_capacity r) then Some (False, r)
     else Some (True, r \<lparr> rg_slots := (rg_slots r)[unat (rg_prod r) mod unat (rg_capacity r) := amp_evt_rec ts v],
                          rg_prod := rg_prod r + 1 \<rparr>))"
proof -
  have "rg_capacity r \<le> rg_prod r - rg_cons r \<longleftrightarrow> unat (rg_prod r - rg_cons r) = unat (rg_capacity r)"
    using assms by (auto simp: amp_ring_wf_def spsc_wf_def word_le_nat_alt)
  then show ?thesis
    using slot_index_wf [OF assms [unfolded amp_ring_wf_def]] by (simp add: amp_ring_emit_def Let_def)
qed

lemma amp_ring_consume_wf:
  assumes "amp_ring_wf r"
  shows "amp_ring_consume n r = Some (take n (amp_ring_contents r),
     r \<lparr> rg_cons := rg_cons r + of_nat (min n (unat (rg_prod r - rg_cons r))) \<rparr>)"
  using assms by (simp add: amp_ring_consume_def amp_ring_contents_def amp_ring_wf_def spsc_read_wf)

interpretation evq: bounded_fifo amp_ring_wf "\<lambda>r. unat (rg_capacity r)"
  "\<lambda>r. map amp_rec_key (amp_ring_contents r)" amp_ring_put amp_ring_get
proof unfold_locales
  fix r :: amp_ring and x :: "u64 \<times> u64" and n :: nat
  assume w: "amp_ring_wf r"
  note w' = w [unfolded amp_ring_wf_def]
  show "length (map amp_rec_key (amp_ring_contents r)) \<le> unat (rg_capacity r)"
    using w by (simp add: amp_ring_contents_def amp_ring_wf_def spsc_wf_def)
  show "amp_ring_put x r = Some (False, r)"
    if "length (map amp_rec_key (amp_ring_contents r)) = unat (rg_capacity r)"
    using that by (simp add: amp_ring_put_def amp_ring_emit_wf [OF w] amp_ring_contents_def)
  show "\<exists>r'. amp_ring_put x r = Some (True, r') \<and> amp_ring_wf r' \<and> unat (rg_capacity r') = unat (rg_capacity r)
      \<and> map amp_rec_key (amp_ring_contents r') = map amp_rec_key (amp_ring_contents r) @ [x]"
    if "length (map amp_rec_key (amp_ring_contents r)) < unat (rg_capacity r)"
    using that spsc_contents_push [OF w', of "amp_evt_rec (fst x) (snd x)"]
    by (simp add: amp_ring_put_def amp_ring_emit_wf [OF w] amp_ring_contents_def amp_ring_wf_def)
  show "\<exists>r'. amp_ring_get n r = Some (take n (map amp_rec_key (amp_ring_contents r)), r') \<and> amp_ring_wf r'
      \<and> unat (rg_capacity r') = unat (rg_capacity r)
      \<and> map amp_rec_key (amp_ring_contents r') = drop n (map amp_rec_key (amp_ring_contents r))"
    using spsc_contents_drop [OF w', of "min n (unat (rg_prod r - rg_cons r))"]
    by (simp add: amp_ring_get_def amp_ring_consume_wf [OF w] amp_ring_contents_def amp_ring_wf_def
        take_map drop_map min_def split: if_splits)
qed

subsection \<open>The command ring (\<open>amp_abi_imx95m7.h\<close>)\<close>

definition AMP_BLOB_MAX :: nat where "AMP_BLOB_MAX = 512"
definition AMP_CMD_RING_MAGIC :: u32 where "AMP_CMD_RING_MAGIC = 0x444D4341"
definition AMP_CMD_RING_CAP :: u32 where "AMP_CMD_RING_CAP = 2"

definition AMP_CMD_NONE :: u32 where "AMP_CMD_NONE = 0"
definition AMP_CMD_INSTALL :: u32 where "AMP_CMD_INSTALL = 1"
definition AMP_CMD_TEARDOWN :: u32 where "AMP_CMD_TEARDOWN = 2"

record amp_cmd_rec =
  cmd_type :: u32
  cmd_abi_version :: u32
  cmd_length :: u32
  cmd_ivars_size :: u32
  cmd_blob :: bytes

record amp_cmd_ring =
  cr_magic :: u32
  cr_version :: u32
  cr_capacity :: u32
  cr_rec_size :: u32
  cr_prod :: u32
  cr_cons :: u32
  cr_pad :: "u32 \<times> u32"
  cr_recs :: "amp_cmd_rec list"

definition amp_cmd_ring_init :: "amp_cmd_ring \<Rightarrow> amp_cmd_ring" where
  "amp_cmd_ring_init r =
     r \<lparr> cr_version := 1, cr_capacity := AMP_CMD_RING_CAP, cr_rec_size := 528,
         cr_prod := 0, cr_cons := 0, cr_pad := (0, 0), cr_magic := AMP_CMD_RING_MAGIC \<rparr>"

definition amp_cmd_ring_push :: "amp_cmd_ring \<Rightarrow> amp_cmd_rec \<Rightarrow> (bool \<times> amp_cmd_ring) option" where
  "amp_cmd_ring_push r rec =
     (if cr_magic r \<noteq> AMP_CMD_RING_MAGIC then Some (False, r)
      else let pr = cr_prod r; co = cr_cons r in
        if pr - co \<ge> cr_capacity r then Some (False, r)
        else case slot_index pr (cr_capacity r) (cr_recs r) of
          None \<Rightarrow> None
        | Some i \<Rightarrow> Some (True, r \<lparr> cr_recs := (cr_recs r)[i := rec], cr_prod := pr + 1 \<rparr>))"

definition amp_cmd_ring_wf :: "amp_cmd_ring \<Rightarrow> bool" where
  "amp_cmd_ring_wf r \<longleftrightarrow> cr_magic r = AMP_CMD_RING_MAGIC
     \<and> spsc_wf (cr_recs r) (cr_capacity r) (cr_prod r) (cr_cons r)"

definition amp_cmd_ring_contents :: "amp_cmd_ring \<Rightarrow> amp_cmd_rec list" where
  "amp_cmd_ring_contents r = spsc_contents (cr_recs r) (cr_capacity r) (cr_prod r) (cr_cons r)"

definition amp_cmd_ring_put :: "amp_cmd_rec \<Rightarrow> amp_cmd_ring \<Rightarrow> (bool \<times> amp_cmd_ring) option" where
  "amp_cmd_ring_put rec r = amp_cmd_ring_push r rec"

definition amp_cmd_ring_get :: "nat \<Rightarrow> amp_cmd_ring \<Rightarrow> (amp_cmd_rec list \<times> amp_cmd_ring) option" where
  "amp_cmd_ring_get n r =
     (case spsc_read (cr_recs r) (cr_capacity r) (cr_prod r) (cr_cons r) n of
        None \<Rightarrow> None | Some (xs, c) \<Rightarrow> Some (xs, r \<lparr> cr_cons := c \<rparr>))"

lemma amp_cmd_ring_init_wf:
  assumes "length (cr_recs r) = 2"
  shows "amp_cmd_ring_wf (amp_cmd_ring_init r)" and "amp_cmd_ring_contents (amp_cmd_ring_init r) = []"
  using assms by (simp_all add: amp_cmd_ring_wf_def amp_cmd_ring_init_def amp_cmd_ring_contents_def
      spsc_wf_def spsc_contents_def AMP_CMD_RING_CAP_def)

lemma amp_ring_init_wf:
  assumes "length (rg_slots r) = unat cap" "unat cap dvd 2 ^ 32" "0 < cap"
  shows "amp_ring_wf (amp_ring_init r cap)" and "amp_ring_contents (amp_ring_init r cap) = []"
  using assms by (simp_all add: amp_ring_wf_def amp_ring_init_def amp_ring_contents_def
      spsc_wf_def spsc_contents_def)

lemma amp_cmd_ring_push_wf:
  assumes "amp_cmd_ring_wf r"
  shows "amp_cmd_ring_push r rec =
    (if unat (cr_prod r - cr_cons r) = unat (cr_capacity r) then Some (False, r)
     else Some (True, r \<lparr> cr_recs := (cr_recs r)[unat (cr_prod r) mod unat (cr_capacity r) := rec],
                          cr_prod := cr_prod r + 1 \<rparr>))"
proof -
  have w: "spsc_wf (cr_recs r) (cr_capacity r) (cr_prod r) (cr_cons r)"
    and m: "cr_magic r = AMP_CMD_RING_MAGIC"
    using assms by (simp_all add: amp_cmd_ring_wf_def)
  have "cr_capacity r \<le> cr_prod r - cr_cons r \<longleftrightarrow> unat (cr_prod r - cr_cons r) = unat (cr_capacity r)"
    using w by (auto simp: spsc_wf_def word_le_nat_alt)
  then show ?thesis
    using slot_index_wf [OF w] m by (simp add: amp_cmd_ring_push_def Let_def)
qed

interpretation cmdq: bounded_fifo amp_cmd_ring_wf "\<lambda>r. unat (cr_capacity r)"
  amp_cmd_ring_contents amp_cmd_ring_put amp_cmd_ring_get
proof unfold_locales
  fix r :: amp_cmd_ring and x :: amp_cmd_rec and n :: nat
  assume w: "amp_cmd_ring_wf r"
  then have w': "spsc_wf (cr_recs r) (cr_capacity r) (cr_prod r) (cr_cons r)"
    by (simp add: amp_cmd_ring_wf_def)
  show "length (amp_cmd_ring_contents r) \<le> unat (cr_capacity r)"
    using w' by (simp add: amp_cmd_ring_contents_def spsc_wf_def)
  show "amp_cmd_ring_put x r = Some (False, r)" if "length (amp_cmd_ring_contents r) = unat (cr_capacity r)"
    using that by (simp add: amp_cmd_ring_put_def amp_cmd_ring_push_wf [OF w] amp_cmd_ring_contents_def)
  show "\<exists>r'. amp_cmd_ring_put x r = Some (True, r') \<and> amp_cmd_ring_wf r'
      \<and> unat (cr_capacity r') = unat (cr_capacity r)
      \<and> amp_cmd_ring_contents r' = amp_cmd_ring_contents r @ [x]"
    if "length (amp_cmd_ring_contents r) < unat (cr_capacity r)"
    using that w spsc_contents_push [OF w', of x]
    by (simp add: amp_cmd_ring_put_def amp_cmd_ring_push_wf [OF w] amp_cmd_ring_contents_def amp_cmd_ring_wf_def)
  show "\<exists>r'. amp_cmd_ring_get n r = Some (take n (amp_cmd_ring_contents r), r') \<and> amp_cmd_ring_wf r'
      \<and> unat (cr_capacity r') = unat (cr_capacity r)
      \<and> amp_cmd_ring_contents r' = drop n (amp_cmd_ring_contents r)"
    using w spsc_contents_drop [OF w', of "min n (unat (cr_prod r - cr_cons r))"]
    by (simp add: amp_cmd_ring_get_def spsc_read_wf [OF w'] amp_cmd_ring_contents_def amp_cmd_ring_wf_def
        min_def split: if_splits)
qed

end
