(* ===== verification/Amp_Ring_Steps.thy ===== *)
theory Amp_Ring_Steps
  imports Amp_Ring
begin

text \<open>
  The event ring with its two cores interleaved.  \<open>amp_ring_emit\<close> is split where the M7 touches
  shared memory: it loads \<open>prod\<close> and \<open>cons\<close>, stores the record, and publishes \<open>prod + 1\<close>.  The
  drain on the A55 (\<open>amp_otlp.c\<close>) is split into the load of \<open>cons\<close>, one step per record
  (each re-reading the volatile \<open>prod\<close>), and the commit of \<open>cons\<close>, or no commit when building
  the batch fails.  The two index loads of the producer are one step, and so are the stores to the
  fields of one record, which the consumer does not look at before the index is published.  Any
  interleaving of these steps is allowed; each step on its own is atomic and
  becomes visible in program order (the cache maintenance that the comments of the sources ask
  for).

  \<open>sys_sent\<close> and \<open>sys_recvd\<close> are history variables: what the producer published and what the
  consumer committed.
\<close>

datatype prod_pc = PIdle | PLoaded u64 u64 u32 u32 | PWritten u64 u64 u32
datatype cons_pc = CIdle | CReading u32 "amp_ring_rec list"

record ring_sys =
  sys_ring :: amp_ring
  sys_ppc :: prod_pc
  sys_cpc :: cons_pc
  sys_sent :: "(u64 \<times> u64) list"
  sys_recvd :: "(u64 \<times> u64) list"

inductive ring_step :: "nat \<Rightarrow> ring_sys \<Rightarrow> ring_sys \<Rightarrow> bool" for batch :: nat where
  emit_load: "sys_ppc s = PIdle \<Longrightarrow>
     ring_step batch s (s \<lparr> sys_ppc := PLoaded ts v (rg_prod (sys_ring s)) (rg_cons (sys_ring s)) \<rparr>)"
| emit_full: "sys_ppc s = PLoaded ts v p c \<Longrightarrow> p - c \<ge> rg_capacity (sys_ring s) \<Longrightarrow>
     ring_step batch s (s \<lparr> sys_ppc := PIdle \<rparr>)"
| emit_store: "sys_ppc s = PLoaded ts v p c \<Longrightarrow> \<not> p - c \<ge> rg_capacity (sys_ring s) \<Longrightarrow>
     slot_index p (rg_capacity (sys_ring s)) (rg_slots (sys_ring s)) = Some i \<Longrightarrow>
     ring_step batch s (s \<lparr> sys_ppc := PWritten ts v p,
       sys_ring := (sys_ring s) \<lparr> rg_slots := (rg_slots (sys_ring s))[i := amp_evt_rec ts v] \<rparr> \<rparr>)"
| emit_publish: "sys_ppc s = PWritten ts v p \<Longrightarrow>
     ring_step batch s (s \<lparr> sys_ppc := PIdle,
       sys_ring := (sys_ring s) \<lparr> rg_prod := p + 1 \<rparr>, sys_sent := sys_sent s @ [(ts, v)] \<rparr>)"
| drain_load: "sys_cpc s = CIdle \<Longrightarrow>
     ring_step batch s (s \<lparr> sys_cpc := CReading (rg_cons (sys_ring s)) [] \<rparr>)"
| drain_read: "sys_cpc s = CReading c acc \<Longrightarrow> length acc < batch \<Longrightarrow> c \<noteq> rg_prod (sys_ring s) \<Longrightarrow>
     slot_index c (rg_capacity (sys_ring s)) (rg_slots (sys_ring s)) = Some i \<Longrightarrow>
     ring_step batch s (s \<lparr> sys_cpc := CReading (c + 1) (acc @ [rg_slots (sys_ring s) ! i]) \<rparr>)"
| drain_commit: "sys_cpc s = CReading c acc \<Longrightarrow>
     ring_step batch s (s \<lparr> sys_cpc := CIdle,
       sys_ring := (sys_ring s) \<lparr> rg_cons := c \<rparr>, sys_recvd := sys_recvd s @ map amp_rec_key acc \<rparr>)"
| drain_fail: "sys_cpc s = CReading c acc \<Longrightarrow>
     ring_step batch s (s \<lparr> sys_cpc := CIdle \<rparr>)"

definition ring_sys_init :: "ring_sys \<Rightarrow> bool" where
  "ring_sys_init s \<longleftrightarrow> amp_ring_wf (sys_ring s) \<and> amp_ring_contents (sys_ring s) = []
     \<and> sys_ppc s = PIdle \<and> sys_cpc s = CIdle \<and> sys_sent s = [] \<and> sys_recvd s = []"

inductive ring_reach :: "nat \<Rightarrow> ring_sys \<Rightarrow> bool" for batch :: nat where
  reach_init: "ring_sys_init s \<Longrightarrow> ring_reach batch s"
| reach_step: "ring_reach batch s \<Longrightarrow> ring_step batch s s' \<Longrightarrow> ring_reach batch s'"

definition prod_inv :: "amp_ring \<Rightarrow> prod_pc \<Rightarrow> bool" where
  "prod_inv r pc = (case pc of
       PIdle \<Rightarrow> True
     | PLoaded ts v p c \<Rightarrow> p = rg_prod r \<and> unat (rg_prod r - rg_cons r) \<le> unat (p - c)
     | PWritten ts v p \<Rightarrow> p = rg_prod r \<and> unat (rg_prod r - rg_cons r) < unat (rg_capacity r)
         \<and> rg_slots r ! (unat p mod unat (rg_capacity r)) = amp_evt_rec ts v)"

definition cons_inv :: "amp_ring \<Rightarrow> cons_pc \<Rightarrow> bool" where
  "cons_inv r pc = (case pc of
       CIdle \<Rightarrow> True
     | CReading c acc \<Rightarrow> unat (c - rg_cons r) \<le> unat (rg_prod r - rg_cons r)
         \<and> acc = take (unat (c - rg_cons r)) (amp_ring_contents r))"

definition sys_inv :: "ring_sys \<Rightarrow> bool" where
  "sys_inv s \<longleftrightarrow> amp_ring_wf (sys_ring s)
     \<and> sys_sent s = sys_recvd s @ map amp_rec_key (amp_ring_contents (sys_ring s))
     \<and> prod_inv (sys_ring s) (sys_ppc s) \<and> cons_inv (sys_ring s) (sys_cpc s)"

lemma prod_inv_idle: "prod_inv r PIdle"
  by (simp add: prod_inv_def)

lemma sys_inv_init: "ring_sys_init s \<Longrightarrow> sys_inv s"
  by (simp add: ring_sys_init_def sys_inv_def prod_inv_def cons_inv_def)

lemma prod_inv_room:
  assumes "prod_inv r (PLoaded ts v p c)" "\<not> p - c \<ge> rg_capacity r"
  shows "p = rg_prod r" and "unat (rg_prod r - rg_cons r) < unat (rg_capacity r)"
  using assms by (auto simp: prod_inv_def word_le_nat_alt)

text \<open>The slot store happens outside the readable part of the ring.\<close>

lemma inv_store:
  assumes w: "amp_ring_wf r" and p: "prod_inv r (PLoaded ts v p c)" "\<not> p - c \<ge> rg_capacity r"
    and i: "slot_index p (rg_capacity r) (rg_slots r) = Some i" and c: "cons_inv r cpc"
  defines "r' \<equiv> r \<lparr> rg_slots := (rg_slots r)[i := amp_evt_rec ts v] \<rparr>"
  shows "amp_ring_wf r'" "amp_ring_contents r' = amp_ring_contents r"
    "prod_inv r' (PWritten ts v p)" "cons_inv r' cpc"
proof -
  note w' = w [unfolded amp_ring_wf_def]
  note room = prod_inv_room [OF p]
  have i': "i = unat (rg_prod r) mod unat (rg_capacity r)"
    using i room(1) slot_index_wf [OF w'] by simp
  have pos: "0 < unat (rg_capacity r)" using w' by (simp add: spsc_wf_def word_less_nat_alt)
  show c': "amp_ring_contents r' = amp_ring_contents r"
    using contents_write_slot [OF w' room(2), of "amp_evt_rec ts v"]
    by (simp add: amp_ring_contents_def r'_def i')
  show "amp_ring_wf r'" using w by (simp add: amp_ring_wf_def spsc_wf_def r'_def)
  show "prod_inv r' (PWritten ts v p)"
    using room i' pos w' by (simp add: prod_inv_def r'_def spsc_wf_def)
  show "cons_inv r' cpc"
    using c c' by (simp add: cons_inv_def r'_def split: cons_pc.splits)
qed

lemma inv_publish:
  assumes w: "amp_ring_wf r" and p: "prod_inv r (PWritten ts v p)" and c: "cons_inv r cpc"
  defines "r' \<equiv> r \<lparr> rg_prod := p + 1 \<rparr>"
  shows "amp_ring_wf r'" "amp_ring_contents r' = amp_ring_contents r @ [amp_evt_rec ts v]"
    "cons_inv r' cpc"
proof -
  note w' = w [unfolded amp_ring_wf_def]
  have pp: "p = rg_prod r" and room: "unat (rg_prod r - rg_cons r) < unat (rg_capacity r)"
    and sl: "rg_slots r ! (unat p mod unat (rg_capacity r)) = amp_evt_rec ts v"
    using p by (auto simp: prod_inv_def)
  have same: "(rg_slots r)[unat (rg_prod r) mod unat (rg_capacity r) := amp_evt_rec ts v] = rg_slots r"
    using sl pp by (metis list_update_id)
  note push = spsc_contents_push [OF w' room, of "amp_evt_rec ts v", unfolded same]
  show c': "amp_ring_contents r' = amp_ring_contents r @ [amp_evt_rec ts v]"
    using push by (simp add: amp_ring_contents_def r'_def pp)
  show "amp_ring_wf r'" using push by (simp add: amp_ring_wf_def r'_def pp)
  have "length (amp_ring_contents r') = Suc (length (amp_ring_contents r))" using c' by simp
  then have "unat (rg_prod r' - rg_cons r) = Suc (unat (rg_prod r - rg_cons r))"
    by (simp add: amp_ring_contents_def r'_def)
  then show "cons_inv r' cpc"
    using c unfolding cons_inv_def c' by (auto simp: r'_def amp_ring_contents_def split: cons_pc.splits)
qed

lemma inv_read:
  assumes w: "amp_ring_wf r" and c: "cons_inv r (CReading c acc)" "c \<noteq> rg_prod r"
    and i: "slot_index c (rg_capacity r) (rg_slots r) = Some i"
  shows "cons_inv r (CReading (c + 1) (acc @ [rg_slots r ! i]))"
proof -
  note w' = w [unfolded amp_ring_wf_def]
  let ?k = "unat (c - rg_cons r)"
  have ce: "c = rg_cons r + of_nat ?k" by simp
  have "?k \<noteq> unat (rg_prod r - rg_cons r)" using c(2) by (metis diff_add_cancel word_unat_eq_iff)
  then have k: "?k < unat (rg_prod r - rg_cons r)" using c(1) by (simp add: cons_inv_def)
  have d: "unat (c + 1 - rg_cons r) = Suc ?k"
    using k w' cap_small [of "rg_capacity r"] by (intro word_diff_Suc) (auto simp: spsc_wf_def)
  have "i = unat c mod unat (rg_capacity r)" using i slot_index_wf [OF w'] by simp
  moreover have "unat c mod unat (rg_capacity r) = (unat (rg_cons r) + ?k) mod unat (rg_capacity r)"
    using unat_index_mod [of "unat (rg_capacity r)" "rg_cons r" ?k] w' by (simp add: spsc_wf_def)
  ultimately have "amp_ring_contents r ! ?k = rg_slots r ! i"
    using spsc_contents_nth [OF w' k] by (simp add: amp_ring_contents_def)
  moreover have "?k < length (amp_ring_contents r)" using k by (simp add: amp_ring_contents_def)
  ultimately have "take (Suc ?k) (amp_ring_contents r) = take ?k (amp_ring_contents r) @ [rg_slots r ! i]"
    by (simp add: take_Suc_conv_app_nth)
  then show ?thesis using c(1) k by (simp add: cons_inv_def d)
qed

lemma inv_commit:
  assumes w: "amp_ring_wf r" and c: "cons_inv r (CReading c acc)" and p: "prod_inv r ppc"
  defines "r' \<equiv> r \<lparr> rg_cons := c \<rparr>"
  shows "amp_ring_wf r'" "acc @ amp_ring_contents r' = amp_ring_contents r" "prod_inv r' ppc"
proof -
  note w' = w [unfolded amp_ring_wf_def]
  let ?k = "unat (c - rg_cons r)"
  have ce: "rg_cons r + of_nat ?k = c" by simp
  have k: "?k \<le> unat (rg_prod r - rg_cons r)" and a: "acc = take ?k (amp_ring_contents r)"
    using c by (simp_all add: cons_inv_def)
  note d = spsc_contents_drop [OF w' k, unfolded ce]
  show "amp_ring_wf r'" using d(2) by (simp add: amp_ring_wf_def r'_def)
  show "acc @ amp_ring_contents r' = amp_ring_contents r"
    using d(1) a by (simp add: amp_ring_contents_def r'_def)
  have "unat (rg_prod r - c) \<le> unat (rg_prod r - rg_cons r)"
    using word_diff_of_nat [OF k] unfolding ce by simp
  then show "prod_inv r' ppc"
    using p by (auto simp: prod_inv_def r'_def split: prod_pc.splits)
qed

lemma sys_inv_step:
  assumes "ring_step batch s s'" "sys_inv s"
  shows "sys_inv s'"
  using assms
proof (cases rule: ring_step.cases)
  case (emit_store ts v p c i)
  then show ?thesis
    using inv_store [of "sys_ring s" ts v p c i "sys_cpc s"] assms(2) by (simp add: sys_inv_def)
next
  case (emit_publish ts v p)
  then have "prod_inv (sys_ring s) (PWritten ts v p)" using assms(2) by (simp add: sys_inv_def)
  then show ?thesis
    using emit_publish inv_publish [of "sys_ring s" ts v p "sys_cpc s"] assms(2)
    by (simp add: sys_inv_def prod_inv_idle)
next
  case (drain_read c acc i)
  then show ?thesis
    using inv_read [of "sys_ring s" c acc i] assms(2) by (simp add: sys_inv_def)
next
  case (drain_commit c acc)
  then have "cons_inv (sys_ring s) (CReading c acc)" using assms(2) by (simp add: sys_inv_def)
  then show ?thesis
    using drain_commit inv_commit [of "sys_ring s" c acc "sys_ppc s"] assms(2)
    by (auto simp: sys_inv_def cons_inv_def simp flip: map_append)
qed (simp_all add: sys_inv_def prod_inv_def cons_inv_def)

lemma ring_reach_inv: "ring_reach batch s \<Longrightarrow> sys_inv s"
  by (induction rule: ring_reach.induct) (auto intro: sys_inv_init sys_inv_step)

lemma ring_reach_slot:
  assumes "ring_reach batch s"
  shows "slot_index idx (rg_capacity (sys_ring s)) (rg_slots (sys_ring s)) \<noteq> None"
  using ring_reach_inv [OF assms] slot_index_wf by (fastforce simp: sys_inv_def amp_ring_wf_def)

subsection \<open>Properties\<close>

definition demo_ring :: amp_ring where
  "demo_ring = amp_ring_init \<lparr> rg_magic = 0, rg_version = 0, rg_capacity = 0, rg_rec_size = 0,
     rg_prod = 0, rg_cons = 0, rg_pad = (0, 0), rg_slots = replicate 2 (amp_evt_rec 0 0) \<rparr> 2"

definition demo_sys :: ring_sys where
  "demo_sys = \<lparr> sys_ring = demo_ring, sys_ppc = PIdle, sys_cpc = CIdle, sys_sent = [], sys_recvd = [] \<rparr>"

definition demo_sys1 :: ring_sys where
  "demo_sys1 = \<lparr> sys_ring = demo_ring \<lparr> rg_prod := 1, rg_slots := [amp_evt_rec 7 42, amp_evt_rec 0 0] \<rparr>,
     sys_ppc = PIdle, sys_cpc = CReading 1 [amp_evt_rec 7 42], sys_sent = [(7, 42)], sys_recvd = [] \<rparr>"

lemma demo_ring_wf: "amp_ring_wf demo_ring" "amp_ring_contents demo_ring = []"
  unfolding demo_ring_def by (rule amp_ring_init_wf; simp)+

lemma demo_reach: "ring_reach 64 demo_sys"
  by (rule reach_init) (simp add: ring_sys_init_def demo_sys_def demo_ring_wf)

lemma demo_reach1: "ring_reach 64 demo_sys1"
proof -
  let ?s1 = "demo_sys \<lparr> sys_ppc := PLoaded 7 42 0 0 \<rparr>"
  let ?s2 = "?s1 \<lparr> sys_ppc := PWritten 7 42 0,
     sys_ring := demo_ring \<lparr> rg_slots := [amp_evt_rec 7 42, amp_evt_rec 0 0] \<rparr> \<rparr>"
  let ?s3 = "demo_sys1 \<lparr> sys_cpc := CIdle \<rparr>"
  let ?s4 = "demo_sys1 \<lparr> sys_cpc := CReading 0 [] \<rparr>"
  have r1: "ring_reach 64 ?s1"
    using reach_step [OF demo_reach emit_load [of demo_sys 64 7 42]]
    by (simp add: demo_sys_def demo_ring_def amp_ring_init_def)
  have r2: "ring_reach 64 ?s2"
    using reach_step [OF r1 emit_store [of ?s1 7 42 0 0 0]]
    by (simp add: demo_sys_def demo_ring_def amp_ring_init_def slot_index_def numeral_2_eq_2)
  have r3: "ring_reach 64 ?s3"
    using reach_step [OF r2 emit_publish [of ?s2 7 42 0]]
    by (simp add: demo_sys_def demo_sys1_def demo_ring_def amp_ring_init_def)
  have r4: "ring_reach 64 ?s4"
    using reach_step [OF r3 drain_load [of ?s3]]
    by (simp add: demo_sys_def demo_sys1_def demo_ring_def amp_ring_init_def)
  show ?thesis
    using reach_step [OF r4 drain_read [of ?s4 0 "[]" 64 0]]
    by (simp add: demo_sys1_def demo_ring_def amp_ring_init_def slot_index_def)
qed

text \<open>C3: in every interleaving of the producer's and the consumer's memory accesses, the records
  published by \<open>amp_ring_emit\<close> are exactly those already committed by the drain followed by those
  still readable in the ring, in order; a drain in progress has read a prefix of the readable
  records (never a slot that is being overwritten); and no access leaves the slot array.  The
  indices wrap at \<open>2^32\<close>; the capacity divides \<open>2^32\<close>.\<close>

theorem ring_interleaved_fifo:
  assumes "ring_reach batch s"
  shows "sys_sent s = sys_recvd s @ map amp_rec_key (amp_ring_contents (sys_ring s))
    \<and> (\<forall>c acc. sys_cpc s = CReading c acc \<longrightarrow> (\<exists>rest. amp_ring_contents (sys_ring s) = acc @ rest))
    \<and> length (amp_ring_contents (sys_ring s)) \<le> unat (rg_capacity (sys_ring s))
    \<and> slot_index idx (rg_capacity (sys_ring s)) (rg_slots (sys_ring s)) \<noteq> None"
proof (intro conjI allI impI)
  note inv = ring_reach_inv [OF assms, unfolded sys_inv_def]
  show "sys_sent s = sys_recvd s @ map amp_rec_key (amp_ring_contents (sys_ring s))" using inv by simp
  show "\<exists>rest. amp_ring_contents (sys_ring s) = acc @ rest" if "sys_cpc s = CReading c acc" for c acc
    using inv that by (auto simp: cons_inv_def intro: append_take_drop_id [symmetric])
  show "length (amp_ring_contents (sys_ring s)) \<le> unat (rg_capacity (sys_ring s))"
    using inv evq.bounded [of "sys_ring s"] by simp
  show "slot_index idx (rg_capacity (sys_ring s)) (rg_slots (sys_ring s)) \<noteq> None"
    using ring_reach_slot [OF assms] .
qed

theorem ring_interleaved_fifo_witness:
  "sys_sent demo_sys1 = sys_recvd demo_sys1 @ map amp_rec_key (amp_ring_contents (sys_ring demo_sys1))
   \<and> (\<exists>rest. amp_ring_contents (sys_ring demo_sys1) = [amp_evt_rec 7 42] @ rest)"
  using ring_interleaved_fifo [OF demo_reach1] by (simp add: demo_sys1_def)

text \<open>C6: the event ring implements a bounded FIFO queue.  On any well-formed ring, for any sequence of
  \<open>amp_ring_emit\<close> calls and consumptions, no access faults; every emit answers exactly as a list bounded
  by the capacity does (accepted while there is room, dropped when full and then without effect), every
  consumption returns exactly the oldest records of that list, and what is left in the ring is what is
  left in the list.  The indices wrap at \<open>2^32\<close>; the capacity divides \<open>2^32\<close>.\<close>

theorem amp_ring_fifo:
  assumes "amp_ring_wf r"
  shows "\<exists>rs r'. fifo_run amp_ring_put amp_ring_get ops r = Some (rs, r') \<and> amp_ring_wf r'
    \<and> queue_run (unat (rg_capacity r)) ops (map amp_rec_key (amp_ring_contents r)) = (rs, map amp_rec_key (amp_ring_contents r'))"
  using evq.run_refines [OF assms] by blast

theorem amp_ring_fifo_witness:
  "\<exists>r'. fifo_run amp_ring_put amp_ring_get [Put (1, 10), Put (2, 20), Put (3, 30), Get 1] demo_ring
      = Some ([Accepted True, Accepted True, Accepted False, Got [(1, 10)]], r')
      \<and> map amp_rec_key (amp_ring_contents r') = [(2, 20)]"
proof -
  have "unat (rg_capacity demo_ring) = 2" by (simp add: demo_ring_def amp_ring_init_def)
  then show ?thesis
    using amp_ring_fifo [OF demo_ring_wf(1), of "[Put (1, 10), Put (2, 20), Put (3, 30), Get 1]"]
    by (auto simp: demo_ring_wf(2))
qed

end
