(* ===== verification/Amp_Check.thy ===== *)
theory Amp_Check
  imports Prelude
begin

text \<open>
  The bytecode checker that runs before a program is shipped to the real-time core
  (\<open>src/runtime/amp/amp_check.c\<close>).  \<open>amp_check_text\<close> walks the \<open>.text\<close> bytes once, tracks
  which registers hold a constant or the frame pointer, and adds up a static cost.

  What acceptance means for the machine that runs the program is the subject of \<open>Amp_Check_Sound\<close>.

  In C the register file is an array of 11 entries that the walk also indexes with the 4-bit
  register fields 11 to 15.  What such a read past the array finds is not defined by the language; it is
  the argument \<open>oob\<close> (by slot and register), so that every result holds whatever lies there.
\<close>

subsection \<open>The checker\<close>

definition AMP_IVARS_BASE :: u64 where "AMP_IVARS_BASE = 0x2003FF00"
definition AMP_IVARS_SIZE :: u64 where "AMP_IVARS_SIZE = 0x100"
definition AMP_STACK_BYTES :: int where "AMP_STACK_BYTES = 512"
definition COST_ALU :: u32 where "COST_ALU = 1"
definition COST_BRANCH :: u32 where "COST_BRANCH = 2"
definition COST_MEM :: u32 where "COST_MEM = 4"
definition COST_LDDW :: u32 where "COST_LDDW = 2"

lemmas amp_const_defs = AMP_IVARS_BASE_def AMP_IVARS_SIZE_def AMP_STACK_BYTES_def
  COST_ALU_def COST_BRANCH_def COST_MEM_def COST_LDDW_def

definition amp_helper_allowed :: "u32 \<Rightarrow> bool" where
  "amp_helper_allowed hid \<longleftrightarrow> hid = 1 \<or> hid = 2"

definition amp_helper_cost :: "u32 \<Rightarrow> u32" where
  "amp_helper_cost hid = (if hid = 1 then 60 else if hid = 2 then 12 else 0)"

record regv =
  rv_known :: nat
  rv_val :: u64

datatype check_err =
    Length_not_multiple_of_8
  | Outside_stack_frame nat
  | Outside_ivars nat
  | Unverifiable_base nat
  | Local_call nat
  | Disallowed_helper nat
  | Addressing_mode nat
  | Unsupported_ld nat
  | Backward_branch nat
  | Unknown_alu nat
  | Outside_subset nat

definition check_addr :: "regv \<Rightarrow> u16 \<Rightarrow> nat \<Rightarrow> check_err option" where
  "check_addr base off i =
     (if rv_known base = 2 then
        (if sint off < - AMP_STACK_BYTES \<or> sint off \<ge> 0 then Some (Outside_stack_frame i) else None)
      else if rv_known base = 1 then
        (let addr = rv_val base + scast off in
         if addr \<ge> AMP_IVARS_BASE \<and> addr < AMP_IVARS_BASE + AMP_IVARS_SIZE then None
         else Some (Outside_ivars i))
      else Some (Unverifiable_base i))"

text \<open>The fields of the instruction in slot \<open>i\<close>.\<close>

record insn =
  ins_op :: u8
  ins_dst :: nat
  ins_src :: nat
  ins_off :: u16
  ins_imm :: u32

definition le16 :: "u8 \<Rightarrow> u8 \<Rightarrow> u16" where
  "le16 a b = ucast a OR push_bit 8 (ucast b)"

definition le32 :: "u8 \<Rightarrow> u8 \<Rightarrow> u8 \<Rightarrow> u8 \<Rightarrow> u32" where
  "le32 a b c d = ucast a OR push_bit 8 (ucast b) OR push_bit 16 (ucast c) OR push_bit 24 (ucast d)"

definition fetch :: "bytes \<Rightarrow> nat \<Rightarrow> insn" where
  "fetch text i = (let p = i * 8 in
     \<lparr> ins_op = text ! p,
       ins_dst = unat (text ! (p + 1) AND 0xf),
       ins_src = unat (drop_bit 4 (text ! (p + 1)) AND 0xf),
       ins_off = le16 (text ! (p + 2)) (text ! (p + 3)),
       ins_imm = le32 (text ! (p + 4)) (text ! (p + 5)) (text ! (p + 6)) (text ! (p + 7)) \<rparr>)"

text \<open>The upper half of a 64-bit immediate: the immediate field of the next slot, if there is one.\<close>

definition fetch_hi :: "bytes \<Rightarrow> nat \<Rightarrow> nat \<Rightarrow> u32" where
  "fetch_hi text n i = (if i + 1 < n then ins_imm (fetch text (i + 1)) else 0)"

definition ins_cls :: "insn \<Rightarrow> u8" where "ins_cls ins = ins_op ins AND 0x07"
definition ins_mode :: "insn \<Rightarrow> u8" where "ins_mode ins = ins_op ins AND 0xe0"

definition lddw_value :: "u32 \<Rightarrow> u32 \<Rightarrow> u64" where
  "lddw_value lo hi = ucast lo OR push_bit 32 (ucast hi)"

definition set_reg :: "regv list \<Rightarrow> nat \<Rightarrow> regv \<Rightarrow> regv list" where
  "set_reg reg d v = (if d < 11 then reg[d := v] else reg)"

definition forget_reg :: "regv list \<Rightarrow> nat \<Rightarrow> regv list" where
  "forget_reg reg d = (if d < 11 then reg[d := (reg ! d) \<lparr> rv_known := 0 \<rparr>] else reg)"

definition reg_at :: "(nat \<Rightarrow> nat \<Rightarrow> regv) \<Rightarrow> nat \<Rightarrow> regv list \<Rightarrow> nat \<Rightarrow> regv" where
  "reg_at oob i reg r = (if r < 11 then reg ! r else oob i r)"

text \<open>One iteration of the walk: whether a second slot is skipped, the registers after, and the
  cost charged.\<close>

definition check_insn :: "(nat \<Rightarrow> nat \<Rightarrow> regv) \<Rightarrow> insn \<Rightarrow> u32 \<Rightarrow> nat \<Rightarrow> regv list \<Rightarrow> check_err + (bool \<times> regv list \<times> u32)" where
  "check_insn oob ins hi i reg =
     (if ins_op ins = 0x18 then
        Inr (True, set_reg reg (ins_dst ins) \<lparr> rv_known = 1, rv_val = lddw_value (ins_imm ins) hi \<rparr>, COST_LDDW)
      else if ins_op ins = 0x85 then
        (if ins_src ins = 1 then Inl (Local_call i)
         else if \<not> amp_helper_allowed (ins_imm ins) then Inl (Disallowed_helper i)
         else Inr (False, fold (\<lambda>r reg. forget_reg reg r) [0..<6] reg, amp_helper_cost (ins_imm ins)))
      else if ins_op ins = 0x95 then Inr (False, reg, 0)
      else if ins_cls ins \<in> {0, 1, 2, 3} then
        (if ins_mode ins \<noteq> 0x60 then Inl (Addressing_mode i)
         else if ins_cls ins = 1 then
           (case check_addr (reg_at oob i reg (ins_src ins)) (ins_off ins) i of
              Some e \<Rightarrow> Inl e
            | None \<Rightarrow> Inr (False, forget_reg reg (ins_dst ins), COST_MEM))
         else if ins_cls ins = 2 \<or> ins_cls ins = 3 then
           (case check_addr (reg_at oob i reg (ins_dst ins)) (ins_off ins) i of
              Some e \<Rightarrow> Inl e
            | None \<Rightarrow> Inr (False, reg, COST_MEM))
         else Inl (Unsupported_ld i))
      else if ins_op ins = 0xb7 \<or> ins_op ins = 0xb4 then
        Inr (False, set_reg reg (ins_dst ins)
          \<lparr> rv_known = 1, rv_val = (if ins_op ins = 0xb7 then scast (ins_imm ins) else ucast (ins_imm ins)) \<rparr>, COST_ALU)
      else if ins_op ins = 0xbf \<or> ins_op ins = 0xbc then
        Inr (False, set_reg reg (ins_dst ins) (reg_at oob i reg (ins_src ins)), COST_ALU)
      else if (ins_op ins = 0x07 \<or> ins_op ins = 0x04) \<and> ins_dst ins < 11 \<and> rv_known (reg ! ins_dst ins) = 1 then
        Inr (False, reg[ins_dst ins := (reg ! ins_dst ins) \<lparr> rv_val := rv_val (reg ! ins_dst ins) + scast (ins_imm ins) \<rparr>], COST_ALU)
      else if ins_cls ins = 5 \<or> ins_cls ins = 6 then
        (if sint (ins_off ins) < 0 then Inl (Backward_branch i) else Inr (False, reg, COST_BRANCH))
      else if ins_cls ins = 4 \<or> ins_cls ins = 7 then
        (if ins_op ins AND 0xf0 > 0xd0 then Inl (Unknown_alu i)
         else Inr (False, forget_reg reg (ins_dst ins), COST_ALU))
      else Inl (Outside_subset i))"

definition next_slot :: "bool \<Rightarrow> nat \<Rightarrow> nat" where
  "next_slot two i = (if two then i + 2 else i + 1)"

function check_walk :: "(nat \<Rightarrow> nat \<Rightarrow> regv) \<Rightarrow> bytes \<Rightarrow> nat \<Rightarrow> nat \<Rightarrow> regv list \<Rightarrow> u32 \<Rightarrow> check_err + u32" where
  "check_walk oob text n i reg cost =
     (if i < n then
        (case check_insn oob (fetch text i) (fetch_hi text n i) i reg of
           Inl e \<Rightarrow> Inl e
         | Inr (two, reg', c) \<Rightarrow> check_walk oob text n (next_slot two i) reg' (cost + c))
      else Inr cost)"
  by pat_completeness auto
termination
  by (relation "measure (\<lambda>(oob, text, n, i, reg, cost). n - i)") (auto simp: next_slot_def)

definition reg_init :: "regv list" where
  "reg_init = (replicate 11 \<lparr> rv_known = 0, rv_val = 0 \<rparr>)[10 := \<lparr> rv_known = 2, rv_val = 0 \<rparr>]"

definition amp_check_text :: "(nat \<Rightarrow> nat \<Rightarrow> regv) \<Rightarrow> bytes \<Rightarrow> check_err + u32" where
  "amp_check_text oob text =
     (if length text mod 8 \<noteq> 0 then Inl Length_not_multiple_of_8
      else check_walk oob text (length text div 8) 0 reg_init 0)"

declare check_walk.simps [simp del]

text \<open>The command line: \<open>main\<close> after the section has been read.  The exit code is 0 for accepted,
  1 for rejected; a negative \<open>max_cost\<close> means no ceiling.\<close>

definition amp_check_main :: "(nat \<Rightarrow> nat \<Rightarrow> regv) \<Rightarrow> bytes \<Rightarrow> int \<Rightarrow> bool \<Rightarrow> nat" where
  "amp_check_main oob text max_cost cost_only =
     (case amp_check_text oob text of
        Inl e \<Rightarrow> 1
      | Inr cost \<Rightarrow>
          if cost_only then 0
          else if max_cost \<ge> 0 \<and> int (unat cost) > max_cost then 1 else 0)"

end
