(* ===== verification/Amp_Check_Sound.thy ===== *)
theory Amp_Check_Sound
  imports Amp_Check
begin

text \<open>
  What acceptance by \<open>amp_check_text\<close> guarantees about execution, and what it does not.

  A machine state is an instruction slot and a register file.  The register effect of an
  instruction is the argument \<open>ex\<close>; \<open>isa_regs_ok ex\<close> collects what the eBPF instruction-set
  document says of the opcodes the checker interprets.  Branches may go either way.
\<close>

subsection \<open>Execution\<close>

type_synonym regs = "nat \<Rightarrow> u64"

definition isa_regs_ok :: "(insn \<Rightarrow> u32 \<Rightarrow> regs \<Rightarrow> regs) \<Rightarrow> bool" where
  "isa_regs_ok ex \<longleftrightarrow> (\<forall>ins hi \<rho>.
     (ins_op ins = 0x18 \<longrightarrow> ex ins hi \<rho> = \<rho>(ins_dst ins := lddw_value (ins_imm ins) hi))
   \<and> (ins_op ins = 0xb7 \<longrightarrow> ex ins hi \<rho> = \<rho>(ins_dst ins := scast (ins_imm ins)))
   \<and> (ins_op ins = 0xb4 \<longrightarrow> ex ins hi \<rho> = \<rho>(ins_dst ins := ucast (ins_imm ins)))
   \<and> (ins_op ins = 0xbf \<and> ins_off ins = 0 \<longrightarrow> ex ins hi \<rho> = \<rho>(ins_dst ins := \<rho> (ins_src ins)))
   \<and> (ins_op ins = 0x07 \<longrightarrow> ex ins hi \<rho> = \<rho>(ins_dst ins := \<rho> (ins_dst ins) + scast (ins_imm ins)))
   \<and> (ins_op ins = 0x85 \<longrightarrow> (\<forall>r\<ge>6. ex ins hi \<rho> r = \<rho> r))
   \<and> (ins_cls ins \<in> {1, 4, 7} \<longrightarrow> (\<forall>r. r \<noteq> ins_dst ins \<longrightarrow> ex ins hi \<rho> r = \<rho> r))
   \<and> (ins_cls ins \<in> {2, 3} \<longrightarrow> ex ins hi \<rho> = \<rho>))"

definition is_branch :: "insn \<Rightarrow> bool" where
  "is_branch ins \<longleftrightarrow> ins_cls ins \<in> {5, 6} \<and> ins_op ins \<notin> {0x85, 0x95}"

definition branch_target :: "insn \<Rightarrow> nat \<Rightarrow> nat" where
  "branch_target ins i = nat (int i + 1 + sint (ins_off ins))"

definition n_slots :: "bytes \<Rightarrow> nat" where
  "n_slots prog = length prog div 8"

inductive bpf_step :: "(insn \<Rightarrow> u32 \<Rightarrow> regs \<Rightarrow> regs) \<Rightarrow> bytes \<Rightarrow> nat \<times> regs \<Rightarrow> nat \<times> regs \<Rightarrow> bool"
  for ex :: "insn \<Rightarrow> u32 \<Rightarrow> regs \<Rightarrow> regs" and prog :: bytes where
  step_seq: "i < n_slots prog \<Longrightarrow> ins = fetch prog i \<Longrightarrow> \<not> is_branch ins \<Longrightarrow> ins_op ins \<noteq> 0x95 \<Longrightarrow>
     bpf_step ex prog (i, \<rho>) (next_slot (ins_op ins = 0x18) i, ex ins (fetch_hi prog (n_slots prog) i) \<rho>)"
| step_fall: "i < n_slots prog \<Longrightarrow> is_branch (fetch prog i) \<Longrightarrow> bpf_step ex prog (i, \<rho>) (i + 1, \<rho>)"
| step_jump: "i < n_slots prog \<Longrightarrow> is_branch (fetch prog i) \<Longrightarrow>
     bpf_step ex prog (i, \<rho>) (branch_target (fetch prog i) i, \<rho>)"

inductive bpf_reach :: "(insn \<Rightarrow> u32 \<Rightarrow> regs \<Rightarrow> regs) \<Rightarrow> bytes \<Rightarrow> regs \<Rightarrow> nat \<times> regs \<Rightarrow> bool"
  for ex :: "insn \<Rightarrow> u32 \<Rightarrow> regs \<Rightarrow> regs" and prog :: bytes and \<rho>0 :: regs where
  bpf_start: "bpf_reach ex prog \<rho>0 (0, \<rho>0)"
| bpf_next: "bpf_reach ex prog \<rho>0 s \<Longrightarrow> bpf_step ex prog s s' \<Longrightarrow> bpf_reach ex prog \<rho>0 s'"

text \<open>The slots executed along a run.\<close>

inductive bpf_run :: "(insn \<Rightarrow> u32 \<Rightarrow> regs \<Rightarrow> regs) \<Rightarrow> bytes \<Rightarrow> nat \<times> regs \<Rightarrow> nat list \<Rightarrow> bool"
  for ex :: "insn \<Rightarrow> u32 \<Rightarrow> regs \<Rightarrow> regs" and prog :: bytes where
  run_nil: "bpf_run ex prog s []"
| run_cons: "bpf_step ex prog (i, \<rho>) s' \<Longrightarrow> bpf_run ex prog s' is \<Longrightarrow> bpf_run ex prog (i, \<rho>) (i # is)"

inductive_cases bpf_run_consE: "bpf_run ex prog s (i # is)"

text \<open>The address an instruction accesses, and where accesses may go.\<close>

definition mem_addr :: "insn \<Rightarrow> regs \<Rightarrow> u64 option" where
  "mem_addr ins \<rho> =
     (if ins_cls ins = 1 then Some (\<rho> (ins_src ins) + scast (ins_off ins))
      else if ins_cls ins \<in> {2, 3} then Some (\<rho> (ins_dst ins) + scast (ins_off ins))
      else None)"

definition access_width :: "insn \<Rightarrow> nat" where
  "access_width ins =
     (if ins_op ins AND 0x18 = 0x00 then 4 else if ins_op ins AND 0x18 = 0x08 then 2
      else if ins_op ins AND 0x18 = 0x10 then 1 else 8)"

definition in_ivars :: "u64 \<Rightarrow> bool" where
  "in_ivars a \<longleftrightarrow> AMP_IVARS_BASE \<le> a \<and> a < AMP_IVARS_BASE + AMP_IVARS_SIZE"

definition in_frame :: "u64 \<Rightarrow> u64 \<Rightarrow> bool" where
  "in_frame fp a \<longleftrightarrow> 0 < fp - a \<and> fp - a \<le> 512"

subsection \<open>The conditions under which the walk is sound\<close>

text \<open>
  Instructions whose tracked effect agrees with the instruction set: no 32-bit register move and
  no 32-bit add on a tracked constant (the walk keeps all 64 bits), no sign-extending move, and
  in the jump classes only the branches that use the 16-bit offset; and register numbers 0 to 10 only.
\<close>

definition offset_branch :: "insn \<Rightarrow> bool" where
  "offset_branch ins \<longleftrightarrow> ins_op ins \<noteq> 0x06 \<and> (ins_op ins AND 0xf0 < 0x80 \<or> ins_op ins AND 0xf0 \<in> {0xa0, 0xb0, 0xc0, 0xd0})"

definition isa_subset :: "insn \<Rightarrow> bool" where
  "isa_subset ins \<longleftrightarrow> ins_op ins \<noteq> 0xbc \<and> ins_op ins \<noteq> 0x04 \<and> (ins_op ins = 0xbf \<longrightarrow> ins_off ins = 0)
     \<and> (is_branch ins \<longrightarrow> offset_branch ins) \<and> ins_dst ins < 11 \<and> ins_src ins < 11"

function check_trace :: "(nat \<Rightarrow> nat \<Rightarrow> regv) \<Rightarrow> bytes \<Rightarrow> nat \<Rightarrow> nat \<Rightarrow> regv list \<Rightarrow> (nat \<times> regv list) list" where
  "check_trace oob prog n i reg =
     (if i < n then (i, reg) #
        (case check_insn oob (fetch prog i) (fetch_hi prog n i) i reg of
           Inl e \<Rightarrow> []
         | Inr (two, reg', c) \<Rightarrow> check_trace oob prog n (next_slot two i) reg')
      else [])"
  by pat_completeness auto
termination
  by (relation "measure (\<lambda>(oob, prog, n, i, reg). n - i)") (auto simp: next_slot_def)

declare check_trace.simps [simp del]

definition walk_trace :: "(nat \<Rightarrow> nat \<Rightarrow> regv) \<Rightarrow> bytes \<Rightarrow> (nat \<times> regv list) list" where
  "walk_trace oob prog = check_trace oob prog (n_slots prog) 0 reg_init"

definition regv_le :: "regv \<Rightarrow> regv \<Rightarrow> bool" where
  "regv_le a b \<longleftrightarrow> rv_known a = 0 \<or> (rv_known a = rv_known b \<and> (rv_known a = 1 \<longrightarrow> rv_val a = rv_val b))"

text \<open>Every branch lands on a slot the walk visited, with no more knowledge than at the branch.\<close>

definition join_stable :: "(nat \<Rightarrow> nat \<Rightarrow> regv) \<Rightarrow> bytes \<Rightarrow> bool" where
  "join_stable oob prog \<longleftrightarrow> list_all (\<lambda>(i, reg). is_branch (fetch prog i) \<longrightarrow>
     list_ex (\<lambda>(t, reg'). t = branch_target (fetch prog i) i \<and> list_all2 regv_le reg' reg) (walk_trace oob prog))
     (walk_trace oob prog)"

definition all_subset :: "(nat \<Rightarrow> nat \<Rightarrow> regv) \<Rightarrow> bytes \<Rightarrow> bool" where
  "all_subset oob prog \<longleftrightarrow> list_all (\<lambda>(i, reg). isa_subset (fetch prog i)) (walk_trace oob prog)"

text \<open>The condition on the control flow alone: every branch uses the 16-bit offset, and lands on a slot the
  walk visited (not on the second slot of a 64-bit load) or past the end.\<close>

definition jumps_checked :: "(nat \<Rightarrow> nat \<Rightarrow> regv) \<Rightarrow> bytes \<Rightarrow> bool" where
  "jumps_checked oob prog \<longleftrightarrow> list_all (\<lambda>(i, reg). is_branch (fetch prog i) \<longrightarrow> offset_branch (fetch prog i)
     \<and> (branch_target (fetch prog i) i \<ge> n_slots prog
        \<or> list_ex (\<lambda>(t, reg'). t = branch_target (fetch prog i) i) (walk_trace oob prog)))
     (walk_trace oob prog)"

definition insn_weight :: "insn \<Rightarrow> nat" where
  "insn_weight ins =
     (if ins_op ins = 0x18 then 2 else if ins_op ins = 0x85 then unat (amp_helper_cost (ins_imm ins))
      else if ins_op ins = 0x95 then 0 else if ins_cls ins \<in> {1, 2, 3} then 4
      else if ins_cls ins \<in> {5, 6} then 2 else 1)"

subsection \<open>Facts about the walk\<close>

lemma neg_off_bounds:
  assumes "- 512 \<le> sint (off :: u16)" "sint off < 0"
  shows "0 < (- scast off :: u64)" and "(- scast off :: u64) \<le> 512"
proof -
  define k where "k = - sint off"
  have k: "0 < k" "k \<le> 512" using assms by (simp_all add: k_def)
  have e: "- scast off = (word_of_int k :: u64)" by (simp add: k_def)
  have "uint (word_of_int k :: u64) = k"
    using k by (simp add: uint_word_of_int take_bit_int_eq_self)
  then show "0 < (- scast off :: u64)" "(- scast off :: u64) \<le> 512"
    using k unfolding e by (simp_all add: word_less_def word_le_def)
qed

lemma in_frame_off: "- 512 \<le> sint (off :: u16) \<Longrightarrow> sint off < 0 \<Longrightarrow> in_frame fp (fp + scast off)"
  using neg_off_bounds [of off] by (simp add: in_frame_def)

text \<open>An aligned access that starts inside a region lies inside it: both bounds of both regions are
  multiples of 8.\<close>

lemma width_dvd_8: "access_width ins dvd 8" "0 < access_width ins" "access_width ins \<le> 8"
  by (auto simp: access_width_def)

lemma ivars_aligned:
  assumes "in_ivars a" "w dvd unat a" "w dvd 8" "k < w"
  shows "in_ivars (a + of_nat k)"
proof -
  have a: "0x2003FF00 \<le> unat a" "unat a < 0x20040000"
    using assms(1) by (simp_all add: in_ivars_def amp_const_defs word_le_nat_alt word_less_nat_alt)
  have "(8 :: nat) dvd 0x20040000" by simp
  from dvd_trans [OF assms(3) this] have "w dvd 0x20040000 - unat a" using assms(2) by (rule dvd_diff_nat)
  then have "w \<le> 0x20040000 - unat a" using a by (intro dvd_imp_le) simp_all
  then have k: "unat a + k < 0x20040000" using assms(4) by linarith
  then have "unat (a + of_nat k) = unat a + k" by (simp add: unat_word_ariths unat_of_nat)
  then show ?thesis
    using a k by (simp add: in_ivars_def amp_const_defs word_le_nat_alt word_less_nat_alt)
qed

lemma frame_aligned:
  assumes "in_frame fp a" "w dvd unat a" "w dvd 8" "8 dvd unat fp" "k < w"
  shows "in_frame fp (a + of_nat k)"
proof -
  define d where "d = fp - a"
  have d: "0 < unat d" "unat d \<le> 512"
    using assms(1) by (simp_all add: in_frame_def d_def word_le_nat_alt word_less_nat_alt)
  have "(8 :: nat) dvd 2 ^ 64" by simp
  from dvd_trans [OF assms(3) this] have w64: "int w dvd int (2 ^ 64)" by (simp only: int_dvd_int_iff)
  have "int w dvd int (unat fp) - int (unat a)"
    using dvd_trans [OF assms(3,4)] assms(2) by (intro dvd_diff) (simp_all only: int_dvd_int_iff)
  then have "int w dvd (uint fp - uint a) mod 2 ^ 64" using w64 by (intro dvd_mod) simp_all
  then have "int w dvd int (unat d)" by (simp add: d_def uint_word_ariths)
  then have "w dvd unat d" by (simp only: int_dvd_int_iff)
  then have "w \<le> unat d" using d by (intro dvd_imp_le)
  then have "unat (d - of_nat k) = unat d - k" using assms(5) d
    by (subst unat_sub) (simp_all add: word_le_nat_alt unat_of_nat)
  moreover have "fp - (a + of_nat k) = d - of_nat k" by (simp add: d_def)
  ultimately have "unat (fp - (a + of_nat k)) = unat d - k" by (simp only:)
  then show ?thesis
    using d assms(5) \<open>w \<le> unat d\<close> by (simp add: in_frame_def word_le_nat_alt word_less_nat_alt)
qed

definition regv_ok :: "u64 \<Rightarrow> regv \<Rightarrow> u64 \<Rightarrow> bool" where
  "regv_ok fp r v \<longleftrightarrow> (rv_known r = 1 \<longrightarrow> v = rv_val r) \<and> (rv_known r = 2 \<longrightarrow> v = fp)"

definition regs_ok :: "u64 \<Rightarrow> regv list \<Rightarrow> regs \<Rightarrow> bool" where
  "regs_ok fp reg \<rho> \<longleftrightarrow> length reg = 11 \<and> (\<forall>r<11. regv_ok fp (reg ! r) (\<rho> r))"

lemma check_addr_sound:
  assumes "check_addr b off i = None" "regv_ok fp b v"
  shows "in_ivars (v + scast off) \<or> in_frame fp (v + scast off)"
  using assms in_frame_off [of off fp]
  by (auto simp: check_addr_def regv_ok_def in_ivars_def AMP_STACK_BYTES_def Let_def split: if_splits)

lemma regs_ok_init: "regs_ok (\<rho> 10) reg_init \<rho>"
proof -
  have "r < 11 \<Longrightarrow> regv_ok (\<rho> 10) (reg_init ! r) (\<rho> r)" for r
    by (cases "r = 10") (auto simp: reg_init_def regv_ok_def)
  then show ?thesis by (simp add: regs_ok_def reg_init_def)
qed

lemma regs_ok_le:
  assumes "regs_ok fp reg \<rho>" "list_all2 regv_le reg' reg"
  shows "regs_ok fp reg' \<rho>"
  using assms by (auto simp: regs_ok_def list_all2_conv_all_nth regv_le_def regv_ok_def)

lemma regs_ok_set: "regs_ok fp reg \<rho> \<Longrightarrow> regv_ok fp v w \<Longrightarrow> regs_ok fp (set_reg reg d v) (\<rho>(d := w))"
  by (auto simp: regs_ok_def set_reg_def nth_list_update)

lemma regs_ok_forget:
  assumes "regs_ok fp reg \<rho>" "\<And>r. r \<noteq> d \<Longrightarrow> \<rho>' r = \<rho> r"
  shows "regs_ok fp (forget_reg reg d) \<rho>'"
  using assms by (auto simp: regs_ok_def forget_reg_def nth_list_update regv_ok_def)

lemma fold_forget:
  assumes "length reg = 11" "m \<le> 11"
  shows "length (fold (\<lambda>r reg. forget_reg reg r) [0..<m] reg) = 11 \<and>
    (\<forall>r<11. fold (\<lambda>r reg. forget_reg reg r) [0..<m] reg ! r
       = (if r < m then (reg ! r) \<lparr> rv_known := 0 \<rparr> else reg ! r))"
  using assms(2)
proof (induction m)
  case (Suc m)
  then show ?case by (auto simp: forget_reg_def nth_list_update less_Suc_eq)
qed (simp add: assms(1))

lemma regs_ok_call:
  assumes "regs_ok fp reg \<rho>" "\<And>r. 6 \<le> r \<Longrightarrow> \<rho>' r = \<rho> r"
  shows "regs_ok fp (fold (\<lambda>r reg. forget_reg reg r) [0..<6] reg) \<rho>'"
  using assms fold_forget [of reg 6] by (auto simp: regs_ok_def regv_ok_def)

text \<open>The register tracking is a sound abstraction of the machine, instruction by instruction.\<close>

lemma check_insn_sound:
  assumes c: "check_insn oob ins hi i reg = Inr (two, reg', ch)"
    and s: "isa_subset ins" "\<not> is_branch ins" "ins_op ins \<noteq> 0x95" and x: "isa_regs_ok ex"
    and r: "regs_ok fp reg \<rho>"
  shows "regs_ok fp reg' (ex ins hi \<rho>) \<and> two = (ins_op ins = 0x18)"
proof -
  note X = x [unfolded isa_regs_ok_def, rule_format, of ins hi \<rho>]
  have cl: "ins_op ins = 0x07 \<Longrightarrow> ins_cls ins = 7" by (simp add: ins_cls_def)
  consider "ins_op ins = 0x18" | "ins_op ins = 0x85" | "ins_op ins = 0xb7" | "ins_op ins = 0xb4"
    | "ins_op ins = 0xbf" | "ins_op ins = 0x07" "ins_dst ins < 11" "rv_known (reg ! ins_dst ins) = 1"
    | "ins_op ins \<notin> {0x18, 0x85, 0x95, 0xb7, 0xb4, 0xbf, 0xbc}"
      "\<not> (ins_op ins = 0x07 \<and> ins_dst ins < 11 \<and> rv_known (reg ! ins_dst ins) = 1)"
    using s by (auto simp: isa_subset_def)
  then show ?thesis
  proof cases
    case 1
    then show ?thesis using c X r by (auto simp: check_insn_def regv_ok_def intro!: regs_ok_set)
  next
    case 2
    then show ?thesis using c X r by (auto simp: check_insn_def split: if_splits intro!: regs_ok_call)
  next
    case 3
    then show ?thesis using c X r
      by (auto simp: check_insn_def ins_cls_def regv_ok_def intro!: regs_ok_set)
  next
    case 4
    then show ?thesis using c X r
      by (auto simp: check_insn_def ins_cls_def regv_ok_def intro!: regs_ok_set)
  next
    case 5
    then show ?thesis using c X r s(1)
      by (auto simp: check_insn_def ins_cls_def isa_subset_def regs_ok_def set_reg_def reg_at_def nth_list_update
          split: if_splits)
  next
    case 6
    then show ?thesis using c X r
      by (auto simp: check_insn_def ins_cls_def regs_ok_def regv_ok_def nth_list_update)
  next
    case 7
    then have nb: "ins_cls ins \<noteq> 5" "ins_cls ins \<noteq> 6" using s by (auto simp: is_branch_def)
    have n4: "ins_op ins \<noteq> 0x04" using s by (simp add: isa_subset_def)
    show ?thesis using 7 c X r nb n4
      by (auto simp: check_insn_def intro!: regs_ok_forget split: if_splits option.splits)
  qed
qed

lemma check_insn_branch:
  assumes "check_insn oob ins hi i reg = Inr (two, reg', ch)" "is_branch ins"
  shows "reg' = reg \<and> \<not> two \<and> 0 \<le> sint (ins_off ins)"
proof -
  have "ins_op ins \<notin> {0x18, 0x85, 0x95, 0xb7, 0xb4, 0xbf, 0xbc, 0x07, 0x04}"
    using assms(2) by (auto simp: is_branch_def ins_cls_def)
  then show ?thesis using assms by (auto simp: check_insn_def is_branch_def split: if_splits)
qed

lemma check_insn_two: "check_insn oob ins hi i reg = Inr (two, reg', ch) \<Longrightarrow> two = (ins_op ins = 0x18)"
  by (auto simp: check_insn_def split: if_splits option.splits)

lemma check_insn_weight:
  assumes "check_insn oob ins hi i reg = Inr (two, reg', ch)"
  shows "unat ch = insn_weight ins" and "insn_weight ins \<le> 60"
proof -
  have "ins_op ins = 0xb7 \<Longrightarrow> ins_cls ins = 7" "ins_op ins = 0xb4 \<Longrightarrow> ins_cls ins = 4"
    "ins_op ins = 0xbf \<Longrightarrow> ins_cls ins = 7" "ins_op ins = 0xbc \<Longrightarrow> ins_cls ins = 4"
    "ins_op ins = 0x07 \<Longrightarrow> ins_cls ins = 7" "ins_op ins = 0x04 \<Longrightarrow> ins_cls ins = 4"
    by (simp_all add: ins_cls_def)
  then show "unat ch = insn_weight ins"
    using assms by (auto simp: check_insn_def insn_weight_def amp_const_defs split: if_splits option.splits)
  show "insn_weight ins \<le> 60"
    by (auto simp: insn_weight_def amp_helper_cost_def)
qed

lemma check_insn_call:
  assumes "check_insn oob ins hi i reg = Inr r" "ins_op ins = 0x85"
  shows "amp_helper_allowed (ins_imm ins) \<and> ins_src ins \<noteq> 1"
  using assms by (auto simp: check_insn_def split: if_splits)

lemma check_insn_mem:
  assumes c: "check_insn oob ins hi i reg = Inr r" and s: "isa_subset ins" and a: "mem_addr ins \<rho> = Some addr" and r: "regs_ok fp reg \<rho>"
  shows "in_ivars addr \<or> in_frame fp addr"
proof -
  have n: "ins_op ins \<notin> {0x18, 0x85, 0x95, 0xb7, 0xb4, 0xbf, 0xbc, 0x07, 0x04}"
    using a by (auto simp: mem_addr_def ins_cls_def split: if_splits)
  consider "ins_cls ins = 1" | "ins_cls ins = 2 \<or> ins_cls ins = 3"
    using a by (auto simp: mem_addr_def split: if_splits)
  then show ?thesis
  proof cases
    case 1
    have "ins_src ins < 11" using s by (simp add: isa_subset_def)
    moreover from this 1 have "check_addr (reg ! ins_src ins) (ins_off ins) i = None"
      using c n by (auto simp: check_insn_def reg_at_def split: if_splits option.splits)
    ultimately show ?thesis using check_addr_sound [of "reg ! ins_src ins" "ins_off ins" i fp "\<rho> (ins_src ins)"] a r 1
      by (auto simp: mem_addr_def regs_ok_def)
  next
    case 2
    have "ins_dst ins < 11" using s by (simp add: isa_subset_def)
    moreover from this 2 have "check_addr (reg ! ins_dst ins) (ins_off ins) i = None"
      using c n by (auto simp: check_insn_def reg_at_def split: if_splits option.splits)
    ultimately show ?thesis using check_addr_sound [of "reg ! ins_dst ins" "ins_off ins" i fp "\<rho> (ins_dst ins)"] a r 2
      by (auto simp: mem_addr_def regs_ok_def)
  qed
qed

lemma trace_hd: "i < n \<Longrightarrow> (i, reg) \<in> set (check_trace oob prog n i reg)"
  by (subst check_trace.simps) simp

lemma trace_end: "\<not> i < n \<Longrightarrow> check_trace oob prog n i reg = []"
  by (subst check_trace.simps) simp

lemma trace_cons:
  assumes "i < n" "check_insn oob (fetch prog i) (fetch_hi prog n i) i reg = Inr (two, reg', ch)"
  shows "check_trace oob prog n i reg = (i, reg) # check_trace oob prog n (next_slot two i) reg'"
  by (subst check_trace.simps) (simp add: assms)

lemma walk_cons:
  assumes "i < n" "check_walk oob prog n i reg cost = Inr c"
  obtains two reg' ch where "check_insn oob (fetch prog i) (fetch_hi prog n i) i reg = Inr (two, reg', ch)"
    and "check_walk oob prog n (next_slot two i) reg' (cost + ch) = Inr c"
  using assms by (subst (asm) check_walk.simps) (auto split: sum.splits)

text \<open>Every slot of the trace of an accepted walk was checked, and its successor is in the trace.\<close>

lemma trace_slot:
  assumes "check_walk oob prog n i reg cost = Inr c" "(j, r) \<in> set (check_trace oob prog n i reg)"
  shows "i \<le> j \<and> j < n \<and> (\<exists>two r' ch. check_insn oob (fetch prog j) (fetch_hi prog n j) j r = Inr (two, r', ch)
     \<and> (next_slot two j < n \<longrightarrow> (next_slot two j, r') \<in> set (check_trace oob prog n i reg)))"
  using assms
proof (induction oob prog n i reg cost rule: check_walk.induct)
  case (1 oob prog n i reg cost)
  have i: "i < n" using "1.prems"(2) trace_end [of i n oob prog reg] by fastforce
  then obtain two reg' ch where ci: "check_insn oob (fetch prog i) (fetch_hi prog n i) i reg = Inr (two, reg', ch)"
    and cw: "check_walk oob prog n (next_slot two i) reg' (cost + ch) = Inr c"
    using "1.prems"(1) by (rule walk_cons)
  note tr = trace_cons [OF i ci]
  have hd: "next_slot two i < n \<Longrightarrow> (next_slot two i, reg') \<in> set (check_trace oob prog n (next_slot two i) reg')"
    by (rule trace_hd)
  have ge: "i \<le> next_slot two i" by (simp add: next_slot_def)
  consider "j = i" "r = reg" | "(j, r) \<in> set (check_trace oob prog n (next_slot two i) reg')"
    using "1.prems"(2) tr by auto
  then show ?case
  proof cases
    case 1
    then show ?thesis using ci hd i tr by auto
  next
    case 2
    then show ?thesis using "1.IH" [OF i ci refl refl cw 2] ge tr by auto
  qed
qed

lemma trace_sorted:
  "sorted_wrt (<) (map fst (check_trace oob prog n i reg)) \<and> (\<forall>(j, r) \<in> set (check_trace oob prog n i reg). i \<le> j)"
proof (induction oob prog n i reg rule: check_trace.induct)
  case (1 oob prog n i reg)
  show ?case
  proof (cases "i < n")
    case True
    show ?thesis
    proof (cases "check_insn oob (fetch prog i) (fetch_hi prog n i) i reg")
      case (Inl e)
      then show ?thesis by (subst (1 2) check_trace.simps) simp
    next
      case (Inr t)
      obtain two reg' ch where t: "t = (two, reg', ch)" by (cases t)
      have lt: "i < next_slot two i" by (simp add: next_slot_def)
      show ?thesis
        using "1.IH" [OF True Inr [unfolded t] refl refl] trace_cons [OF True Inr [unfolded t]] lt by fastforce
    qed
  qed (simp add: trace_end)
qed

lemma walk_cost:
  assumes "check_walk oob prog n i reg cost = Inr c"
  shows "c = cost + of_nat (\<Sum>(j, r) \<leftarrow> check_trace oob prog n i reg. insn_weight (fetch prog j))"
  using assms
proof (induction oob prog n i reg cost rule: check_walk.induct)
  case (1 oob prog n i reg cost)
  show ?case
  proof (cases "i < n")
    case True
    then obtain two reg' ch where ci: "check_insn oob (fetch prog i) (fetch_hi prog n i) i reg = Inr (two, reg', ch)"
      and cw: "check_walk oob prog n (next_slot two i) reg' (cost + ch) = Inr c"
      using "1.prems" by (rule walk_cons)
    have "ch = of_nat (insn_weight (fetch prog i))" by (simp flip: check_insn_weight(1) [OF ci])
    then show ?thesis using "1.IH" [OF True ci refl refl cw] trace_cons [OF True ci] by simp
  next
    case False
    then show ?thesis using "1.prems" trace_end [of i n oob prog reg] by (subst (asm) check_walk.simps) simp
  qed
qed

subsection \<open>Execution stays on the checked slots\<close>

lemma accepted_walk:
  "amp_check_text oob prog = Inr c \<Longrightarrow> check_walk oob prog (n_slots prog) 0 reg_init 0 = Inr c"
  by (simp add: amp_check_text_def n_slots_def split: if_splits)

lemma trace_succ:
  assumes acc: "amp_check_text oob prog = Inr c" and sub: "all_subset oob prog" and stab: "join_stable oob prog"
    and x: "isa_regs_ok ex" and st: "bpf_step ex prog (i, \<rho>) (i', \<rho>')"
    and m: "(i, reg) \<in> set (walk_trace oob prog)" and r: "regs_ok fp reg \<rho>" and i': "i' < n_slots prog"
  shows "i < i' \<and> (\<exists>reg'. (i', reg') \<in> set (walk_trace oob prog) \<and> regs_ok fp reg' \<rho>')"
proof -
  obtain two reg' ch where ci: "check_insn oob (fetch prog i) (fetch_hi prog (n_slots prog) i) i reg = Inr (two, reg', ch)"
    and nx: "next_slot two i < n_slots prog \<longrightarrow> (next_slot two i, reg') \<in> set (walk_trace oob prog)"
    using trace_slot [OF accepted_walk [OF acc] m [unfolded walk_trace_def]] by (auto simp: walk_trace_def)
  have s: "isa_subset (fetch prog i)" using sub m by (auto simp: all_subset_def list_all_iff)
  from st show ?thesis
  proof cases
    case (step_seq)
    then show ?thesis
      using check_insn_sound [OF ci s _ _ x r] nx i' by (auto simp: next_slot_def)
  next
    case step_fall
    then show ?thesis using check_insn_branch [OF ci] nx i' r by (auto simp: next_slot_def)
  next
    case step_jump
    then obtain t where "(branch_target (fetch prog i) i, t) \<in> set (walk_trace oob prog)" "list_all2 regv_le t reg"
      using stab m by (fastforce simp: join_stable_def list_all_iff list_ex_iff)
    moreover have "i < branch_target (fetch prog i) i"
      using check_insn_branch [OF ci] step_jump by (auto simp: branch_target_def)
    ultimately show ?thesis using step_jump regs_ok_le [OF r] by auto
  qed
qed

lemma bpf_step_slot: "bpf_step ex prog (i, \<rho>) s' \<Longrightarrow> i < n_slots prog"
  by (cases rule: bpf_step.cases) auto

lemma reach_checked:
  assumes acc: "amp_check_text oob prog = Inr c" and sub: "all_subset oob prog" and stab: "join_stable oob prog"
    and x: "isa_regs_ok ex" and "bpf_reach ex prog \<rho>0 s" "fst s < n_slots prog"
  shows "\<exists>reg. (fst s, reg) \<in> set (walk_trace oob prog) \<and> regs_ok (\<rho>0 10) reg (snd s)"
  using assms(5,6)
proof (induction rule: bpf_reach.induct)
  case bpf_start
  then show ?case using trace_hd [of 0 "n_slots prog" reg_init oob prog] regs_ok_init by (auto simp: walk_trace_def)
next
  case (bpf_next s s')
  obtain i \<rho> i' \<rho>' where e: "s = (i, \<rho>)" "s' = (i', \<rho>')" by (cases s, cases s')
  have "i < n_slots prog" using bpf_next.hyps(2) e bpf_step_slot by simp
  then obtain reg where "(i, reg) \<in> set (walk_trace oob prog)" "regs_ok (\<rho>0 10) reg \<rho>"
    using bpf_next.IH e by auto
  then show ?case using trace_succ [OF acc sub stab x] bpf_next.hyps(2) bpf_next.prems e by auto
qed

text \<open>The control flow alone: a step goes forward, to a slot of the walk.\<close>

lemma jumps_checkedD:
  assumes "jumps_checked oob prog" "(i, reg) \<in> set (walk_trace oob prog)" "is_branch (fetch prog i)"
  shows "n_slots prog \<le> branch_target (fetch prog i) i \<or> branch_target (fetch prog i) i \<in> fst ` set (walk_trace oob prog)"
  using assms unfolding jumps_checked_def list_all_iff list_ex_iff by force

lemma slot_succ:
  assumes acc: "amp_check_text oob prog = Inr c" and jc: "jumps_checked oob prog"
    and st: "bpf_step ex prog (i, \<rho>) (i', \<rho>')" and m: "i \<in> fst ` set (walk_trace oob prog)" and i': "i' < n_slots prog"
  shows "i < i' \<and> i' \<in> fst ` set (walk_trace oob prog)"
proof -
  obtain reg where m: "(i, reg) \<in> set (walk_trace oob prog)" using m by force
  obtain two reg' ch where ci: "check_insn oob (fetch prog i) (fetch_hi prog (n_slots prog) i) i reg = Inr (two, reg', ch)"
    and nx: "next_slot two i < n_slots prog \<longrightarrow> (next_slot two i, reg') \<in> set (walk_trace oob prog)"
    using trace_slot [OF accepted_walk [OF acc] m [unfolded walk_trace_def]] by (auto simp: walk_trace_def)
  have lt: "i < next_slot two i" by (simp add: next_slot_def)
  from st show ?thesis
  proof cases
    case step_seq
    then show ?thesis using check_insn_two [OF ci] nx i' lt by force
  next
    case step_fall
    then show ?thesis using check_insn_branch [OF ci] nx i' by (force simp: next_slot_def)
  next
    case step_jump
    then have "branch_target (fetch prog i) i \<in> fst ` set (walk_trace oob prog)"
      using jumps_checkedD [OF jc m] i' by simp
    then show ?thesis using step_jump check_insn_branch [OF ci] by (auto simp: branch_target_def)
  qed
qed

lemma run_increasing:
  assumes acc: "amp_check_text oob prog = Inr c" and jc: "jumps_checked oob prog"
    and "bpf_run ex prog s is" "fst s < n_slots prog \<longrightarrow> fst s \<in> fst ` set (walk_trace oob prog)"
  shows "sorted_wrt (<) is \<and> (\<forall>j\<in>set is. fst s \<le> j \<and> j \<in> fst ` set (walk_trace oob prog))"
  using assms(3,4)
proof (induction rule: bpf_run.induct)
  case (run_cons i \<rho> s' "is")
  have i: "i < n_slots prog" using run_cons.hyps(1) by (rule bpf_step_slot)
  then have m: "i \<in> fst ` set (walk_trace oob prog)" using run_cons.prems by simp
  note su = slot_succ [OF acc jc _ m, of ex \<rho> "fst s'" "snd s'"]
  have IH: "sorted_wrt (<) is" "\<forall>j\<in>set is. fst s' \<le> j \<and> j \<in> fst ` set (walk_trace oob prog)"
    using run_cons.IH run_cons.hyps(1) su by auto
  have "i < fst s'" if "is \<noteq> []"
  proof -
    obtain j where "j \<in> set is" using \<open>is \<noteq> []\<close> by (cases "is") auto
    then have "fst s' \<le> j" "j \<in> fst ` set (walk_trace oob prog)" using IH by auto
    moreover have "j < n_slots prog"
      using calculation(2) trace_slot [OF accepted_walk [OF acc]] by (force simp: walk_trace_def)
    ultimately show ?thesis using su run_cons.hyps(1) by simp
  qed
  then show ?case using IH m by (cases "is") force+
qed simp

lemma run_from_start:
  assumes "amp_check_text oob prog = Inr c" "jumps_checked oob prog" "bpf_run ex prog (0, \<rho>0) is"
  shows "sorted_wrt (<) is" "set is \<subseteq> fst ` set (walk_trace oob prog)"
proof -
  have "0 < n_slots prog \<longrightarrow> 0 \<in> fst ` set (walk_trace oob prog)"
    using trace_hd [of 0 "n_slots prog" reg_init oob prog] by (force simp: walk_trace_def)
  then show "sorted_wrt (<) is" "set is \<subseteq> fst ` set (walk_trace oob prog)"
    using run_increasing [OF assms] by auto
qed

lemma trace_weight_bound: "(\<Sum>(j, r) \<leftarrow> check_trace oob prog n i reg. insn_weight (fetch prog j)) \<le> 60 * (n - i)"
proof (induction oob prog n i reg rule: check_trace.induct)
  case (1 oob prog n i reg)
  show ?case
  proof (cases "i < n")
    case True
    have w: "insn_weight (fetch prog i) \<le> 60" by (auto simp: insn_weight_def amp_helper_cost_def)
    show ?thesis
    proof (cases "check_insn oob (fetch prog i) (fetch_hi prog n i) i reg")
      case (Inl e)
      then show ?thesis using True w by (subst check_trace.simps) simp
    next
      case (Inr t)
      obtain two reg' ch where t: "t = (two, reg', ch)" by (cases t)
      have "n - next_slot two i < n - i" using True by (auto simp: next_slot_def)
      then show ?thesis
        using "1.IH" [OF True Inr [unfolded t] refl refl] trace_cons [OF True Inr [unfolded t]] w by simp
    qed
  qed (simp add: trace_end)
qed

lemma cost_exact:
  assumes "amp_check_text oob prog = Inr c" "60 * n_slots prog < 2 ^ 32"
  shows "unat c = (\<Sum>(j, r) \<leftarrow> walk_trace oob prog. insn_weight (fetch prog j))"
proof -
  let ?S = "\<Sum>(j, r) \<leftarrow> walk_trace oob prog. insn_weight (fetch prog j)"
  have "c = of_nat ?S"
    using walk_cost [OF accepted_walk [OF assms(1)]] by (simp add: walk_trace_def)
  moreover have "?S < 2 ^ 32"
    using trace_weight_bound [of prog oob "n_slots prog" 0 reg_init] assms(2) by (simp add: walk_trace_def)
  ultimately show ?thesis by (simp add: unat_of_nat)
qed

subsection \<open>Properties\<close>

text \<open>A register semantics that satisfies \<open>isa_regs_ok\<close>; what the unconstrained opcodes compute is
  irrelevant to the checker and taken to be 0.\<close>

definition ref_exec :: "insn \<Rightarrow> u32 \<Rightarrow> regs \<Rightarrow> regs" where
  "ref_exec ins hi \<rho> =
     (if ins_op ins = 0x18 then \<rho>(ins_dst ins := lddw_value (ins_imm ins) hi)
      else if ins_op ins = 0xb7 then \<rho>(ins_dst ins := scast (ins_imm ins))
      else if ins_op ins = 0xb4 then \<rho>(ins_dst ins := ucast (ins_imm ins))
      else if ins_op ins = 0xbf then \<rho>(ins_dst ins := \<rho> (ins_src ins))
      else if ins_op ins = 0x07 then \<rho>(ins_dst ins := \<rho> (ins_dst ins) + scast (ins_imm ins))
      else if ins_op ins = 0x85 then (\<lambda>r. if r < 6 then 0 else \<rho> r)
      else if ins_cls ins \<in> {1, 4, 7} then \<rho>(ins_dst ins := 0)
      else \<rho>)"

lemma ref_exec_ok: "isa_regs_ok ref_exec"
  unfolding isa_regs_ok_def by (auto simp: ref_exec_def ins_cls_def)

text \<open>\<open>@count += 1\<close> followed by a conditional \<open>ktime\<close> call.\<close>

definition demo_prog :: bytes where
  "demo_prog =
    [0x18, 0x01, 0, 0, 0x00, 0xFF, 0x03, 0x20,  0, 0, 0, 0, 0, 0, 0, 0,
     0x61, 0x10, 0, 0, 0, 0, 0, 0,              0x07, 0x00, 0, 0, 1, 0, 0, 0,
     0x63, 0x01, 0, 0, 0, 0, 0, 0,              0x15, 0x00, 1, 0, 0, 0, 0, 0,
     0x85, 0x00, 0, 0, 2, 0, 0, 0,              0x95, 0x00, 0, 0, 0, 0, 0, 0]"

lemma demo_prog_accepted: "amp_check_text oob demo_prog = Inr 25"
  by code_simp

lemma demo_prog_conditions: "all_subset oob demo_prog" "join_stable oob demo_prog" "jumps_checked oob demo_prog"
  by code_simp+

lemma demo_step:
  "bpf_step ref_exec demo_prog (0, \<lambda>_. 0x1000) (2, (\<lambda>_. 0x1000)(1 := AMP_IVARS_BASE))"
proof -
  have ns: "next_slot True 0 = 2" by (simp add: next_slot_def)
  have "n_slots demo_prog = 8" "\<not> is_branch (fetch demo_prog 0)" "ins_op (fetch demo_prog 0) = 0x18"
    "ins_dst (fetch demo_prog 0) = 1"
    "lddw_value (ins_imm (fetch demo_prog 0)) (fetch_hi demo_prog 8 0) = AMP_IVARS_BASE"
    by code_simp+
  then show ?thesis
    using step_seq [of 0 demo_prog "fetch demo_prog 0" ref_exec "\<lambda>_. 0x1000"]
    by (simp add: ns ref_exec_def)
qed

lemma demo_bpf_reach: "bpf_reach ref_exec demo_prog (\<lambda>_. 0x1000) (2, (\<lambda>_. 0x1000)(1 := AMP_IVARS_BASE))"
  using bpf_start demo_step by (rule bpf_next)

lemma demo_run: "bpf_run ref_exec demo_prog (0, \<lambda>_. 0x1000) [0]"
  using demo_step run_nil by (rule run_cons)

text \<open>C4: soundness of the checker.  If \<open>amp_check_text\<close> accepts a program whose instructions
  are tracked exactly (\<open>all_subset\<close>) and whose branches do not carry less-known registers into a
  slot walked with more knowledge (\<open>join_stable\<close>), then in every execution, under any register
  semantics that follows the instruction-set document, every load and store starts inside the ivar
  carveout or the 512-byte frame, every access that is aligned to its width lies inside with all its
  bytes (with a frame pointer that is a multiple of 8), and every helper call is on the allowlist.
  Nothing is claimed for the tail of an access that is not aligned; the checker does not look at widths.\<close>

theorem amp_check_sound:
  assumes "amp_check_text oob prog = Inr c" "all_subset oob prog" "join_stable oob prog" "isa_regs_ok ex"
    and "bpf_reach ex prog \<rho>0 (i, \<rho>)" "i < n_slots prog"
  shows "(\<forall>a. mem_addr (fetch prog i) \<rho> = Some a \<longrightarrow>
        (in_ivars a \<or> in_frame (\<rho>0 10) a)
      \<and> (access_width (fetch prog i) dvd unat a \<and> 8 dvd unat (\<rho>0 10) \<longrightarrow>
           (\<forall>k < access_width (fetch prog i). in_ivars (a + of_nat k))
         \<or> (\<forall>k < access_width (fetch prog i). in_frame (\<rho>0 10) (a + of_nat k))))
    \<and> (ins_op (fetch prog i) = 0x85 \<longrightarrow> amp_helper_allowed (ins_imm (fetch prog i)))"
proof -
  obtain reg where m: "(i, reg) \<in> set (walk_trace oob prog)" and r: "regs_ok (\<rho>0 10) reg \<rho>"
    using reach_checked [OF assms(1-5)] assms(6) by auto
  have s: "isa_subset (fetch prog i)" using assms(2) m by (auto simp: all_subset_def list_all_iff)
  obtain t where t: "check_insn oob (fetch prog i) (fetch_hi prog (n_slots prog) i) i reg = Inr t"
    using trace_slot [OF accepted_walk [OF assms(1)] m [unfolded walk_trace_def]] by auto
  show ?thesis
    using check_insn_mem [OF t s _ r] check_insn_call [OF t] width_dvd_8(1) [of "fetch prog i"]
      ivars_aligned [of _ "access_width (fetch prog i)"] frame_aligned [of "\<rho>0 10" _ "access_width (fetch prog i)"]
    by blast
qed

theorem amp_check_sound_witness:
  "mem_addr (fetch demo_prog 2) ((\<lambda>_. 0x1000)(1 := AMP_IVARS_BASE)) = Some AMP_IVARS_BASE
    \<and> access_width (fetch demo_prog 2) = 4
    \<and> ((\<forall>k < 4. in_ivars (AMP_IVARS_BASE + of_nat k)) \<or> (\<forall>k < 4. in_frame 0x1000 (AMP_IVARS_BASE + of_nat k)))"
proof -
  have a: "mem_addr (fetch demo_prog 2) ((\<lambda>_. 0x1000)(1 := AMP_IVARS_BASE)) = Some AMP_IVARS_BASE"
    and w: "access_width (fetch demo_prog 2) = 4" by code_simp+
  have n: "(2 :: nat) < n_slots demo_prog" by code_simp
  have d: "4 dvd unat AMP_IVARS_BASE" "8 dvd unat (0x1000 :: u64)" by (simp_all add: AMP_IVARS_BASE_def)
  show ?thesis
    using amp_check_sound [OF demo_prog_accepted demo_prog_conditions(1,2) ref_exec_ok demo_bpf_reach n] a w d
    by simp
qed

text \<open>C7: bounded execution.  If \<open>amp_check_text\<close> accepts a program all of whose branches use the 16-bit
  offset and land on a slot that the walk visited (not on the second slot of a 64-bit load) or past the
  end, then every run of the program, under any register semantics, executes each slot at most once, so
  it has at most as many steps as the program has slots; it cannot loop.\<close>

theorem amp_check_terminates:
  assumes "amp_check_text oob prog = Inr c" "jumps_checked oob prog" "bpf_run ex prog (0, \<rho>0) is"
  shows "distinct is \<and> length is \<le> n_slots prog"
proof -
  note inc = run_from_start [OF assms]
  then have d: "distinct is" by (simp add: strict_sorted_iff)
  have "set is \<subseteq> {..<n_slots prog}"
    using inc(2) trace_slot [OF accepted_walk [OF assms(1)]] by (force simp: walk_trace_def)
  then have "card (set is) \<le> n_slots prog" using card_mono [of "{..<n_slots prog}" "set is"] by simp
  then show ?thesis using d distinct_card [OF d] by simp
qed

theorem amp_check_terminates_witness: "distinct [0 :: nat] \<and> length [0 :: nat] \<le> n_slots demo_prog"
  by (rule amp_check_terminates [OF demo_prog_accepted demo_prog_conditions(3) demo_run])

text \<open>C18: the static cost is an upper bound.  If \<open>amp_check_text\<close> accepts a program with the branches of
  the previous property and fewer than \<open>2^32 / 60\<close> slots, so that the 32-bit sum does not wrap, then the
  total weight of the instructions executed along any run is at most the cost it reports, and a program
  accepted with \<open>--max-cost N\<close> never spends more than N.\<close>

theorem amp_check_cost_bound:
  assumes "amp_check_text oob prog = Inr c" "jumps_checked oob prog" "bpf_run ex prog (0, \<rho>0) is"
    and "60 * n_slots prog < 2 ^ 32"
  shows "(\<Sum>j \<leftarrow> is. insn_weight (fetch prog j)) \<le> unat c
    \<and> (0 \<le> N \<and> amp_check_main oob prog N False = 0
         \<longrightarrow> int (\<Sum>j \<leftarrow> is. insn_weight (fetch prog j)) \<le> N)"
proof -
  let ?f = "\<lambda>j. insn_weight (fetch prog j)"
  have inc: "sorted_wrt (<) is" "set is \<subseteq> set (map fst (walk_trace oob prog))"
    using run_from_start [OF assms(1-3)] by auto
  have d: "distinct is" "distinct (map fst (walk_trace oob prog))"
    using inc(1) trace_sorted [of oob prog "n_slots prog" 0 reg_init]
    by (auto simp: strict_sorted_iff walk_trace_def)
  have "sum_list (map ?f is) = sum ?f (set is)"
    using d(1) by (simp add: sum_list_distinct_conv_sum_set)
  also have "\<dots> \<le> sum ?f (set (map fst (walk_trace oob prog)))"
    using inc(2) by (intro sum_mono2) auto
  also have "\<dots> = sum_list (map ?f (map fst (walk_trace oob prog)))"
    using d(2) by (simp only: sum_list_distinct_conv_sum_set)
  also have "\<dots> = unat c"
    using cost_exact [OF assms(1,4)] by (simp add: comp_def split_def)
  finally have le: "sum_list (map ?f is) \<le> unat c" .
  from iffD2 [OF of_nat_le_iff le, where 'a1 = int] have "int (sum_list (map ?f is)) \<le> uint c" by simp
  then show ?thesis using assms(1) le by (auto simp: amp_check_main_def split: if_splits)
qed

theorem amp_check_cost_bound_witness:
  "(\<Sum>j \<leftarrow> [0]. insn_weight (fetch demo_prog j)) \<le> unat (25 :: u32)
    \<and> amp_check_main (\<lambda>_ _. reg_init ! 0) demo_prog 30 False = 0
    \<and> int (\<Sum>j \<leftarrow> [0]. insn_weight (fetch demo_prog j)) \<le> 30"
proof -
  have n: "60 * n_slots demo_prog < 2 ^ 32" by (simp add: n_slots_def demo_prog_def)
  have m: "amp_check_main (\<lambda>_ _. reg_init ! 0) demo_prog 30 False = 0"
    by (simp add: amp_check_main_def demo_prog_accepted)
  show ?thesis
    using amp_check_cost_bound [OF demo_prog_accepted demo_prog_conditions(3) demo_run n, of 30 "\<lambda>_ _. reg_init ! 0"] m
    by simp
qed

subsection \<open>What the walk accepts although its comments rule it out\<close>

text \<open>The condition \<open>join_stable\<close> cannot be dropped, and the checker does not test it.  The walk
  is linear: when a forward branch skips the load of the ivar base, the store at its target is
  checked against the constant of the skipped instruction.  The program below is accepted, and one
  of its executions stores to address \<open>0x1000\<close>, outside the carveout and the frame.\<close>

definition gap_join :: bytes where
  "gap_join =
    [0xb7, 0x01, 0, 0, 0x00, 0x10, 0, 0,        0x15, 0x00, 2, 0, 0, 0, 0, 0,
     0x18, 0x01, 0, 0, 0x00, 0xFF, 0x03, 0x20,  0, 0, 0, 0, 0, 0, 0, 0,
     0x63, 0x01, 0, 0, 0, 0, 0, 0,              0x95, 0x00, 0, 0, 0, 0, 0, 0]"

lemma gap_join_facts:
  "n_slots gap_join = 6" "\<not> is_branch (fetch gap_join 0)" "ins_op (fetch gap_join 0) = 0xb7"
  "ins_dst (fetch gap_join 0) = 1" "(scast (ins_imm (fetch gap_join 0)) :: u64) = 0x1000"
  "is_branch (fetch gap_join 1)" "branch_target (fetch gap_join 1) 1 = 4"
  "ins_cls (fetch gap_join 4) = 3" "ins_dst (fetch gap_join 4) = 1"
  "(scast (ins_off (fetch gap_join 4)) :: u64) = 0" "amp_check_text oob gap_join = Inr 9"
  by code_simp+

lemma gap_join_reach:
  "bpf_reach ref_exec gap_join (\<lambda>_. 0x20001000) (4, (\<lambda>_. 0x20001000)(1 := 0x1000))"
proof -
  have s1: "bpf_step ref_exec gap_join (0, \<lambda>_. 0x20001000) (1, (\<lambda>_. 0x20001000)(1 := 0x1000))"
    using step_seq [of 0 gap_join "fetch gap_join 0" ref_exec "\<lambda>_. 0x20001000"] gap_join_facts
    by (simp add: next_slot_def ref_exec_def)
  have "bpf_step ref_exec gap_join (1, (\<lambda>_. 0x20001000)(1 := 0x1000)) (4, (\<lambda>_. 0x20001000)(1 := 0x1000))"
    using step_jump [of 1 gap_join ref_exec "(\<lambda>_. 0x20001000)(1 := 0x1000)"] gap_join_facts by simp
  then show ?thesis using bpf_next [OF bpf_next [OF bpf_start s1]] by blast
qed

lemma gap_join_store:
  "\<exists>c \<rho>. amp_check_text oob gap_join = Inr c \<and> bpf_reach ref_exec gap_join (\<lambda>_. 0x20001000) (4, \<rho>)
    \<and> mem_addr (fetch gap_join 4) \<rho> = Some 0x1000 \<and> \<not> in_ivars 0x1000 \<and> \<not> in_frame 0x20001000 0x1000"
proof -
  have "mem_addr (fetch gap_join 4) ((\<lambda>_. 0x20001000)(1 := 0x1000)) = Some 0x1000"
    using gap_join_facts by (simp add: mem_addr_def)
  moreover have "\<not> in_ivars 0x1000" "\<not> in_frame 0x20001000 0x1000" by code_simp+
  ultimately show ?thesis using gap_join_facts(11) gap_join_reach by blast
qed

text \<open>The payload slot of a 64-bit immediate load is skipped by the walk but can be a branch
  target, so an instruction hidden there runs unchecked: the program below is accepted and reaches a
  call to helper 99, which is not on the allowlist.\<close>

definition gap_hidden :: bytes where
  "gap_hidden =
    [0x05, 0x00, 1, 0, 0, 0, 0, 0,              0x18, 0x01, 0, 0, 0, 0, 0, 0,
     0x85, 0x00, 0, 0, 99, 0, 0, 0,             0x95, 0x00, 0, 0, 0, 0, 0, 0]"

lemma gap_hidden_facts:
  "n_slots gap_hidden = 4" "is_branch (fetch gap_hidden 0)" "branch_target (fetch gap_hidden 0) 0 = 2"
  "ins_op (fetch gap_hidden 2) = 0x85" "ins_imm (fetch gap_hidden 2) = 99" "amp_check_text oob gap_hidden = Inr 4"
  by code_simp+

lemma gap_hidden_call:
  "amp_check_text oob gap_hidden = Inr 4 \<and> bpf_reach ex gap_hidden \<rho> (2, \<rho>)
    \<and> ins_op (fetch gap_hidden 2) = 0x85 \<and> \<not> amp_helper_allowed (ins_imm (fetch gap_hidden 2))"
proof -
  have "bpf_step ex gap_hidden (0, \<rho>) (2, \<rho>)"
    using step_jump [of 0 gap_hidden ex \<rho>] gap_hidden_facts by simp
  then have "bpf_reach ex gap_hidden \<rho> (2, \<rho>)" using bpf_next [OF bpf_start] by blast
  then show ?thesis using gap_hidden_facts by (simp add: amp_helper_allowed_def)
qed

text \<open>Only the first byte of an access is compared with the carveout.  The 8-byte store below, at
  the last byte of the ivar region, is accepted; seven of its bytes lie outside the region.\<close>

definition gap_width :: bytes where
  "gap_width =
    [0x18, 0x01, 0, 0, 0xFF, 0xFF, 0x03, 0x20,  0, 0, 0, 0, 0, 0, 0, 0,
     0x7b, 0x01, 0, 0, 0, 0, 0, 0,              0x95, 0x00, 0, 0, 0, 0, 0, 0]"

lemma gap_width_store:
  "amp_check_text oob gap_width = Inr 6 \<and> ins_op (fetch gap_width 2) = 0x7b
    \<and> mem_addr (fetch gap_width 2) ((\<lambda>_. 0)(1 := 0x2003FFFF)) = Some 0x2003FFFF
    \<and> in_ivars 0x2003FFFF \<and> \<not> in_ivars (0x2003FFFF + 7)"
  by code_simp

text \<open>An indirect call (opcode \<open>0x8d\<close>) falls into the branch case and is accepted.\<close>

lemma amp_check_callx: "amp_check_text oob [0x8d, 1, 0, 0, 0, 0, 0, 0, 0x95, 0, 0, 0, 0, 0, 0, 0] = Inr 2"
  by code_simp

text \<open>A program without an exit instruction, even an empty one, is accepted.\<close>

lemma amp_check_empty: "amp_check_text oob [] = Inr 0"
  by code_simp

text \<open>A backward branch in such a slot is a loop: the program below is accepted, and it has runs of every
  length.\<close>

definition gap_loop :: bytes where
  "gap_loop =
    [0x05, 0x00, 1, 0, 0, 0, 0, 0,              0x18, 0x01, 0, 0, 0, 0, 0, 0,
     0x05, 0x00, 0xFF, 0xFF, 0, 0, 0, 0,        0x95, 0x00, 0, 0, 0, 0, 0, 0]"

lemma gap_loop_facts:
  "n_slots gap_loop = 4" "is_branch (fetch gap_loop 0)" "branch_target (fetch gap_loop 0) 0 = 2"
  "is_branch (fetch gap_loop 2)" "branch_target (fetch gap_loop 2) 2 = 2" "amp_check_text oob gap_loop = Inr 4"
  by code_simp+

lemma gap_loop_runs: "amp_check_text oob gap_loop = Inr 4 \<and> bpf_run ex gap_loop (0, \<rho>) (0 # replicate n 2)"
proof -
  have s: "bpf_step ex gap_loop (0, \<rho>) (2, \<rho>)" "bpf_step ex gap_loop (2, \<rho>) (2, \<rho>)"
    using step_jump [of 0 gap_loop ex \<rho>] step_jump [of 2 gap_loop ex \<rho>] gap_loop_facts by simp_all
  have "bpf_run ex gap_loop (2, \<rho>) (replicate n 2)"
    by (induction n) (use run_nil run_cons [OF s(2)] in auto)
  then show ?thesis using run_cons [OF s(1)] gap_loop_facts by blast
qed

end
