(* ===== verification/Amp_Runtime.thy ===== *)
theory Amp_Runtime
  imports Amp_Ring
begin

text \<open>
  The runtime on the real-time core (\<open>src/runtime/amp/amp_m7_runtime.c\<close>): boot, the A/B blob
  slots, the command poll that installs and removes blobs while the core keeps running, and the
  helpers a blob calls.

  The state \<open>m7\<close> holds the memory the runtime touches.  Cache maintenance, barriers, interrupt
  locking and logging have no counterpart in it; the progress word keeps the last step code only.
  \<open>CONFIG_ARM_MPU\<close> is taken as defined: the write window saves, clears and restores the MPU control
  register.  The uptime counter and the addresses of the two helpers are arguments, and so is the
  native code of a blob.
\<close>

definition AMP_ABI_VERSION :: u32 where "AMP_ABI_VERSION = 1"
definition AMP_STAGING_MAGIC :: u32 where "AMP_STAGING_MAGIC = 0x42504D41"
definition AMP_IVARS_BYTES :: nat where "AMP_IVARS_BYTES = 256"
definition AMP_RT_RING_CAP :: u32 where "AMP_RT_RING_CAP = 256"
definition AMP_HELPER_LDR_PC_PC :: u32 where "AMP_HELPER_LDR_PC_PC = 0xF000F8DF"
definition AMP_HELPER_SLOTS :: nat where "AMP_HELPER_SLOTS = 32"

definition AMP_HELPER_LITERAL :: "u32 \<Rightarrow> u32" where
  "AMP_HELPER_LITERAL addr = addr OR 1"

datatype amp_step =
    AMP_STEP_TICK | AMP_STEP_POLL | AMP_STEP_CMD_MAGIC | AMP_STEP_CMD_FOUND | AMP_STEP_PRE_INSTALL
  | AMP_STEP_PRE_WINDOW | AMP_STEP_IN_WINDOW | AMP_STEP_POST_IVARS | AMP_STEP_POST_MEMCPY
  | AMP_STEP_POST_ICACHE | AMP_STEP_POST_WINDOW | AMP_STEP_POST_FLIP | AMP_STEP_RUN
  | AMP_STEP_RUN_DONE | AMP_STEP_TICK_DONE

fun amp_step_code :: "amp_step \<Rightarrow> u32" where
  "amp_step_code AMP_STEP_TICK = 10"
| "amp_step_code AMP_STEP_POLL = 20"
| "amp_step_code AMP_STEP_CMD_MAGIC = 25"
| "amp_step_code AMP_STEP_CMD_FOUND = 30"
| "amp_step_code AMP_STEP_PRE_INSTALL = 40"
| "amp_step_code AMP_STEP_PRE_WINDOW = 45"
| "amp_step_code AMP_STEP_IN_WINDOW = 50"
| "amp_step_code AMP_STEP_POST_IVARS = 55"
| "amp_step_code AMP_STEP_POST_MEMCPY = 60"
| "amp_step_code AMP_STEP_POST_ICACHE = 65"
| "amp_step_code AMP_STEP_POST_WINDOW = 70"
| "amp_step_code AMP_STEP_POST_FLIP = 80"
| "amp_step_code AMP_STEP_RUN = 90"
| "amp_step_code AMP_STEP_RUN_DONE = 95"
| "amp_step_code AMP_STEP_TICK_DONE = 100"

datatype amp_load_status = AMP_LOAD_OK | AMP_LOAD_NO_BLOB | AMP_LOAD_ABI_MISMATCH | AMP_LOAD_TOO_BIG

text \<open>The staging header, and the bytes that follow it.\<close>

record amp_blob_staging =
  st_magic :: u32
  st_abi_version :: u32
  st_length :: u32
  st_ivars_size :: u32
  st_blob :: bytes

record m7 =
  m_ring :: amp_ring
  m_cmd :: amp_cmd_ring
  m_staging :: amp_blob_staging
  m_ivars :: bytes
  m_slots :: "bytes list"
  m_helpers :: "(u32 \<times> u32) list"
  m_active :: int
  m_progress :: u32
  m_mpu_ctrl :: u32

definition amp_m7_progress :: "amp_step \<Rightarrow> m7 \<Rightarrow> m7" where
  "amp_m7_progress st s = s \<lparr> m_progress := amp_step_code st \<rparr>"

definition amp_ktime :: "u64 \<Rightarrow> u64" where
  "amp_ktime uptime = uptime * 1000000"

definition amp_emit :: "u64 \<Rightarrow> u64 \<Rightarrow> m7 \<Rightarrow> (u64 \<times> m7) option" where
  "amp_emit uptime value s =
     (case amp_ring_emit (m_ring s) (amp_ktime uptime) value of
        None \<Rightarrow> None
      | Some (b, r) \<Rightarrow> Some (0, s \<lparr> m_ring := r \<rparr>))"

definition amp_write_slot :: "nat \<Rightarrow> u32 \<Rightarrow> m7 \<Rightarrow> m7" where
  "amp_write_slot hid target s =
     s \<lparr> m_helpers := (m_helpers s)[hid - 1 := (AMP_HELPER_LDR_PC_PC, AMP_HELPER_LITERAL target)] \<rparr>"

definition amp_itcm_window_begin :: "m7 \<Rightarrow> u32 \<times> m7" where
  "amp_itcm_window_begin s = (m_mpu_ctrl s, s \<lparr> m_mpu_ctrl := 0 \<rparr>)"

definition amp_itcm_window_end :: "u32 \<Rightarrow> m7 \<Rightarrow> m7" where
  "amp_itcm_window_end w s = s \<lparr> m_mpu_ctrl := w \<rparr>"

definition ivars_zsize :: "u32 \<Rightarrow> nat" where
  "ivars_zsize ivars_size =
     (let z = (if ivars_size \<noteq> 0 then unat ivars_size else AMP_IVARS_BYTES)
      in if z > AMP_IVARS_BYTES then AMP_IVARS_BYTES else z)"

definition install_to_slot :: "nat \<Rightarrow> bytes \<Rightarrow> u32 \<Rightarrow> u32 \<Rightarrow> m7 \<Rightarrow> m7" where
  "install_to_slot slot blob len ivars_size s =
     (let s = amp_m7_progress AMP_STEP_PRE_WINDOW s;
          (w, s) = amp_itcm_window_begin s;
          s = amp_m7_progress AMP_STEP_IN_WINDOW s;
          s = s \<lparr> m_ivars := poke 0 (replicate (ivars_zsize ivars_size) 0) (m_ivars s) \<rparr>;
          s = amp_m7_progress AMP_STEP_POST_IVARS s;
          s = s \<lparr> m_slots := (m_slots s)[slot := poke 0 (take (unat len) blob) (m_slots s ! slot)] \<rparr>;
          s = amp_m7_progress AMP_STEP_POST_MEMCPY s;
          s = amp_itcm_window_end w s
      in amp_m7_progress AMP_STEP_POST_WINDOW s)"

definition helper_table_install :: "u32 \<Rightarrow> u32 \<Rightarrow> m7 \<Rightarrow> m7" where
  "helper_table_install emit_addr ktime_addr s =
     (let (w, s) = amp_itcm_window_begin s;
          s = amp_write_slot 1 emit_addr s;
          s = amp_write_slot 2 ktime_addr s
      in amp_itcm_window_end w s)"

definition staging_status :: "amp_blob_staging \<Rightarrow> amp_load_status" where
  "staging_status st =
     (if st_magic st \<noteq> AMP_STAGING_MAGIC then AMP_LOAD_NO_BLOB
      else if st_abi_version st \<noteq> AMP_ABI_VERSION then AMP_LOAD_ABI_MISMATCH
      else if st_length st = 0 \<or> unat (st_length st) > AMP_BLOB_MAX then AMP_LOAD_TOO_BIG
      else AMP_LOAD_OK)"

definition amp_m7_runtime_init :: "u32 \<Rightarrow> u32 \<Rightarrow> m7 \<Rightarrow> amp_load_status \<times> m7" where
  "amp_m7_runtime_init emit_addr ktime_addr s =
     (let s = s \<lparr> m_ring := amp_ring_init (m_ring s) AMP_RT_RING_CAP \<rparr>;
          s = s \<lparr> m_cmd := amp_cmd_ring_init (m_cmd s) \<rparr>;
          s = s \<lparr> m_active := -1 \<rparr>;
          s = helper_table_install emit_addr ktime_addr s;
          st = m_staging s;
          status = staging_status st
      in if status = AMP_LOAD_OK then
           (let s = install_to_slot 0 (st_blob st) (st_length st) (st_ivars_size st) s;
                s = s \<lparr> m_active := 0 \<rparr>;
                s = s \<lparr> m_staging := (m_staging s) \<lparr> st_magic := 0 \<rparr> \<rparr>
            in (status, s))
         else (status, s))"

definition amp_m7_run :: "(bytes \<Rightarrow> m7 \<Rightarrow> m7) \<Rightarrow> m7 \<Rightarrow> m7" where
  "amp_m7_run code s =
     (if m_active s < 0 then s
      else amp_m7_progress AMP_STEP_RUN_DONE
             (code (m_slots s ! nat (m_active s)) (amp_m7_progress AMP_STEP_RUN s)))"

definition amp_m7_teardown :: "m7 \<Rightarrow> m7" where
  "amp_m7_teardown s =
     s \<lparr> m_active := -1, m_ivars := poke 0 (replicate AMP_IVARS_BYTES 0) (m_ivars s) \<rparr>"

text \<open>One iteration of the poll loop on the record it found.\<close>

definition install_ok :: "amp_cmd_rec \<Rightarrow> bool" where
  "install_ok rec \<longleftrightarrow> cmd_abi_version rec = AMP_ABI_VERSION
     \<and> cmd_length rec > 0 \<and> unat (cmd_length rec) \<le> AMP_BLOB_MAX"

definition poll_handle :: "amp_cmd_rec \<Rightarrow> m7 \<Rightarrow> m7" where
  "poll_handle rec s =
     (let s = amp_m7_progress AMP_STEP_CMD_FOUND s in
      if cmd_type rec = AMP_CMD_INSTALL then
        (if install_ok rec then
           (let target = (if m_active s = 0 then 1 else 0);
                s = amp_m7_progress AMP_STEP_PRE_INSTALL s;
                s = install_to_slot target (cmd_blob rec) (cmd_length rec) (cmd_ivars_size rec) s;
                s = s \<lparr> m_active := int target \<rparr>
            in amp_m7_progress AMP_STEP_POST_FLIP s)
         else s)
      else if cmd_type rec = AMP_CMD_TEARDOWN then amp_m7_teardown s
      else s)"

lemmas m7_defs = amp_m7_progress_def amp_itcm_window_begin_def amp_itcm_window_end_def
  install_to_slot_def amp_m7_teardown_def poll_handle_def Let_def

lemma poll_handle_cmd [simp]: "m_cmd (poll_handle rec s) = m_cmd s"
  by (simp add: m7_defs)

function poll_loop :: "m7 \<Rightarrow> u32 \<Rightarrow> nat \<Rightarrow> (nat \<times> u32 \<times> m7) option" where
  "poll_loop s co processed =
     (if co = cr_prod (m_cmd s) then Some (processed, co, s)
      else case slot_index co (cr_capacity (m_cmd s)) (cr_recs (m_cmd s)) of
        None \<Rightarrow> None
      | Some i \<Rightarrow> poll_loop (poll_handle (cr_recs (m_cmd s) ! i) s) (co + 1) (processed + 1))"
  by pat_completeness auto
termination
proof (relation "measure (\<lambda>(s, co, k). unat (cr_prod (m_cmd s) - co))", goal_cases)
  case (2 s co processed i)
  then have "unat (cr_prod (m_cmd s) - co) = Suc (unat (cr_prod (m_cmd s) - (co + 1)))"
    by (intro word_diff_pred) simp
  then show ?case by simp
qed simp

declare poll_loop.simps [simp del]

definition amp_m7_poll_cmd :: "m7 \<Rightarrow> (nat \<times> m7) option" where
  "amp_m7_poll_cmd s =
     (let s = amp_m7_progress AMP_STEP_POLL s in
      if cr_magic (m_cmd s) \<noteq> AMP_CMD_RING_MAGIC then Some (0, s)
      else
        let s = amp_m7_progress AMP_STEP_CMD_MAGIC s in
        case poll_loop s (cr_cons (m_cmd s)) 0 of
          None \<Rightarrow> None
        | Some (processed, co, s) \<Rightarrow> Some (processed, s \<lparr> m_cmd := (m_cmd s) \<lparr> cr_cons := co \<rparr> \<rparr>))"

subsection \<open>Invariant\<close>

definition m7_shape :: "m7 \<Rightarrow> bool" where
  "m7_shape s \<longleftrightarrow> length (m_ivars s) = AMP_IVARS_BYTES
     \<and> length (m_slots s) = 2 \<and> (\<forall>b\<in>set (m_slots s). length b = AMP_BLOB_MAX)
     \<and> length (m_helpers s) = AMP_HELPER_SLOTS \<and> m_active s \<in> {-1, 0, 1}"

definition m7_inv :: "m7 \<Rightarrow> bool" where
  "m7_inv s \<longleftrightarrow> m7_shape s \<and> amp_cmd_ring_wf (m_cmd s) \<and> cr_capacity (m_cmd s) = AMP_CMD_RING_CAP
     \<and> (\<forall>rec\<in>set (cr_recs (m_cmd s)). length (cmd_blob rec) = AMP_BLOB_MAX)
     \<and> amp_ring_wf (m_ring s)"

text \<open>
  The contract, as a state of its own: the commands waiting (at most two), the installed blob, the ivar
  bytes, and the events waiting (at most 256) as time and value.  It knows no rings, slots or indices.
\<close>

record m7_contract =
  k_cmds :: "amp_cmd_rec list"
  k_blob :: "bytes option"
  k_ivars :: bytes
  k_events :: "(u64 \<times> u64) list"

definition k_clear :: "nat \<Rightarrow> bytes \<Rightarrow> bytes" where
  "k_clear n ivars = (if 1 \<le> n \<and> n \<le> 256 then replicate n 0 @ drop n ivars else replicate 256 0)"

definition k_cmd :: "amp_cmd_rec \<Rightarrow> m7_contract \<Rightarrow> m7_contract" where
  "k_cmd rec k =
     (if cmd_type rec = 1 \<and> cmd_abi_version rec = 1 \<and> 1 \<le> unat (cmd_length rec) \<and> unat (cmd_length rec) \<le> 512
      then k \<lparr> k_blob := Some (take (unat (cmd_length rec)) (cmd_blob rec)),
               k_ivars := k_clear (unat (cmd_ivars_size rec)) (k_ivars k) \<rparr>
      else if cmd_type rec = 2 then k \<lparr> k_blob := None, k_ivars := replicate 256 0 \<rparr>
      else k)"

definition k_boot :: "m7 \<Rightarrow> m7_contract" where
  "k_boot s0 = (let st = m_staging s0; len = unat (st_length st) in
     if st_magic st = 0x42504D41 \<and> st_abi_version st = 1 \<and> 1 \<le> len \<and> len \<le> 512
     then \<lparr> k_cmds = [], k_blob = Some (take len (st_blob st)),
            k_ivars = k_clear (unat (st_ivars_size st)) (m_ivars s0), k_events = [] \<rparr>
     else \<lparr> k_cmds = [], k_blob = None, k_ivars = m_ivars s0, k_events = [] \<rparr>)"

definition m7_runs :: "m7 \<Rightarrow> bytes option \<Rightarrow> bool" where
  "m7_runs s b = (case b of
       None \<Rightarrow> m_active s = -1
     | Some code \<Rightarrow> m_active s \<in> {0, 1} \<and> take (length code) (m_slots s ! nat (m_active s)) = code)"

lemma ivars_zsize_le: "ivars_zsize z \<le> AMP_IVARS_BYTES"
  by (simp add: ivars_zsize_def Let_def)

lemma ivars_clear:
  assumes "length ivars = AMP_IVARS_BYTES"
  shows "poke 0 (replicate (ivars_zsize z) 0) ivars = k_clear (unat z) ivars"
  using assms by (auto simp: poke_def k_clear_def ivars_zsize_def Let_def AMP_IVARS_BYTES_def
      Suc_le_eq unat_gt_0)

lemma ivars_clear_all:
  assumes "length ivars = AMP_IVARS_BYTES"
  shows "poke 0 (replicate AMP_IVARS_BYTES 0) ivars = replicate 256 0"
  using assms by (simp add: poke_def AMP_IVARS_BYTES_def)

lemma install_to_slot_fields:
  "m_slots (install_to_slot k blob len iv s) = (m_slots s)[k := poke 0 (take (unat len) blob) (m_slots s ! k)]"
  "m_ivars (install_to_slot k blob len iv s) = poke 0 (replicate (ivars_zsize iv) 0) (m_ivars s)"
  "m_mpu_ctrl (install_to_slot k blob len iv s) = m_mpu_ctrl s"
  "m_active (install_to_slot k blob len iv s) = m_active s"
  "m_helpers (install_to_slot k blob len iv s) = m_helpers s"
  "m_ring (install_to_slot k blob len iv s) = m_ring s"
  "m_cmd (install_to_slot k blob len iv s) = m_cmd s"
  "m_staging (install_to_slot k blob len iv s) = m_staging s"
  by (simp_all add: m7_defs)

lemma poll_handle_fields [simp]:
  "m_mpu_ctrl (poll_handle rec s) = m_mpu_ctrl s"
  "m_helpers (poll_handle rec s) = m_helpers s"
  "m_ring (poll_handle rec s) = m_ring s"
  by (simp_all add: m7_defs)

lemma poll_handle_install:
  assumes "cmd_type rec = AMP_CMD_INSTALL" "install_ok rec"
  shows "m_active (poll_handle rec s) = (if m_active s = 0 then 1 else 0)"
    and "m_slots (poll_handle rec s) = (let k = (if m_active s = 0 then 1 else 0) in
       (m_slots s)[k := poke 0 (take (unat (cmd_length rec)) (cmd_blob rec)) (m_slots s ! k)])"
    and "m_ivars (poll_handle rec s) = poke 0 (replicate (ivars_zsize (cmd_ivars_size rec)) 0) (m_ivars s)"
  using assms by (simp_all add: poll_handle_def install_to_slot_fields amp_m7_progress_def Let_def)

lemma poll_handle_shape:
  assumes "m7_shape s" "length (cmd_blob rec) = AMP_BLOB_MAX"
  shows "m7_shape (poll_handle rec s)"
proof -
  let ?blob = "take (unat (cmd_length rec)) (cmd_blob rec)"
  have l: "k < 2 \<Longrightarrow> length (m_slots s ! k) = AMP_BLOB_MAX" for k
    using assms(1) by (auto simp: m7_shape_def)
  have "length (poke 0 ?blob (m_slots s ! k)) = AMP_BLOB_MAX" if "k < 2" for k
    using l [OF that] assms(2) by simp
  moreover have "length (poke 0 (replicate (ivars_zsize z) 0) (m_ivars s)) = AMP_IVARS_BYTES" for z
    using assms(1) ivars_zsize_le [of z] by (simp add: m7_shape_def)
  moreover have "length (poke 0 (replicate AMP_IVARS_BYTES 0) (m_ivars s)) = AMP_IVARS_BYTES"
    using assms(1) by (simp add: m7_shape_def)
  ultimately show ?thesis
    using assms by (auto simp: m7_shape_def m7_defs dest!: set_update_subset_insert [THEN subsetD])
qed

lemma poll_handle_refines:
  assumes "m7_shape s" "length (cmd_blob rec) = AMP_BLOB_MAX" "m7_runs s (k_blob k)" "m_ivars s = k_ivars k"
  shows "m7_runs (poll_handle rec s) (k_blob (k_cmd rec k)) \<and> m_ivars (poll_handle rec s) = k_ivars (k_cmd rec k)"
proof (cases "cmd_type rec = AMP_CMD_INSTALL \<and> install_ok rec")
  case True
  define j :: nat where "j = (if m_active s = 0 then 1 else 0)"
  have j: "j < length (m_slots s)" "length (m_slots s ! j) = AMP_BLOB_MAX"
    using assms(1) by (auto simp: m7_shape_def j_def)
  have a: "m_active (poll_handle rec s) = int j"
    and m: "m_slots (poll_handle rec s) ! j = poke 0 (take (unat (cmd_length rec)) (cmd_blob rec)) (m_slots s ! j)"
    using poll_handle_install [of rec s] True j(1) by (simp_all add: j_def Let_def)
  have iv: "m_ivars (poll_handle rec s) = k_clear (unat (cmd_ivars_size rec)) (m_ivars s)"
    using poll_handle_install(3) [of rec s] True assms(1) by (simp add: ivars_clear m7_shape_def)
  have k: "k_cmd rec k = k \<lparr> k_blob := Some (take (unat (cmd_length rec)) (cmd_blob rec)),
      k_ivars := k_clear (unat (cmd_ivars_size rec)) (k_ivars k) \<rparr>"
    using True by (auto simp: k_cmd_def install_ok_def AMP_CMD_INSTALL_def AMP_ABI_VERSION_def AMP_BLOB_MAX_def
        word_less_nat_alt)
  have "unat (cmd_length rec) \<le> 512" using True by (simp add: install_ok_def AMP_BLOB_MAX_def)
  then show ?thesis
    using a m iv k assms(2,4) j by (auto simp: m7_runs_def j_def poke_def AMP_BLOB_MAX_def min_absorb2)
next
  case False
  have ok: "install_ok rec \<longleftrightarrow>
      cmd_abi_version rec = 1 \<and> 1 \<le> unat (cmd_length rec) \<and> unat (cmd_length rec) \<le> 512"
    by (auto simp: install_ok_def AMP_ABI_VERSION_def AMP_BLOB_MAX_def word_less_nat_alt)
  show ?thesis
  proof (cases "cmd_type rec = AMP_CMD_TEARDOWN")
    case True
    then have "poll_handle rec s = amp_m7_teardown (amp_m7_progress AMP_STEP_CMD_FOUND s)"
      by (simp add: poll_handle_def AMP_CMD_TEARDOWN_def AMP_CMD_INSTALL_def)
    moreover have "k_cmd rec k = k \<lparr> k_blob := None, k_ivars := replicate 256 0 \<rparr>"
      using True by (simp add: k_cmd_def AMP_CMD_TEARDOWN_def)
    ultimately show ?thesis
      using assms(1) by (simp add: amp_m7_teardown_def m7_runs_def amp_m7_progress_def ivars_clear_all m7_shape_def)
  next
    case nt: False
    then have "poll_handle rec s = amp_m7_progress AMP_STEP_CMD_FOUND s" "k_cmd rec k = k"
      using False by (auto simp: poll_handle_def k_cmd_def ok Let_def AMP_CMD_TEARDOWN_def AMP_CMD_INSTALL_def)
    then show ?thesis using assms(3,4) by (simp add: amp_m7_progress_def m7_runs_def split: option.splits)
  qed
qed

lemma poll_loop_fold:
  assumes "spsc_wf (cr_recs (m_cmd s)) (cr_capacity (m_cmd s)) (cr_prod (m_cmd s)) co"
  defines "xs \<equiv> spsc_contents (cr_recs (m_cmd s)) (cr_capacity (m_cmd s)) (cr_prod (m_cmd s)) co"
  shows "poll_loop s co k = Some (k + length xs, cr_prod (m_cmd s), fold poll_handle xs s)"
  using assms(1) unfolding xs_def
proof (induction s co k rule: poll_loop.induct)
  case (1 s co k)
  let ?c = "\<lambda>co. spsc_contents (cr_recs (m_cmd s)) (cr_capacity (m_cmd s)) (cr_prod (m_cmd s)) co"
  note w = "1.prems"
  show ?case
  proof (cases "co = cr_prod (m_cmd s)")
    case True
    then show ?thesis by (subst poll_loop.simps) (simp add: spsc_contents_def)
  next
    case False
    let ?i = "unat co mod unat (cr_capacity (m_cmd s))"
    have si: "slot_index co (cr_capacity (m_cmd s)) (cr_recs (m_cmd s)) = Some ?i"
      by (rule slot_index_wf [OF w])
    have w1: "spsc_wf (cr_recs (m_cmd s)) (cr_capacity (m_cmd s)) (cr_prod (m_cmd s)) (co + 1)"
      and c: "?c co = cr_recs (m_cmd s) ! ?i # ?c (co + 1)"
      using spsc_contents_Cons [OF w] False by auto
    have IH: "poll_loop (poll_handle (cr_recs (m_cmd s) ! ?i) s) (co + 1) (k + 1) =
        Some (k + 1 + length (?c (co + 1)), cr_prod (m_cmd s),
          fold poll_handle (?c (co + 1)) (poll_handle (cr_recs (m_cmd s) ! ?i) s))"
      using "1.IH" [OF False si] w1 by simp
    have "length (?c co) = Suc (length (?c (co + 1)))" using arg_cong [OF c, of length] by simp
    then show ?thesis
      using False si IH c by (subst poll_loop.simps) simp
  qed
qed

text \<open>A poll processes exactly the pending commands, in order, and consumes them.\<close>

lemma poll_cmd_fold:
  assumes "m7_inv s"
  defines "s1 \<equiv> amp_m7_progress AMP_STEP_CMD_MAGIC s"
  defines "s2 \<equiv> fold poll_handle (amp_cmd_ring_contents (m_cmd s)) s1"
  shows "amp_m7_poll_cmd s = Some (length (amp_cmd_ring_contents (m_cmd s)),
    s2 \<lparr> m_cmd := (m_cmd s) \<lparr> cr_cons := cr_prod (m_cmd s) \<rparr> \<rparr>)"
proof -
  have w: "spsc_wf (cr_recs (m_cmd s)) (cr_capacity (m_cmd s)) (cr_prod (m_cmd s)) (cr_cons (m_cmd s))"
    and m: "cr_magic (m_cmd s) = AMP_CMD_RING_MAGIC"
    using assms(1) by (auto simp: m7_inv_def amp_cmd_ring_wf_def)
  have e: "amp_m7_progress AMP_STEP_CMD_MAGIC (amp_m7_progress AMP_STEP_POLL s) = s1"
    by (simp add: amp_m7_progress_def s1_def)
  have f: "m_cmd s1 = m_cmd s" by (simp add: s1_def amp_m7_progress_def)
  have g: "m_cmd (fold poll_handle xs t) = m_cmd t" for xs t
    by (induction xs arbitrary: t) simp_all
  show ?thesis
    using poll_loop_fold [of s1 "cr_cons (m_cmd s)" 0] w m
    by (simp add: amp_m7_poll_cmd_def Let_def e f g s2_def amp_cmd_ring_contents_def)
      (simp add: amp_m7_progress_def)
qed

lemma fold_handle_shape:
  assumes "m7_shape s" "\<forall>rec\<in>set xs. length (cmd_blob rec) = AMP_BLOB_MAX"
    and "m7_runs s (k_blob k)" "m_ivars s = k_ivars k"
  shows "m7_shape (fold poll_handle xs s) \<and> m7_runs (fold poll_handle xs s) (k_blob (fold k_cmd xs k))
    \<and> m_ivars (fold poll_handle xs s) = k_ivars (fold k_cmd xs k)"
  using assms
proof (induction xs arbitrary: s k)
  case (Cons rec xs)
  have "m7_shape (poll_handle rec s)" "m7_runs (poll_handle rec s) (k_blob (k_cmd rec k))"
    "m_ivars (poll_handle rec s) = k_ivars (k_cmd rec k)"
    using poll_handle_shape [of s rec] poll_handle_refines [of s rec k] Cons.prems by simp_all
  from Cons.IH [OF this(1) _ this(2,3)] Cons.prems(2) show ?case by simp
qed simp

lemma fold_handle_frame:
  "m_mpu_ctrl (fold poll_handle xs s) = m_mpu_ctrl s" "m_helpers (fold poll_handle xs s) = m_helpers s"
  "m_ring (fold poll_handle xs s) = m_ring s"
  by (induction xs arbitrary: s) simp_all

lemma contents_blobs:
  assumes "m7_inv s"
  shows "\<forall>rec\<in>set (amp_cmd_ring_contents (m_cmd s)). length (cmd_blob rec) = AMP_BLOB_MAX"
proof -
  have w: "spsc_wf (cr_recs (m_cmd s)) (cr_capacity (m_cmd s)) (cr_prod (m_cmd s)) (cr_cons (m_cmd s))"
    using assms by (auto simp: m7_inv_def amp_cmd_ring_wf_def)
  have "set (amp_cmd_ring_contents (m_cmd s)) \<subseteq> set (cr_recs (m_cmd s))"
    unfolding amp_cmd_ring_contents_def by (rule spsc_contents_subset [OF w])
  then show ?thesis using assms by (auto simp: m7_inv_def)
qed

lemma shape_progress [simp]:
  "m7_shape (amp_m7_progress st s) = m7_shape s" "m7_runs (amp_m7_progress st s) b = m7_runs s b"
  "m7_shape (s \<lparr> m_cmd := c \<rparr>) = m7_shape s" "m7_runs (s \<lparr> m_cmd := c \<rparr>) b = m7_runs s b"
  "m7_shape (s \<lparr> m_ring := r \<rparr>) = m7_shape s" "m7_runs (s \<lparr> m_ring := r \<rparr>) b = m7_runs s b"
  by (simp_all add: m7_shape_def m7_runs_def amp_m7_progress_def split: option.splits)

lemma poll_cmd_inv:
  assumes "m7_inv s" "m7_runs s (k_blob k)" "m_ivars s = k_ivars k"
  shows "\<exists>s'. amp_m7_poll_cmd s = Some (length (amp_cmd_ring_contents (m_cmd s)), s') \<and> m7_inv s'
    \<and> m7_runs s' (k_blob (fold k_cmd (amp_cmd_ring_contents (m_cmd s)) k))
    \<and> m_ivars s' = k_ivars (fold k_cmd (amp_cmd_ring_contents (m_cmd s)) k)
    \<and> amp_cmd_ring_contents (m_cmd s') = [] \<and> m_ring s' = m_ring s
    \<and> m_mpu_ctrl s' = m_mpu_ctrl s \<and> m_helpers s' = m_helpers s"
proof -
  let ?xs = "amp_cmd_ring_contents (m_cmd s)"
  let ?s1 = "amp_m7_progress AMP_STEP_CMD_MAGIC s"
  let ?s2 = "fold poll_handle ?xs ?s1"
  let ?s' = "?s2 \<lparr> m_cmd := (m_cmd s) \<lparr> cr_cons := cr_prod (m_cmd s) \<rparr> \<rparr>"
  have "m7_shape ?s1" "m7_runs ?s1 (k_blob k)" "m_ivars ?s1 = k_ivars k"
    using assms by (simp_all add: m7_inv_def) (simp add: amp_m7_progress_def)
  from fold_handle_shape [OF this(1) contents_blobs [OF assms(1)] this(2,3)]
  have f: "m7_shape ?s2" "m7_runs ?s2 (k_blob (fold k_cmd ?xs k))" "m_ivars ?s2 = k_ivars (fold k_cmd ?xs k)"
    by auto
  have c: "amp_cmd_ring_wf ((m_cmd s) \<lparr> cr_cons := cr_prod (m_cmd s) \<rparr>)"
    "amp_cmd_ring_contents ((m_cmd s) \<lparr> cr_cons := cr_prod (m_cmd s) \<rparr>) = []"
    using assms(1) by (auto simp: m7_inv_def amp_cmd_ring_wf_def amp_cmd_ring_contents_def spsc_wf_def spsc_contents_def)
  have "m7_inv ?s'"
    using assms(1) f c by (auto simp: m7_inv_def fold_handle_frame) (simp_all add: amp_m7_progress_def)
  moreover have "m_ring ?s' = m_ring s" "m_mpu_ctrl ?s' = m_mpu_ctrl s" "m_helpers ?s' = m_helpers s"
    by (simp_all add: fold_handle_frame) (simp_all add: amp_m7_progress_def)
  ultimately show ?thesis
    using poll_cmd_fold [OF assms(1)] f c by (intro exI [of _ ?s']) simp
qed

subsection \<open>The core in operation\<close>

text \<open>
  Boot, then any sequence of: a command pushed by the A55, a poll, an emit or an ivar store by the
  running blob (the only effects the checker lets a blob have; without a blob they do not happen), a
  teardown, and a consumption of events by the A55.  Every event has a reply.
\<close>

datatype m7_event =
    Ev_push amp_cmd_rec | Ev_poll | Ev_emit u64 u64 | Ev_ivar nat u8 | Ev_teardown | Ev_drain nat

datatype m7_reply = Pushed bool | Polled nat | Returned u64 | Done | Drained "(u64 \<times> u64) list"

fun m7_step :: "m7_event \<Rightarrow> m7 \<Rightarrow> (m7_reply \<times> m7) option" where
  "m7_step (Ev_push rec) s =
     map_option (\<lambda>(ok, c). (Pushed ok, s \<lparr> m_cmd := c \<rparr>)) (amp_cmd_ring_push (m_cmd s) rec)"
| "m7_step Ev_poll s = map_option (map_prod Polled id) (amp_m7_poll_cmd s)"
| "m7_step (Ev_emit uptime v) s =
     (if m_active s < 0 then Some (Done, s) else map_option (map_prod Returned id) (amp_emit uptime v s))"
| "m7_step (Ev_ivar i x) s =
     (if m_active s < 0 then Some (Done, s) else Some (Done, s \<lparr> m_ivars := (m_ivars s)[i := x] \<rparr>))"
| "m7_step Ev_teardown s = Some (Done, amp_m7_teardown s)"
| "m7_step (Ev_drain n) s =
     map_option (\<lambda>(xs, r). (Drained xs, s \<lparr> m_ring := r \<rparr>)) (amp_ring_get n (m_ring s))"

fun m7_exec :: "m7_event list \<Rightarrow> m7 \<Rightarrow> (m7_reply list \<times> m7) option" where
  "m7_exec [] s = Some ([], s)"
| "m7_exec (ev # evs) s =
     Option.bind (m7_step ev s) (\<lambda>(a, s1). map_option (map_prod (Cons a) id) (m7_exec evs s1))"

fun k_step :: "m7_event \<Rightarrow> m7_contract \<Rightarrow> m7_reply \<times> m7_contract" where
  "k_step (Ev_push rec) k =
     (if length (k_cmds k) < 2 then (Pushed True, k \<lparr> k_cmds := k_cmds k @ [rec] \<rparr>) else (Pushed False, k))"
| "k_step Ev_poll k = (Polled (length (k_cmds k)), (fold k_cmd (k_cmds k) k) \<lparr> k_cmds := [] \<rparr>)"
| "k_step (Ev_emit uptime v) k =
     (if k_blob k = None then (Done, k)
      else if length (k_events k) < 256
      then (Returned 0, k \<lparr> k_events := k_events k @ [(uptime * 1000000, v)] \<rparr>)
      else (Returned 0, k))"
| "k_step (Ev_ivar i x) k =
     (if k_blob k = None then (Done, k) else (Done, k \<lparr> k_ivars := (k_ivars k)[i := x] \<rparr>))"
| "k_step Ev_teardown k = (Done, k \<lparr> k_blob := None, k_ivars := replicate 256 0 \<rparr>)"
| "k_step (Ev_drain n) k = (Drained (take n (k_events k)), k \<lparr> k_events := drop n (k_events k) \<rparr>)"

fun k_exec :: "m7_event list \<Rightarrow> m7_contract \<Rightarrow> m7_reply list \<times> m7_contract" where
  "k_exec [] k = ([], k)"
| "k_exec (ev # evs) k = (case k_step ev k of (a, k1) \<Rightarrow> map_prod (Cons a) id (k_exec evs k1))"

text \<open>A command record has room for 512 bytes of code.\<close>

fun m7_event_ok :: "m7_event \<Rightarrow> bool" where
  "m7_event_ok (Ev_push rec) \<longleftrightarrow> length (cmd_blob rec) = 512"
| "m7_event_ok _ \<longleftrightarrow> True"

definition m7_boot :: "m7 \<Rightarrow> bool" where
  "m7_boot s \<longleftrightarrow> m7_shape (s \<lparr> m_active := -1 \<rparr>) \<and> length (cr_recs (m_cmd s)) = 2
     \<and> (\<forall>rec\<in>set (cr_recs (m_cmd s)). length (cmd_blob rec) = AMP_BLOB_MAX)
     \<and> length (rg_slots (m_ring s)) = 256 \<and> length (st_blob (m_staging s)) = 4080"

definition helpers_ok :: "u32 \<Rightarrow> u32 \<Rightarrow> m7 \<Rightarrow> bool" where
  "helpers_ok ea ka s \<longleftrightarrow> m_helpers s ! 0 = (AMP_HELPER_LDR_PC_PC, AMP_HELPER_LITERAL ea)
     \<and> m_helpers s ! 1 = (AMP_HELPER_LDR_PC_PC, AMP_HELPER_LITERAL ka)"

definition m7_rel :: "m7 \<Rightarrow> m7_contract \<Rightarrow> bool" where
  "m7_rel s k \<longleftrightarrow> m7_runs s (k_blob k) \<and> m_ivars s = k_ivars k \<and> amp_cmd_ring_contents (m_cmd s) = k_cmds k
     \<and> map amp_rec_key (amp_ring_contents (m_ring s)) = k_events k"

lemma staging_ok:
  "staging_status st = AMP_LOAD_OK \<longleftrightarrow> st_magic st = 0x42504D41 \<and> st_abi_version st = 1
     \<and> 1 \<le> unat (st_length st) \<and> unat (st_length st) \<le> 512"
  by (auto simp: staging_status_def AMP_STAGING_MAGIC_def AMP_ABI_VERSION_def AMP_BLOB_MAX_def
      Suc_le_eq unat_gt_0)

lemma init_fields:
  assumes "amp_m7_runtime_init ea ka s0 = (st, s)" "m7_boot s0"
  shows "m7_inv s" "m7_rel s (k_boot s0)" "m_mpu_ctrl s = m_mpu_ctrl s0" "helpers_ok ea ka s"
    "st = staging_status (m_staging s0)" "amp_cmd_ring_contents (m_cmd s) = []"
    "rg_capacity (m_ring s) = 256"
proof -
  define s1 where "s1 = helper_table_install ea ka
    (s0 \<lparr> m_ring := amp_ring_init (m_ring s0) AMP_RT_RING_CAP, m_cmd := amp_cmd_ring_init (m_cmd s0), m_active := -1 \<rparr>)"
  have f1: "m_ring s1 = amp_ring_init (m_ring s0) AMP_RT_RING_CAP" "m_cmd s1 = amp_cmd_ring_init (m_cmd s0)"
    "m_active s1 = -1" "m_staging s1 = m_staging s0" "m_slots s1 = m_slots s0" "m_ivars s1 = m_ivars s0"
    "m_mpu_ctrl s1 = m_mpu_ctrl s0"
    "m_helpers s1 = (m_helpers s0)[0 := (AMP_HELPER_LDR_PC_PC, AMP_HELPER_LITERAL ea),
        Suc 0 := (AMP_HELPER_LDR_PC_PC, AMP_HELPER_LITERAL ka)]"
    by (simp_all add: s1_def helper_table_install_def amp_write_slot_def m7_defs)
  note b = assms(2) [unfolded m7_boot_def]
  have sh1: "m7_shape s1" using b f1 by (simp add: m7_shape_def)
  have ring: "amp_ring_wf (m_ring s1)"
    using amp_ring_init_wf(1) [of "m_ring s0" AMP_RT_RING_CAP] b f1 by (simp add: AMP_RT_RING_CAP_def)
  have cmd: "amp_cmd_ring_wf (m_cmd s1)" "amp_cmd_ring_contents (m_cmd s1) = []"
    "cr_capacity (m_cmd s1) = AMP_CMD_RING_CAP" "cr_recs (m_cmd s1) = cr_recs (m_cmd s0)"
    using amp_cmd_ring_init_wf [of "m_cmd s0"] b f1 by (simp_all add: amp_cmd_ring_init_def)
  have inv1: "m7_inv s1" using sh1 ring cmd b by (simp add: m7_inv_def)
  have h1: "helpers_ok ea ka s1"
    using f1 b by (simp add: helpers_ok_def m7_shape_def AMP_HELPER_SLOTS_def)
  have e: "(st, s) = (let st = m_staging s0 in if staging_status st = AMP_LOAD_OK then
      (AMP_LOAD_OK, (let s = install_to_slot 0 (st_blob st) (st_length st) (st_ivars_size st) s1;
         s = s \<lparr> m_active := 0 \<rparr> in s \<lparr> m_staging := (m_staging s) \<lparr> st_magic := 0 \<rparr> \<rparr>))
      else (staging_status st, s1))"
    using assms(1) f1(4) by (simp add: amp_m7_runtime_init_def Let_def s1_def split: if_splits)
  show "st = staging_status (m_staging s0)" using e by (simp add: Let_def split: if_splits)
  have evs: "amp_ring_contents (m_ring s1) = []"
    using amp_ring_init_wf(2) [of "m_ring s0" AMP_RT_RING_CAP] b f1 by (simp add: AMP_RT_RING_CAP_def)
  show cc: "amp_cmd_ring_contents (m_cmd s) = []" and "m_mpu_ctrl s = m_mpu_ctrl s0"
    using e cmd f1 by (auto simp: Let_def install_to_slot_fields split: if_splits)
  have rr: "m_ring s = m_ring s1" using e by (auto simp: Let_def install_to_slot_fields split: if_splits)
  then show "rg_capacity (m_ring s) = 256" using f1 by (simp add: amp_ring_init_def AMP_RT_RING_CAP_def)
  show "helpers_ok ea ka s" using e h1 by (auto simp: Let_def install_to_slot_fields helpers_ok_def split: if_splits)
  let ?st = "m_staging s0"
  have len: "staging_status ?st = AMP_LOAD_OK \<Longrightarrow> unat (st_length ?st) \<le> AMP_BLOB_MAX"
    by (simp add: staging_status_def split: if_splits)
  have l: "length (m_slots s0 ! 0) = AMP_BLOB_MAX" "length (m_slots s0) = 2"
    using b by (auto simp: m7_shape_def)
  have blen: "length (st_blob ?st) = 4080" using b by simp
  have iv: "length (m_ivars s0) = AMP_IVARS_BYTES" using b by (simp add: m7_shape_def)
  show "m7_rel s (k_boot s0)"
  proof (cases "staging_status ?st = AMP_LOAD_OK")
    case True
    have k: "k_boot s0 = \<lparr> k_cmds = [], k_blob = Some (take (unat (st_length ?st)) (st_blob ?st)),
        k_ivars = k_clear (unat (st_ivars_size ?st)) (m_ivars s0), k_events = [] \<rparr>"
      using True by (auto simp: k_boot_def staging_ok Let_def)
    have "m_active s = 0" "m_ivars s = k_clear (unat (st_ivars_size ?st)) (m_ivars s0)"
      "m_slots s = (m_slots s0)[0 := poke 0 (take (unat (st_length ?st)) (st_blob ?st)) (m_slots s0 ! 0)]"
      using e True f1 iv by (simp_all add: Let_def install_to_slot_fields ivars_clear)
    then show ?thesis
      using k l len [OF True] blen cc rr evs
      by (simp add: m7_rel_def m7_runs_def poke_def AMP_BLOB_MAX_def min_absorb2)
  next
    case False
    then have "k_boot s0 = \<lparr> k_cmds = [], k_blob = None, k_ivars = m_ivars s0, k_events = [] \<rparr>"
      by (auto simp: k_boot_def staging_ok Let_def)
    then show ?thesis using e False f1 evs cmd by (simp add: m7_rel_def m7_runs_def)
  qed
  show "m7_inv s"
  proof (cases "staging_status ?st = AMP_LOAD_OK")
    case True
    have "length (poke 0 (take (unat (st_length ?st)) (st_blob ?st)) (m_slots s1 ! 0)) = AMP_BLOB_MAX"
      using len [OF True] l f1 blen by simp
    moreover have "length (poke 0 (replicate (ivars_zsize z) 0) (m_ivars s1)) = AMP_IVARS_BYTES" for z
      using sh1 ivars_zsize_le [of z] by (simp add: m7_shape_def)
    ultimately show ?thesis
      using e True inv1
      by (auto simp: Let_def m7_inv_def m7_shape_def install_to_slot_fields
          dest!: set_update_subset_insert [THEN subsetD])
  qed (use e inv1 in \<open>simp add: Let_def\<close>)
qed

lemma push_inv:
  assumes "m7_inv s" "length (cmd_blob rec) = AMP_BLOB_MAX" "amp_cmd_ring_push (m_cmd s) rec = Some (ok, c)"
  shows "m7_inv (s \<lparr> m_cmd := c \<rparr>)"
proof -
  have w: "amp_cmd_ring_wf (m_cmd s)" using assms(1) by (simp add: m7_inv_def)
  obtain ok' c' where "amp_cmd_ring_put rec (m_cmd s) = Some (ok', c')" "amp_cmd_ring_wf c'"
    using cmdq.put_total [OF w] by blast
  then have "amp_cmd_ring_wf c" using assms(3) by (simp add: amp_cmd_ring_put_def)
  moreover have "cr_capacity c = cr_capacity (m_cmd s)"
    and "set (cr_recs c) \<subseteq> insert rec (set (cr_recs (m_cmd s)))"
    using assms(3) by (auto simp: amp_cmd_ring_push_wf [OF w] split: if_splits
        dest!: set_update_subset_insert [THEN subsetD])
  ultimately show ?thesis using assms(1,2) by (auto simp: m7_inv_def)
qed

lemma teardown_inv: "m7_inv s \<Longrightarrow> m7_inv (amp_m7_teardown s) \<and> m7_runs (amp_m7_teardown s) None"
  by (auto simp: m7_inv_def m7_shape_def amp_m7_teardown_def m7_runs_def)

text \<open>The invariant of a run, and one event in step with the contract.\<close>

definition m7_up :: "u32 \<Rightarrow> u32 \<Rightarrow> m7 \<Rightarrow> m7 \<Rightarrow> bool" where
  "m7_up ea ka s0 s \<longleftrightarrow> m7_inv s \<and> rg_capacity (m_ring s) = 256 \<and> m_mpu_ctrl s = m_mpu_ctrl s0 \<and> helpers_ok ea ka s"

lemma active_blob: "m7_rel s k \<Longrightarrow> m_active s < 0 \<longleftrightarrow> k_blob k = None"
  by (auto simp: m7_rel_def m7_runs_def split: option.splits)

lemma step_push:
  assumes "m7_up ea ka s0 s" "m7_rel s k" "length (cmd_blob rec) = 512"
  shows "\<exists>s'. m7_step (Ev_push rec) s = Some (fst (k_step (Ev_push rec) k), s')
    \<and> m7_up ea ka s0 s' \<and> m7_rel s' (snd (k_step (Ev_push rec) k))"
proof -
  have inv: "m7_inv s" and w: "amp_cmd_ring_wf (m_cmd s)" "unat (cr_capacity (m_cmd s)) = 2"
    using assms(1) by (simp_all add: m7_up_def m7_inv_def AMP_CMD_RING_CAP_def)
  obtain ok c where c: "amp_cmd_ring_push (m_cmd s) rec = Some (ok, c)"
      "amp_cmd_ring_contents c = amp_cmd_ring_contents (m_cmd s) @ (if ok then [rec] else [])"
      "ok \<longleftrightarrow> length (amp_cmd_ring_contents (m_cmd s)) < 2"
    using cmdq.put_total [OF w(1), of rec] w(2) by (auto simp: amp_cmd_ring_put_def)
  have "m7_inv (s \<lparr> m_cmd := c \<rparr>)"
    using push_inv [OF inv _ c(1)] assms(3) by (simp add: AMP_BLOB_MAX_def)
  then show ?thesis
    using assms(1,2) c by (cases ok) (auto simp: m7_up_def helpers_ok_def m7_rel_def)
qed

lemma fold_k_cmd_frame [simp]:
  "k_events (fold k_cmd xs k) = k_events k" "k_cmds (fold k_cmd xs k) = k_cmds k"
  by (induction xs arbitrary: k) (simp_all add: k_cmd_def)

lemma step_poll:
  assumes "m7_up ea ka s0 s" "m7_rel s k"
  shows "\<exists>s'. m7_step Ev_poll s = Some (fst (k_step Ev_poll k), s')
    \<and> m7_up ea ka s0 s' \<and> m7_rel s' (snd (k_step Ev_poll k))"
  using poll_cmd_inv [of s k] assms by (auto simp: m7_up_def m7_rel_def helpers_ok_def)

lemma step_emit:
  assumes "m7_up ea ka s0 s" "m7_rel s k"
  shows "\<exists>s'. m7_step (Ev_emit uptime v) s = Some (fst (k_step (Ev_emit uptime v) k), s')
    \<and> m7_up ea ka s0 s' \<and> m7_rel s' (snd (k_step (Ev_emit uptime v) k))"
proof -
  have w: "amp_ring_wf (m_ring s)" "unat (rg_capacity (m_ring s)) = 256"
    using assms(1) by (simp_all add: m7_up_def m7_inv_def)
  have len: "length (amp_ring_contents (m_ring s)) = length (k_events k)"
    using assms(2) by (auto simp: m7_rel_def dest: arg_cong [of _ _ length])
  obtain ok r where r: "amp_ring_emit (m_ring s) (uptime * 1000000) v = Some (ok, r)" "amp_ring_wf r"
      "unat (rg_capacity r) = 256"
      "map amp_rec_key (amp_ring_contents r) = k_events k @ (if ok then [(uptime * 1000000, v)] else [])"
      "ok \<longleftrightarrow> length (k_events k) < 256"
    using evq.put_total [OF w(1), of "(uptime * 1000000, v)"] w(2) assms(2) len
    by (auto simp: amp_ring_put_def m7_rel_def)
  have cap: "rg_capacity r = 256" using r(3) by (simp add: word_unat_eq_iff)
  have "m7_step (Ev_emit uptime v) s =
      (if k_blob k = None then Some (Done, s) else Some (Returned 0, s \<lparr> m_ring := r \<rparr>))"
    using r(1) active_blob [OF assms(2)] by (simp add: amp_emit_def amp_ktime_def)
  then show ?thesis
    using assms r cap by (cases ok) (auto simp: m7_up_def m7_inv_def helpers_ok_def m7_rel_def)
qed

lemma step_drain:
  assumes "m7_up ea ka s0 s" "m7_rel s k"
  shows "\<exists>s'. m7_step (Ev_drain n) s = Some (fst (k_step (Ev_drain n) k), s')
    \<and> m7_up ea ka s0 s' \<and> m7_rel s' (snd (k_step (Ev_drain n) k))"
proof -
  have w: "amp_ring_wf (m_ring s)" "unat (rg_capacity (m_ring s)) = 256"
    using assms(1) by (simp_all add: m7_up_def m7_inv_def)
  obtain r where "amp_ring_get n (m_ring s) = Some (take n (k_events k), r)" "amp_ring_wf r"
      "unat (rg_capacity r) = 256" "map amp_rec_key (amp_ring_contents r) = drop n (k_events k)"
    using evq.get_take [OF w(1), of n] w(2) assms(2) by (auto simp: m7_rel_def)
  then show ?thesis
    using assms by (auto simp: m7_up_def m7_inv_def helpers_ok_def m7_rel_def word_unat_eq_iff)
qed

lemma step_local:
  assumes "m7_up ea ka s0 s" "m7_rel s k" "ev = Ev_teardown \<or> ev = Ev_ivar i x"
  shows "\<exists>s'. m7_step ev s = Some (fst (k_step ev k), s') \<and> m7_up ea ka s0 s' \<and> m7_rel s' (snd (k_step ev k))"
proof (cases "ev = Ev_teardown")
  case True
  have "length (m_ivars s) = AMP_IVARS_BYTES" using assms(1) by (simp add: m7_up_def m7_inv_def m7_shape_def)
  then show ?thesis
    using True assms teardown_inv [of s]
    by (simp add: m7_up_def m7_rel_def helpers_ok_def) (simp add: amp_m7_teardown_def ivars_clear_all)
next
  case False
  then show ?thesis
    using assms active_blob [OF assms(2)]
    by (auto simp: m7_up_def m7_inv_def m7_shape_def m7_rel_def m7_runs_def helpers_ok_def split: option.splits)
qed

lemma step_simulates:
  assumes "m7_up ea ka s0 s" "m7_rel s k" "m7_event_ok ev"
  shows "\<exists>s'. m7_step ev s = Some (fst (k_step ev k), s') \<and> m7_up ea ka s0 s' \<and> m7_rel s' (snd (k_step ev k))"
proof (cases ev)
  case (Ev_push rec)
  then show ?thesis using step_push [OF assms(1,2), of rec] assms(3) by simp
next
  case (Ev_ivar i x)
  then show ?thesis using step_local [OF assms(1,2)] by blast
next
  case Ev_teardown
  then show ?thesis using step_local [OF assms(1,2)] by blast
qed (use step_poll [OF assms(1,2)] step_emit [OF assms(1,2)] step_drain [OF assms(1,2)] in simp_all)

lemma exec_simulates:
  assumes "m7_up ea ka s0 s" "m7_rel s k" "list_all m7_event_ok evs"
  shows "\<exists>s'. m7_exec evs s = Some (fst (k_exec evs k), s') \<and> m7_up ea ka s0 s' \<and> m7_rel s' (snd (k_exec evs k))"
  using assms
proof (induction evs arbitrary: s k)
  case (Cons ev evs)
  obtain s1 where 1: "m7_step ev s = Some (fst (k_step ev k), s1)" "m7_up ea ka s0 s1" "m7_rel s1 (snd (k_step ev k))"
    using step_simulates [of ea ka s0 s k ev] Cons.prems by auto
  from Cons.IH [OF 1(2,3)] Cons.prems(3) obtain s2 where
    "m7_exec evs s1 = Some (fst (k_exec evs (snd (k_step ev k))), s2)" "m7_up ea ka s0 s2"
    "m7_rel s2 (snd (k_exec evs (snd (k_step ev k))))" by auto
  then show ?case using 1 by (simp add: split_beta)
qed simp

subsection \<open>Properties\<close>

definition demo_cmd :: "u32 \<Rightarrow> u8 \<Rightarrow> amp_cmd_rec" where
  "demo_cmd ty x = \<lparr> cmd_type = ty, cmd_abi_version = 1, cmd_length = 4, cmd_ivars_size = 8,
     cmd_blob = replicate AMP_BLOB_MAX x \<rparr>"

definition demo_m7 :: m7 where
  "demo_m7 = \<lparr> m_ring = \<lparr> rg_magic = 0, rg_version = 0, rg_capacity = 0, rg_rec_size = 0, rg_prod = 0,
       rg_cons = 0, rg_pad = (0, 0), rg_slots = replicate 256 (amp_evt_rec 0 0) \<rparr>,
     m_cmd = \<lparr> cr_magic = 0, cr_version = 0, cr_capacity = 0, cr_rec_size = 0, cr_prod = 0,
       cr_cons = 0, cr_pad = (0, 0), cr_recs = replicate 2 (demo_cmd 0 0) \<rparr>,
     m_staging = \<lparr> st_magic = AMP_STAGING_MAGIC, st_abi_version = 1, st_length = 4, st_ivars_size = 0,
       st_blob = replicate 4080 7 \<rparr>,
     m_ivars = replicate AMP_IVARS_BYTES 5, m_slots = replicate 2 (replicate AMP_BLOB_MAX 0),
     m_helpers = replicate AMP_HELPER_SLOTS (0, 0), m_active = 0, m_progress = 0, m_mpu_ctrl = 5 \<rparr>"

lemma demo_m7_boot: "m7_boot demo_m7"
  by (simp add: m7_boot_def demo_m7_def m7_shape_def demo_cmd_def)

text \<open>C5: the runtime implements its contract.  After boot, for every sequence of pushes, polls, emits,
  ivar stores, teardowns and drains, nothing faults and every reply is the one of the contract: a push
  is accepted exactly while fewer than two commands wait, a poll reports and applies all waiting
  commands in order, a drain returns the oldest events with the time and value they were emitted with.
  At the end the active slot holds exactly the blob the contract says is installed (the staged blob or
  the last valid INSTALL, nothing after a TEARDOWN), the ivar bytes, the waiting commands and the
  waiting events are those of the contract, the MPU control register has its boot value, the helper
  table is intact, and the memory regions and rings keep their invariant.\<close>

theorem m7_implements_contract:
  assumes "m7_boot s0" "list_all m7_event_ok evs"
  shows "\<exists>s. m7_exec evs (snd (amp_m7_runtime_init ea ka s0)) = Some (fst (k_exec evs (k_boot s0)), s)
    \<and> m7_rel s (snd (k_exec evs (k_boot s0))) \<and> m7_inv s \<and> m_mpu_ctrl s = m_mpu_ctrl s0 \<and> helpers_ok ea ka s"
proof -
  have "amp_m7_runtime_init ea ka s0 = (fst (amp_m7_runtime_init ea ka s0), snd (amp_m7_runtime_init ea ka s0))"
    by simp
  note i = init_fields [OF this assms(1)]
  then have "m7_up ea ka s0 (snd (amp_m7_runtime_init ea ka s0))" by (simp add: m7_up_def)
  from exec_simulates [OF this i(2) assms(2)] show ?thesis unfolding m7_up_def by blast
qed

definition demo_events :: "m7_event list" where
  "demo_events = [Ev_emit 3 30, Ev_push (demo_cmd AMP_CMD_INSTALL 9), Ev_poll, Ev_emit 4 40,
     Ev_push (demo_cmd AMP_CMD_TEARDOWN 0), Ev_push (demo_cmd AMP_CMD_INSTALL 8), Ev_push (demo_cmd 0 0),
     Ev_poll, Ev_drain 9]"

theorem m7_implements_contract_witness:
  "\<exists>s. m7_exec demo_events (snd (amp_m7_runtime_init 0x100 0x200 demo_m7)) =
     Some ([Returned 0, Pushed True, Polled 1, Returned 0, Pushed True, Pushed True, Pushed False, Polled 2,
       Drained [(3000000, 30), (4000000, 40)]], s) \<and> m7_runs s (Some (replicate 4 8))"
proof -
  let ?r = "k_exec demo_events (k_boot demo_m7)"
  have "list_all m7_event_ok demo_events" by (simp add: demo_events_def demo_cmd_def AMP_BLOB_MAX_def)
  moreover have "fst ?r = [Returned 0, Pushed True, Polled 1, Returned 0, Pushed True, Pushed True, Pushed False,
       Polled 2, Drained [(3000000, 30), (4000000, 40)]]" "k_blob (snd ?r) = Some (replicate 4 8)"
    by (simp_all add: demo_events_def k_boot_def demo_m7_def k_cmd_def demo_cmd_def AMP_CMD_INSTALL_def
        AMP_CMD_TEARDOWN_def AMP_STAGING_MAGIC_def AMP_BLOB_MAX_def)
  ultimately show ?thesis
    using m7_implements_contract [OF demo_m7_boot, of demo_events "0x100" "0x200"] by (auto simp: m7_rel_def)
qed

lemma poll_contents:
  assumes "m7_inv s" "amp_cmd_ring_contents (m_cmd s) = xs"
  obtains s' where "amp_m7_poll_cmd s = Some (length xs, s')"
    "m_slots s' = m_slots (fold poll_handle xs (amp_m7_progress AMP_STEP_CMD_MAGIC s))"
    "m_ivars s' = m_ivars (fold poll_handle xs (amp_m7_progress AMP_STEP_CMD_MAGIC s))"
    "m_active s' = m_active (fold poll_handle xs (amp_m7_progress AMP_STEP_CMD_MAGIC s))"
  using poll_cmd_fold [OF assms(1)] assms(2) by force

lemma progress_fields [simp]:
  "m_slots (amp_m7_progress st s) = m_slots s" "m_ivars (amp_m7_progress st s) = m_ivars s"
  "m_active (amp_m7_progress st s) = m_active s" "m_cmd (amp_m7_progress st s) = m_cmd s"
  by (simp_all add: amp_m7_progress_def)

definition demo_push :: "amp_cmd_rec \<Rightarrow> m7 \<Rightarrow> m7" where
  "demo_push rec s = s \<lparr> m_cmd := snd (the (amp_cmd_ring_push (m_cmd s) rec)) \<rparr>"

lemma demo_push_ok:
  assumes "m7_inv s" "length (cmd_blob rec) = AMP_BLOB_MAX"
    and "length (amp_cmd_ring_contents (m_cmd s)) < 2"
  shows "m7_inv (demo_push rec s)"
    and "amp_cmd_ring_contents (m_cmd (demo_push rec s)) = amp_cmd_ring_contents (m_cmd s) @ [rec]"
proof -
  have w: "amp_cmd_ring_wf (m_cmd s)" "cr_capacity (m_cmd s) = 2"
    using assms(1) by (simp_all add: m7_inv_def AMP_CMD_RING_CAP_def)
  then obtain c where c: "amp_cmd_ring_push (m_cmd s) rec = Some (True, c)"
      "amp_cmd_ring_contents c = amp_cmd_ring_contents (m_cmd s) @ [rec]"
    using cmdq.put_room [OF w(1), of rec] assms(3) by (auto simp: amp_cmd_ring_put_def)
  show "m7_inv (demo_push rec s)" using push_inv [OF assms(1,2) c(1)] c(1) by (simp add: demo_push_def)
  show "amp_cmd_ring_contents (m_cmd (demo_push rec s)) = amp_cmd_ring_contents (m_cmd s) @ [rec]"
    using c by (simp add: demo_push_def)
qed

definition demo_up :: m7 where
  "demo_up = snd (amp_m7_runtime_init 0x100 0x200 demo_m7)"

lemma demo_up_facts: "m7_inv demo_up" "amp_cmd_ring_contents (m_cmd demo_up) = []" "m_active demo_up = 0"
proof -
  have e: "amp_m7_runtime_init 0x100 0x200 demo_m7 = (fst (amp_m7_runtime_init 0x100 0x200 demo_m7), demo_up)"
    by (simp add: demo_up_def)
  show "m7_inv demo_up" "amp_cmd_ring_contents (m_cmd demo_up) = []"
    using init_fields [OF e demo_m7_boot] by auto
  show "m_active demo_up = 0"
    by (simp add: demo_up_def amp_m7_runtime_init_def demo_m7_def staging_status_def helper_table_install_def
        amp_write_slot_def m7_defs AMP_ABI_VERSION_def AMP_BLOB_MAX_def)
qed

lemma demo_cmd_blob [simp]: "length (cmd_blob (demo_cmd ty x)) = AMP_BLOB_MAX"
  by (simp add: demo_cmd_def)

lemma demo_install_ok: "install_ok (demo_cmd ty x)"
  by (simp add: install_ok_def demo_cmd_def AMP_ABI_VERSION_def AMP_BLOB_MAX_def)

text \<open>C20: hot swap.  A poll that finds one valid INSTALL writes the blob into the other slot and makes
  it active, leaves every byte of the previously active slot as it was, and zeroes the first
  \<open>ivars_size\<close> bytes of the ivar region (all 256 when the size is 0 or larger), keeping the rest.\<close>

theorem poll_install:
  assumes "m7_inv s" "amp_cmd_ring_contents (m_cmd s) = [rec]" "m_active s = int k"
    and "cmd_type rec = AMP_CMD_INSTALL" "install_ok rec"
  shows "\<exists>s'. amp_m7_poll_cmd s = Some (1, s') \<and> m_active s' = int (1 - k)
    \<and> m_slots s' ! k = m_slots s ! k
    \<and> take (unat (cmd_length rec)) (m_slots s' ! (1 - k)) = take (unat (cmd_length rec)) (cmd_blob rec)
    \<and> m_ivars s' = replicate (ivars_zsize (cmd_ivars_size rec)) 0 @ drop (ivars_zsize (cmd_ivars_size rec)) (m_ivars s)"
proof -
  have sh: "k \<le> 1" "length (m_slots s) = 2" using assms(1,3) by (auto simp: m7_inv_def m7_shape_def)
  have "length (cmd_blob rec) = AMP_BLOB_MAX" using contents_blobs [OF assms(1)] assms(2) by simp
  then have len: "unat (cmd_length rec) \<le> length (cmd_blob rec)" using assms(5) by (simp add: install_ok_def)
  obtain s' where p: "amp_m7_poll_cmd s = Some (1, s')"
    "m_slots s' = m_slots (poll_handle rec (amp_m7_progress AMP_STEP_CMD_MAGIC s))"
    "m_ivars s' = m_ivars (poll_handle rec (amp_m7_progress AMP_STEP_CMD_MAGIC s))"
    "m_active s' = m_active (poll_handle rec (amp_m7_progress AMP_STEP_CMD_MAGIC s))"
    using poll_contents [OF assms(1,2)] by force
  have k: "(if m_active s = 0 then 1 else 0) = 1 - k" "k \<noteq> 1 - k" "1 - k < 2"
    using sh(1) assms(3) by (cases k; auto)+
  show ?thesis
    using p k sh len assms(3) by (auto simp: poll_handle_install [OF assms(4,5)] Let_def poke_def)
qed

theorem poll_install_witness:
  "\<exists>s'. amp_m7_poll_cmd (demo_push (demo_cmd AMP_CMD_INSTALL 9) demo_up) = Some (1, s') \<and> m_active s' = int 1
    \<and> m_slots s' ! 0 = m_slots (demo_push (demo_cmd AMP_CMD_INSTALL 9) demo_up) ! 0"
proof -
  let ?s = "demo_push (demo_cmd AMP_CMD_INSTALL 9) demo_up"
  have "m7_inv ?s" "amp_cmd_ring_contents (m_cmd ?s) = [demo_cmd AMP_CMD_INSTALL 9]" "m_active ?s = int 0"
    using demo_push_ok [OF demo_up_facts(1)] demo_up_facts by (simp_all add: demo_push_def)
  from poll_install [OF this _ demo_install_ok] show ?thesis by (auto simp: demo_cmd_def)
qed

text \<open>C21: two INSTALL commands drained by the same poll write both slots.  The slot that was active
  when the poll began ends up active again with the second blob in it, so its old contents are not
  preserved, unlike for a single command.\<close>

theorem poll_two_installs:
  assumes "m7_inv s" "amp_cmd_ring_contents (m_cmd s) = [r1, r2]" "m_active s = int k"
    and "cmd_type r1 = AMP_CMD_INSTALL" "install_ok r1" "cmd_type r2 = AMP_CMD_INSTALL" "install_ok r2"
  shows "\<exists>s'. amp_m7_poll_cmd s = Some (2, s') \<and> m_active s' = int k
    \<and> m_slots s' ! k = poke 0 (take (unat (cmd_length r2)) (cmd_blob r2)) (m_slots s ! k)"
proof -
  have sh: "k \<le> 1" "length (m_slots s) = 2" using assms(1,3) by (auto simp: m7_inv_def m7_shape_def)
  obtain s' where p: "amp_m7_poll_cmd s = Some (2, s')"
    "m_slots s' = m_slots (poll_handle r2 (poll_handle r1 (amp_m7_progress AMP_STEP_CMD_MAGIC s)))"
    "m_active s' = m_active (poll_handle r2 (poll_handle r1 (amp_m7_progress AMP_STEP_CMD_MAGIC s)))"
    using poll_contents [OF assms(1,2)] by force
  have "k = 0 \<or> k = 1" using sh(1) by auto
  then show ?thesis
    using p sh assms(3)
    by (auto simp: poll_handle_install [OF assms(4,5)] poll_handle_install [OF assms(6,7)] Let_def)
qed

theorem poll_two_installs_witness:
  "\<exists>s'. amp_m7_poll_cmd (demo_push (demo_cmd AMP_CMD_INSTALL 8) (demo_push (demo_cmd AMP_CMD_INSTALL 9) demo_up))
      = Some (2, s') \<and> m_active s' = int 0"
proof -
  let ?s1 = "demo_push (demo_cmd AMP_CMD_INSTALL 9) demo_up"
  let ?s = "demo_push (demo_cmd AMP_CMD_INSTALL 8) ?s1"
  have s1: "m7_inv ?s1" "amp_cmd_ring_contents (m_cmd ?s1) = [demo_cmd AMP_CMD_INSTALL 9]"
    using demo_push_ok [OF demo_up_facts(1)] demo_up_facts by simp_all
  have "m7_inv ?s" "amp_cmd_ring_contents (m_cmd ?s) = [demo_cmd AMP_CMD_INSTALL 9, demo_cmd AMP_CMD_INSTALL 8]"
    "m_active ?s = int 0"
    using demo_push_ok [OF s1(1)] s1(2) demo_up_facts(3) by (simp_all add: demo_push_def)
  from poll_two_installs [OF this _ demo_install_ok _ demo_install_ok] show ?thesis by (auto simp: demo_cmd_def)
qed

end
