(* ===== verification/Probe_Cap.thy ===== *)
theory Probe_Cap
  imports Prelude
begin

text \<open>
  The capability table that the firmware publishes in shared memory and the installer reads before
  it admits a probe (\<open>src/runtime/amp/probe_capability.c\<close>, \<open>probe_capability.h\<close>,
  \<open>probe_ctx_gen.h\<close>): publication, opening with its validity checks, and admission.

  The shared region is a list of bytes; structures are laid out at their C offsets on a
  little-endian core.  The header has a 4-byte hole at offset 36, before the 8-byte aligned
  \<open>table_hash\<close>.  A publication is the list of its stores in program order, so that a reader that
  looks between two stores can be described.  Null pointers have no counterpart.
\<close>

definition PROBE_CAP_MAGIC :: nat where "PROBE_CAP_MAGIC = 0x50414341"
definition PROBE_CTX_FORMAT_VERSION :: nat where "PROBE_CTX_FORMAT_VERSION = 1"
definition PROBE_CTX_BITMAP_WORDS :: nat where "PROBE_CTX_BITMAP_WORDS = 4"

record probe_attach_capability =
  pa_attach_id :: u32
  pa_exec_class :: u32
  pa_max_cycle_budget :: u32
  pa_bitmap_words :: u32
  pa_bitmap :: "u64 list"

record probe_capability_header =
  ph_magic :: nat
  ph_format_version :: nat
  ph_firmware_abi_version :: nat
  ph_boot_generation :: nat
  ph_build_id :: bytes
  ph_table_hash :: nat
  ph_n_attach :: nat
  ph_entry_bytes :: nat

definition HDR_BYTES :: nat where "HDR_BYTES = 56"
definition ENTRY_BYTES :: nat where "ENTRY_BYTES = 48"

text \<open>The byte image of an entry and of a table, and reading them back.\<close>

definition entry_image :: "probe_attach_capability \<Rightarrow> bytes" where
  "entry_image e = enc_le 4 (unat (pa_attach_id e)) @ enc_le 4 (unat (pa_exec_class e))
     @ enc_le 4 (unat (pa_max_cycle_budget e)) @ enc_le 4 (unat (pa_bitmap_words e))
     @ concat (map (\<lambda>w. enc_le 8 (unat w)) (pa_bitmap e))"

definition entry_at :: "bytes \<Rightarrow> nat \<Rightarrow> probe_attach_capability" where
  "entry_at mem off =
     \<lparr> pa_attach_id = of_nat (dec_le (peek mem off 4)),
       pa_exec_class = of_nat (dec_le (peek mem (off + 4) 4)),
       pa_max_cycle_budget = of_nat (dec_le (peek mem (off + 8) 4)),
       pa_bitmap_words = of_nat (dec_le (peek mem (off + 12) 4)),
       pa_bitmap = map (\<lambda>w. of_nat (dec_le (peek mem (off + 16 + 8 * w) 8))) [0..<PROBE_CTX_BITMAP_WORDS] \<rparr>"

definition header_at :: "bytes \<Rightarrow> probe_capability_header" where
  "header_at mem =
     \<lparr> ph_magic = dec_le (peek mem 0 4), ph_format_version = dec_le (peek mem 4 2),
       ph_firmware_abi_version = dec_le (peek mem 6 2), ph_boot_generation = dec_le (peek mem 8 8),
       ph_build_id = peek mem 16 20, ph_table_hash = dec_le (peek mem 40 8),
       ph_n_attach = dec_le (peek mem 48 4), ph_entry_bytes = dec_le (peek mem 52 4) \<rparr>"

text \<open>FNV-1a over the bytes of the table.\<close>

definition fnv_step :: "u8 \<Rightarrow> u64 \<Rightarrow> u64" where
  "fnv_step b h = (h XOR ucast b) * 1099511628211"

definition probe_capability_hash :: "bytes \<Rightarrow> u64" where
  "probe_capability_hash bs = fold fnv_step bs 1469598103934665603"

text \<open>The stores of a publication, in order, after the size check.\<close>

definition publish_stores :: "nat \<Rightarrow> probe_attach_capability list \<Rightarrow> bytes \<Rightarrow> u64 \<Rightarrow> (nat \<times> bytes) list" where
  "publish_stores dst_bytes entries build_id boot_generation =
     (let tbl = concat (map entry_image entries) in
      [(0, replicate dst_bytes 0),
       (4, enc_le 2 PROBE_CTX_FORMAT_VERSION),
       (6, enc_le 2 0),
       (8, enc_le 8 (unat boot_generation)),
       (16, build_id),
       (48, enc_le 4 (length entries)),
       (52, enc_le 4 ENTRY_BYTES),
       (HDR_BYTES, tbl),
       (40, enc_le 8 (unat (probe_capability_hash tbl))),
       (0, enc_le 4 PROBE_CAP_MAGIC)])"

definition do_store :: "nat \<times> bytes \<Rightarrow> bytes \<Rightarrow> bytes" where
  "do_store st mem = poke (fst st) (snd st) mem"

definition probe_capability_publish ::
    "bytes \<Rightarrow> probe_attach_capability list \<Rightarrow> bytes \<Rightarrow> u64 \<Rightarrow> nat \<times> bytes" where
  "probe_capability_publish dst entries build_id boot_generation =
     (let need = HDR_BYTES + length entries * ENTRY_BYTES in
      if length dst < need then (0, dst)
      else (need, fold do_store (publish_stores (length dst) entries build_id boot_generation) dst))"

datatype probe_cap_status =
    PROBE_CAP_NOT_PUBLISHED | PROBE_CAP_BAD_FORMAT | PROBE_CAP_TRUNCATED | PROBE_CAP_BAD_HASH

record probe_capability_view =
  pv_hdr :: probe_capability_header
  pv_entries :: "probe_attach_capability list"
  pv_n :: nat

definition probe_capability_open :: "bytes \<Rightarrow> probe_cap_status + probe_capability_view" where
  "probe_capability_open src =
     (if length src < HDR_BYTES then Inl PROBE_CAP_NOT_PUBLISHED
      else let h = header_at src in
        if ph_magic h \<noteq> PROBE_CAP_MAGIC then Inl PROBE_CAP_NOT_PUBLISHED
        else if ph_format_version h \<noteq> PROBE_CTX_FORMAT_VERSION then Inl PROBE_CAP_BAD_FORMAT
        else if ph_entry_bytes h \<noteq> ENTRY_BYTES then Inl PROBE_CAP_BAD_FORMAT
        else if HDR_BYTES + ph_n_attach h * ENTRY_BYTES > length src then Inl PROBE_CAP_TRUNCATED
        else if unat (probe_capability_hash (peek src HDR_BYTES (ph_n_attach h * ENTRY_BYTES))) \<noteq> ph_table_hash h
          then Inl PROBE_CAP_BAD_HASH
        else Inr \<lparr> pv_hdr = h,
                   pv_entries = map (\<lambda>i. entry_at src (HDR_BYTES + i * ENTRY_BYTES)) [0..<ph_n_attach h],
                   pv_n = ph_n_attach h \<rparr>)"

text \<open>Admission.\<close>

record probe_requirement =
  rq_attach_id :: u32
  rq_context_fields :: "u64 list"
  rq_cost_units :: u32
  rq_build_id :: bytes
  rq_bind_build_id :: bool

datatype probe_admit_status =
    PROBE_ADMIT_OK | PROBE_ADMIT_NO_SUCH_ATTACH | PROBE_ADMIT_MISSING_FIELD nat
  | PROBE_ADMIT_OVER_BUDGET | PROBE_ADMIT_WRONG_FIRMWARE

text \<open>\<open>lowest_bit\<close> is the inner loop that names the missing field; it is run on a non-zero word.\<close>

definition lowest_bit :: "u64 \<Rightarrow> nat" where
  "lowest_bit m = (case filter (\<lambda>b. bit m b) [0..<64] of [] \<Rightarrow> 0 | b # bs \<Rightarrow> b)"

text \<open>The two loops over the bitmap words: those the attach point publishes, and those beyond its
  numbering.\<close>

definition missing_word :: "probe_requirement \<Rightarrow> probe_attach_capability \<Rightarrow> nat \<Rightarrow> u64" where
  "missing_word req at w = rq_context_fields req ! w AND NOT (pa_bitmap at ! w)"

definition missing_published :: "probe_requirement \<Rightarrow> probe_attach_capability \<Rightarrow> nat option" where
  "missing_published req at =
     (case List.find (\<lambda>w. missing_word req at w \<noteq> 0) [0..<min PROBE_CTX_BITMAP_WORDS (unat (pa_bitmap_words at))] of
        None \<Rightarrow> None
      | Some w \<Rightarrow> Some (w * 64 + lowest_bit (missing_word req at w)))"

definition missing_beyond :: "probe_requirement \<Rightarrow> probe_attach_capability \<Rightarrow> nat option" where
  "missing_beyond req at =
     (case List.find (\<lambda>w. rq_context_fields req ! w \<noteq> 0) [unat (pa_bitmap_words at)..<PROBE_CTX_BITMAP_WORDS] of
        None \<Rightarrow> None
      | Some w \<Rightarrow> Some (w * 64 + lowest_bit (rq_context_fields req ! w)))"

fun find_attach :: "probe_attach_capability list \<Rightarrow> u32 \<Rightarrow> probe_attach_capability option" where
  "find_attach [] a = None"
| "find_attach (e # es) a = (if pa_attach_id e = a then Some e else find_attach es a)"

definition probe_capability_admit :: "probe_capability_view \<Rightarrow> probe_requirement \<Rightarrow> probe_admit_status" where
  "probe_capability_admit view req =
     (if rq_bind_build_id req \<and> rq_build_id req \<noteq> ph_build_id (pv_hdr view) then PROBE_ADMIT_WRONG_FIRMWARE
      else case find_attach (pv_entries view) (rq_attach_id req) of
        None \<Rightarrow> PROBE_ADMIT_NO_SUCH_ATTACH
      | Some at \<Rightarrow>
          (case missing_published req at of
             Some f \<Rightarrow> PROBE_ADMIT_MISSING_FIELD f
           | None \<Rightarrow>
               (case missing_beyond req at of
                  Some f \<Rightarrow> PROBE_ADMIT_MISSING_FIELD f
                | None \<Rightarrow> if rq_cost_units req > pa_max_cycle_budget at then PROBE_ADMIT_OVER_BUDGET
                           else PROBE_ADMIT_OK)))"

subsection \<open>Publication and opening\<close>

definition entry_ok :: "probe_attach_capability \<Rightarrow> bool" where
  "entry_ok e \<longleftrightarrow> length (pa_bitmap e) = PROBE_CTX_BITMAP_WORDS"

lemma length_concat_enc8: "length (concat (map (\<lambda>w. enc_le 8 (unat w)) ws)) = 8 * length ws"
  by (induction ws) auto

lemma length_entry_image: "entry_ok e \<Longrightarrow> length (entry_image e) = ENTRY_BYTES"
  by (simp add: entry_image_def entry_ok_def length_concat_enc8 PROBE_CTX_BITMAP_WORDS_def ENTRY_BYTES_def)

lemma length_table: "\<forall>e\<in>set es. entry_ok e \<Longrightarrow> length (concat (map entry_image es)) = length es * ENTRY_BYTES"
  by (induction es) (auto simp: length_entry_image)

lemma peek_peek: "a + n \<le> m \<Longrightarrow> peek (peek mem off m) a n = peek mem (off + a) n"
  by (simp add: peek_def drop_take min_absorb1 add.commute)

lemma entry_at_peek: "entry_at mem off = entry_at (peek mem off ENTRY_BYTES) 0"
proof -
  have w: "peek (peek mem off 48) (16 + 8 * w) 8 = peek mem (off + 16 + 8 * w) 8" if "w < 4" for w
    using that by (simp add: peek_peek add.assoc)
  have p: "peek (peek mem off 48) 0 4 = peek mem off 4" "peek (peek mem off 48) 4 4 = peek mem (off + 4) 4"
    "peek (peek mem off 48) 8 4 = peek mem (off + 8) 4" "peek (peek mem off 48) 12 4 = peek mem (off + 12) 4"
    by (simp_all add: peek_peek)
  show ?thesis
    by (simp add: entry_at_def ENTRY_BYTES_def PROBE_CTX_BITMAP_WORDS_def w p)
qed

lemma peek_append: "peek (a @ b) (length a) n = take n b" "off + n \<le> length a \<Longrightarrow> peek (a @ b) off n = peek a off n"
  by (simp_all add: peek_def)

lemma peek_append_skip: "length a \<le> off \<Longrightarrow> peek (a @ b) off n = peek b (off - length a) n"
  by (simp add: peek_def)

lemma of_nat_dec_enc32: "of_nat (dec_le (enc_le 4 (unat (w :: u32)))) = w"
  using unat_less [of w] by (simp add: dec_enc_le)

lemma of_nat_dec_enc64: "of_nat (dec_le (enc_le 8 (unat (w :: u64)))) = w"
  using unat_less [of w] by (simp add: dec_enc_le)

lemma peek_enc8:
  "k < length ws \<Longrightarrow> peek (concat (map (\<lambda>w. enc_le 8 (unat w)) ws)) (8 * k) 8 = enc_le 8 (unat (ws ! k))"
proof (induction ws arbitrary: k)
  case (Cons w ws)
  then show ?case by (cases k) (simp_all add: peek_append_skip, simp add: peek_def)
qed simp

lemma entry_roundtrip:
  assumes "entry_ok e"
  shows "entry_at (entry_image e) 0 = e"
proof -
  let ?bm = "concat (map (\<lambda>w. enc_le 8 (unat w)) (pa_bitmap e))"
  have l: "length (pa_bitmap e) = 4" using assms by (simp add: entry_ok_def PROBE_CTX_BITMAP_WORDS_def)
  have b: "peek (entry_image e) (16 + 8 * w) 8 = enc_le 8 (unat (pa_bitmap e ! w))" if "w < 4" for w
    using peek_enc8 [of w "pa_bitmap e"] that l by (simp add: entry_image_def peek_append_skip)
  have f: "peek (entry_image e) 0 4 = enc_le 4 (unat (pa_attach_id e))"
    "peek (entry_image e) 4 4 = enc_le 4 (unat (pa_exec_class e))"
    "peek (entry_image e) 8 4 = enc_le 4 (unat (pa_max_cycle_budget e))"
    "peek (entry_image e) 12 4 = enc_le 4 (unat (pa_bitmap_words e))"
    by (simp_all add: entry_image_def peek_append_skip) (simp_all add: peek_def)
  have "map (\<lambda>w. of_nat (dec_le (peek (entry_image e) (16 + 8 * w) 8))) [0..<4] = pa_bitmap e"
    by (rule nth_equalityI) (simp_all add: l b of_nat_dec_enc64)
  then show ?thesis
    by (simp add: entry_at_def f of_nat_dec_enc32 PROBE_CTX_BITMAP_WORDS_def)
qed

lemma peek_table:
  assumes "\<forall>e\<in>set es. entry_ok e" "i < length es"
  shows "peek (concat (map entry_image es)) (i * ENTRY_BYTES) ENTRY_BYTES = entry_image (es ! i)"
  using assms
proof (induction es arbitrary: i)
  case (Cons e es)
  then show ?case
    by (cases i) (simp_all add: length_entry_image peek_append_skip, simp add: peek_def length_entry_image)
qed simp

text \<open>The region after a complete publication, field by field.\<close>

definition published :: "bytes \<Rightarrow> probe_attach_capability list \<Rightarrow> bytes \<Rightarrow> u64 \<Rightarrow> bytes" where
  "published dst entries build_id gen = fold do_store (publish_stores (length dst) entries build_id gen) dst"

lemma published_fields:
  fixes gen :: u64 and dst :: bytes
  assumes es: "\<forall>e\<in>set entries. entry_ok e" and n: "length entries < 2 ^ 32" and b: "length build_id = 20"
    and room: "HDR_BYTES + length entries * ENTRY_BYTES \<le> length dst"
  defines "mem \<equiv> published dst entries build_id gen" and "tbl \<equiv> concat (map entry_image entries)"
  shows "length mem = length dst"
    and "header_at mem = \<lparr> ph_magic = PROBE_CAP_MAGIC, ph_format_version = PROBE_CTX_FORMAT_VERSION,
       ph_firmware_abi_version = 0, ph_boot_generation = unat gen, ph_build_id = build_id,
       ph_table_hash = unat (probe_capability_hash tbl), ph_n_attach = length entries, ph_entry_bytes = ENTRY_BYTES \<rparr>"
    and "peek mem HDR_BYTES (length entries * ENTRY_BYTES) = tbl"
proof -
  have lt: "length tbl = length entries * 48" using length_table [OF es] by (simp add: tbl_def ENTRY_BYTES_def)
  have r: "56 + length entries * 48 \<le> length dst" using room by (simp add: HDR_BYTES_def ENTRY_BYTES_def)
  define m1 where "m1 = poke 0 (replicate (length dst) 0) dst"
  define m2 where "m2 = poke 4 (enc_le 2 PROBE_CTX_FORMAT_VERSION) m1"
  define m3 where "m3 = poke 6 (enc_le 2 0) m2"
  define m4 where "m4 = poke 8 (enc_le 8 (unat gen)) m3"
  define m5 where "m5 = poke 16 build_id m4"
  define m6 where "m6 = poke 48 (enc_le 4 (length entries)) m5"
  define m7 where "m7 = poke 52 (enc_le 4 ENTRY_BYTES) m6"
  define m8 where "m8 = poke 56 tbl m7"
  define m9 where "m9 = poke 40 (enc_le 8 (unat (probe_capability_hash tbl))) m8"
  have mem: "mem = poke 0 (enc_le 4 PROBE_CAP_MAGIC) m9"
    by (simp add: mem_def published_def publish_stores_def do_store_def Let_def tbl_def HDR_BYTES_def
        m1_def m2_def m3_def m4_def m5_def m6_def m7_def m8_def m9_def)
  note defs = mem m9_def m8_def m7_def m6_def m5_def m4_def m3_def m2_def m1_def
  show "length mem = length dst" using r b lt by (simp add: defs)
  have ug: "unat gen < 256 ^ 8" "unat (probe_capability_hash tbl) < 256 ^ 8"
    using unat_less [of gen] unat_less [of "probe_capability_hash tbl"] by simp_all
  have p: "peek mem 0 4 = enc_le 4 PROBE_CAP_MAGIC" "peek mem 4 2 = enc_le 2 PROBE_CTX_FORMAT_VERSION"
    "peek mem 6 2 = enc_le 2 0" "peek mem 8 8 = enc_le 8 (unat gen)" "peek mem 16 20 = build_id"
    "peek mem 40 8 = enc_le 8 (unat (probe_capability_hash tbl))" "peek mem 48 4 = enc_le 4 (length entries)"
    "peek mem 52 4 = enc_le 4 ENTRY_BYTES" "peek mem 56 (length entries * 48) = tbl"
    using r b lt by (simp_all add: defs peek_poke_same peek_poke_after peek_poke_before)
  show "header_at mem = \<lparr> ph_magic = PROBE_CAP_MAGIC, ph_format_version = PROBE_CTX_FORMAT_VERSION,
       ph_firmware_abi_version = 0, ph_boot_generation = unat gen, ph_build_id = build_id,
       ph_table_hash = unat (probe_capability_hash tbl), ph_n_attach = length entries, ph_entry_bytes = ENTRY_BYTES \<rparr>"
    using n ug by (simp add: header_at_def p dec_enc_le PROBE_CAP_MAGIC_def PROBE_CTX_FORMAT_VERSION_def ENTRY_BYTES_def)
  show "peek mem HDR_BYTES (length entries * ENTRY_BYTES) = tbl"
    using p(9) by (simp add: HDR_BYTES_def ENTRY_BYTES_def)
qed

text \<open>Stores that stay clear of the magic word leave it alone.\<close>

lemma fold_store_magic:
  assumes "\<forall>(off, bs)\<in>set sts. 4 \<le> off \<and> off + length bs \<le> length mem"
  shows "peek (fold do_store sts mem) 0 4 = peek mem 0 4 \<and> length (fold do_store sts mem) = length mem"
  using assms
proof (induction sts arbitrary: mem)
  case (Cons st sts)
  obtain off bs where st: "st = (off, bs)" by (cases st)
  have b: "4 \<le> off" "off + length bs \<le> length mem" using Cons.prems st by auto
  have l: "length (do_store st mem) = length mem" using b by (simp add: do_store_def st)
  have "peek (do_store st mem) 0 4 = peek mem 0 4"
    using b by (simp add: do_store_def st peek_poke_before)
  then show ?case using Cons.IH [of "do_store st mem"] Cons.prems l by simp
qed simp

lemma dec_le_zeros: "dec_le (replicate n 0) = 0"
  by (induction n) simp_all

lemma length_publish_stores: "length (publish_stores d es b g) = 10"
  by (simp add: publish_stores_def Let_def)

lemma lowest_bit_spec:
  assumes "m \<noteq> 0"
  shows "lowest_bit m < 64 \<and> bit m (lowest_bit m) \<and> (\<forall>b < lowest_bit m. \<not> bit m b)"
proof -
  obtain b where "bit m b" using assms by (auto simp: bit_eq_iff)
  moreover from this have "b < 64" by (auto dest: bit_imp_le_length)
  ultimately have ne: "filter (bit m) [0..<64] \<noteq> []" by (auto simp: filter_empty_conv)
  then obtain x xs where x: "filter (bit m) [0..<64] = x # xs" by (meson neq_Nil_conv)
  have s: "sorted (filter (bit m) [0..<64])" by (rule sorted_wrt_filter [OF sorted_upt])
  have "x \<in> set (filter (bit m) [0..<64])" unfolding x by simp
  then have xin: "x < 64" "bit m x" by auto
  have "\<not> bit m b" if "b < x" for b
  proof
    assume "bit m b"
    then have "b \<in> set (filter (bit m) [0..<64])" using that xin by simp
    then show False using s that unfolding x by auto
  qed
  then show ?thesis using xin by (simp add: lowest_bit_def x)
qed

definition requested :: "probe_requirement \<Rightarrow> nat \<Rightarrow> bool" where
  "requested req f \<longleftrightarrow> bit (rq_context_fields req ! (f div 64)) (f mod 64)"

definition provided :: "probe_attach_capability \<Rightarrow> nat \<Rightarrow> bool" where
  "provided at f \<longleftrightarrow> f div 64 < unat (pa_bitmap_words at) \<and> bit (pa_bitmap at ! (f div 64)) (f mod 64)"

lemma find_NoneD: "List.find P xs = None \<Longrightarrow> x \<in> set xs \<Longrightarrow> \<not> P x"
  by (simp add: find_None_iff)

lemma find_SomeD: "List.find P xs = Some x \<Longrightarrow> P x \<and> x \<in> set xs"
  by (auto simp: find_Some_iff)

lemma nothing_missing:
  assumes "missing_published req at = None" "missing_beyond req at = None" "f < 256" "requested req f"
  shows "provided at f"
proof (cases "f div 64 < unat (pa_bitmap_words at)")
  case True
  have "f div 64 < 4" using assms(3) by simp
  then have "missing_word req at (f div 64) = 0"
    using assms(1) True
    by (auto simp: missing_published_def PROBE_CTX_BITMAP_WORDS_def split: option.splits dest!: find_NoneD)
  then have "\<not> bit (missing_word req at (f div 64)) (f mod 64)" by simp
  then show ?thesis
    using assms(4) True by (simp add: missing_word_def requested_def provided_def bit_simps)
next
  case False
  have "f div 64 \<in> set [unat (pa_bitmap_words at)..<PROBE_CTX_BITMAP_WORDS]"
    using assms(3) False by (simp add: PROBE_CTX_BITMAP_WORDS_def)
  then have "rq_context_fields req ! (f div 64) = 0"
    using assms(2) by (auto simp: missing_beyond_def split: option.splits dest!: find_NoneD)
  then show ?thesis using assms(4) by (simp add: requested_def)
qed

lemma missing_id:
  assumes "missing_published req at = Some f \<or> missing_beyond req at = Some f"
  shows "f < 256 \<and> requested req f \<and> \<not> provided at f"
  using assms
proof
  assume "missing_published req at = Some f"
  then obtain w where w: "w < 4" "w < unat (pa_bitmap_words at)" "missing_word req at w \<noteq> 0"
      "f = w * 64 + lowest_bit (missing_word req at w)"
    by (auto simp: missing_published_def PROBE_CTX_BITMAP_WORDS_def split: option.splits dest!: find_SomeD)
  note lb = lowest_bit_spec [OF w(3)]
  have d: "f div 64 = w" "f mod 64 = lowest_bit (missing_word req at w)" using w(4) lb by auto
  show ?thesis
    using lb w(1,4) unfolding requested_def provided_def d by (auto simp: missing_word_def bit_simps)
next
  assume "missing_beyond req at = Some f"
  then obtain w where w: "w < 4" "\<not> w < unat (pa_bitmap_words at)" "rq_context_fields req ! w \<noteq> 0"
      "f = w * 64 + lowest_bit (rq_context_fields req ! w)"
    by (auto simp: missing_beyond_def PROBE_CTX_BITMAP_WORDS_def split: option.splits dest!: find_SomeD)
  note lb = lowest_bit_spec [OF w(3)]
  have d: "f div 64 = w" "f mod 64 = lowest_bit (rq_context_fields req ! w)" using w(4) lb by auto
  show ?thesis using lb w unfolding requested_def provided_def d by auto
qed

subsection \<open>Properties\<close>

definition demo_entry :: probe_attach_capability where
  "demo_entry = \<lparr> pa_attach_id = 1, pa_exec_class = 1, pa_max_cycle_budget = 500, pa_bitmap_words = 4,
     pa_bitmap = [0xe, 0, 0, 0] \<rparr>"

lemma demo_entry_ok: "entry_ok demo_entry"
  by (simp add: entry_ok_def demo_entry_def PROBE_CTX_BITMAP_WORDS_def)

text \<open>C9: publishing then opening gives back the table.  For a region large enough to hold it,
  \<open>probe_capability_open\<close> accepts what \<open>probe_capability_publish\<close> wrote and returns the same
  entries, build id and boot generation, whatever the region held before.\<close>

theorem publish_open_roundtrip:
  assumes "\<forall>e\<in>set entries. entry_ok e" "length entries < 2 ^ 32" "length build_id = 20"
    and "HDR_BYTES + length entries * ENTRY_BYTES \<le> length dst"
  shows "\<exists>mem v. probe_capability_publish dst entries build_id gen = (HDR_BYTES + length entries * ENTRY_BYTES, mem)
    \<and> probe_capability_open mem = Inr v \<and> pv_entries v = entries \<and> pv_n v = length entries
    \<and> ph_build_id (pv_hdr v) = build_id \<and> ph_boot_generation (pv_hdr v) = unat gen"
proof -
  let ?m = "published dst entries build_id gen"
  note f = published_fields [OF assms, of gen]
  have e: "entry_at ?m (HDR_BYTES + i * ENTRY_BYTES) = entries ! i" if i: "i < length entries" for i
  proof -
    have "peek ?m (HDR_BYTES + i * ENTRY_BYTES) ENTRY_BYTES
        = peek (concat (map entry_image entries)) (i * ENTRY_BYTES) ENTRY_BYTES"
      using peek_peek [of "i * ENTRY_BYTES" ENTRY_BYTES "length entries * ENTRY_BYTES" ?m HDR_BYTES] i f(3)
      by (simp add: ENTRY_BYTES_def)
    also have "\<dots> = entry_image (entries ! i)" by (rule peek_table [OF assms(1) i])
    finally show ?thesis
      using entry_roundtrip [of "entries ! i"] assms(1) i by (subst entry_at_peek) simp
  qed
  have "map (\<lambda>i. entry_at ?m (HDR_BYTES + i * ENTRY_BYTES)) [0..<length entries] = entries"
    by (rule nth_equalityI) (simp_all add: e)
  then have "\<exists>v. probe_capability_open ?m = Inr v \<and> pv_entries v = entries \<and> pv_n v = length entries
      \<and> ph_build_id (pv_hdr v) = build_id \<and> ph_boot_generation (pv_hdr v) = unat gen"
    using f assms(4) by (simp add: probe_capability_open_def Let_def)
  then show ?thesis
    using assms(4) by (simp add: probe_capability_publish_def Let_def flip: published_def)
qed

theorem publish_open_roundtrip_witness:
  "\<exists>mem v. probe_capability_publish (replicate 104 0xff) [demo_entry] (replicate 20 3) 7 = (104, mem)
    \<and> probe_capability_open mem = Inr v \<and> pv_entries v = [demo_entry] \<and> pv_n v = 1"
  using publish_open_roundtrip [of "[demo_entry]" "replicate 20 3" "replicate 104 0xff" 7] demo_entry_ok
  by (auto simp: HDR_BYTES_def ENTRY_BYTES_def)

text \<open>C22: the magic is published last.  A reader that looks at the region after the initial clearing
  and before the final store sees a table that is not published, at every point in between.\<close>

theorem publish_torn_read:
  assumes "\<forall>e\<in>set entries. entry_ok e" "length build_id = 20"
    and "HDR_BYTES + length entries * ENTRY_BYTES \<le> length dst"
    and "1 \<le> k" "k < length (publish_stores (length dst) entries build_id gen)"
  shows "probe_capability_open (fold do_store (take k (publish_stores (length dst) entries build_id gen)) dst)
    = Inl PROBE_CAP_NOT_PUBLISHED"
proof -
  let ?st = "publish_stores (length dst) entries build_id gen"
  let ?m1 = "replicate (length dst) 0 :: bytes"
  obtain j where k: "k = Suc j" "j < 9" using assms(4,5) by (cases k) (auto simp: publish_stores_def Let_def)
  have st: "?st = (0, ?m1) # tl ?st" by (simp add: publish_stores_def Let_def)
  have "fold do_store (take k ?st) dst = fold do_store (take j (tl ?st)) (do_store (0, ?m1) dst)"
    by (subst st) (simp add: k(1))
  then have m: "fold do_store (take k ?st) dst = fold do_store (take j (tl ?st)) ?m1"
    by (simp add: do_store_def poke_def)
  have "set (take j (tl ?st)) \<subseteq> set (take 8 (tl ?st))" using k(2) by (intro set_take_subset_set_take) simp
  moreover have "\<forall>(off, bs)\<in>set (take 8 (tl ?st)). 4 \<le> off \<and> off + length bs \<le> length ?m1"
    using assms(2,3) length_table [OF assms(1)]
    by (simp add: publish_stores_def Let_def HDR_BYTES_def ENTRY_BYTES_def)
  ultimately have "\<forall>(off, bs)\<in>set (take j (tl ?st)). 4 \<le> off \<and> off + length bs \<le> length ?m1" by blast
  from fold_store_magic [OF this]
  have "peek (fold do_store (take k ?st) dst) 0 4 = replicate 4 0" "length (fold do_store (take k ?st) dst) = length dst"
    using assms(3) unfolding m by (simp_all add: peek_def HDR_BYTES_def)
  then show ?thesis
    by (simp add: probe_capability_open_def header_at_def Let_def PROBE_CAP_MAGIC_def dec_le_zeros)
qed

theorem publish_torn_read_witness:
  "probe_capability_open (fold do_store (take 8 (publish_stores 104 [demo_entry] (replicate 20 3) 7)) (replicate 104 0xff))
    = Inl PROBE_CAP_NOT_PUBLISHED"
  using publish_torn_read [of "[demo_entry]" "replicate 20 3" "replicate 104 0xff" 8 7] demo_entry_ok
  by (simp add: HDR_BYTES_def ENTRY_BYTES_def length_publish_stores)

text \<open>C23: admission is exact.  \<open>probe_capability_admit\<close> answers OK if and only if the firmware is the
  bound one (when the probe is bound), the attach point exists, every requested context field is
  provided there, and the cost fits the budget; and a reported missing field id is a field that was
  requested and is not provided.\<close>

theorem admit_exact:
  "(probe_capability_admit view req = PROBE_ADMIT_OK \<longleftrightarrow>
      (rq_bind_build_id req \<longrightarrow> rq_build_id req = ph_build_id (pv_hdr view))
      \<and> (\<exists>at. find_attach (pv_entries view) (rq_attach_id req) = Some at
          \<and> (\<forall>f<256. requested req f \<longrightarrow> provided at f) \<and> rq_cost_units req \<le> pa_max_cycle_budget at))
   \<and> (\<forall>f. probe_capability_admit view req = PROBE_ADMIT_MISSING_FIELD f \<longrightarrow>
        (\<exists>at. find_attach (pv_entries view) (rq_attach_id req) = Some at \<and> requested req f \<and> \<not> provided at f))"
proof (cases "find_attach (pv_entries view) (rq_attach_id req)")
  case None
  then show ?thesis by (simp add: probe_capability_admit_def)
next
  case (Some at)
  show ?thesis
  proof (cases "missing_published req at = None \<and> missing_beyond req at = None")
    case True
    then have "\<forall>f<256. requested req f \<longrightarrow> provided at f" using nothing_missing by blast
    then show ?thesis using True Some by (auto simp: probe_capability_admit_def)
  next
    case False
    then obtain f where f: "missing_published req at = Some f \<or> missing_published req at = None \<and> missing_beyond req at = Some f"
      by (cases "missing_published req at"; cases "missing_beyond req at") auto
    then have "f < 256 \<and> requested req f \<and> \<not> provided at f" using missing_id by blast
    then show ?thesis using f Some by (auto simp: probe_capability_admit_def)
  qed
qed

definition demo_view :: probe_capability_view where
  "demo_view = \<lparr> pv_hdr = header_at (replicate 56 0), pv_entries = [demo_entry], pv_n = 1 \<rparr>"

definition demo_req :: probe_requirement where
  "demo_req = \<lparr> rq_attach_id = 1, rq_context_fields = [0x12, 0, 0, 0], rq_cost_units = 3, rq_build_id = [],
     rq_bind_build_id = False \<rparr>"

lemma demo_admit: "probe_capability_admit demo_view demo_req = PROBE_ADMIT_MISSING_FIELD 4"
  by code_simp

theorem admit_exact_witness:
  "\<exists>at. find_attach (pv_entries demo_view) (rq_attach_id demo_req) = Some at \<and> requested demo_req 4 \<and> \<not> provided at 4"
  using admit_exact [of demo_view demo_req] demo_admit by blast

end
