(* ===== verification/Otlp_Http.thy ===== *)
theory Otlp_Http
  imports Prelude
begin

text \<open>
  The HTTP side of the exporter (\<open>src/runtime/otlp/otlp_http.c\<close> and \<open>otlp_http.h\<close>): splitting an
  endpoint URL, the \<open>k1=v1,k2=v2\<close> grammar of the header and resource environment variables, and
  one POST with its connection retries.

  Environment variables, sockets, TLS and zlib are arguments: the value of a variable, the outcome
  of each connection attempt, of the writes and of the reads, and the compressed body if any.
\<close>

subsection \<open>Endpoints\<close>

definition otlp_scheme :: "string \<Rightarrow> string \<times> string" where
  "otlp_scheme endpoint =
     (if c_starts endpoint ''http://'' then (drop 7 endpoint, ''4318'')
      else if c_starts endpoint ''https://'' then (drop 8 endpoint, ''443'')
      else if c_starts endpoint ''grpcs://'' then (drop 8 endpoint, ''4317'')
      else if c_starts endpoint ''grpc://'' then (drop 7 endpoint, ''4317'')
      else (endpoint, ''4318''))"

definition otlp_http_parse_endpoint :: "string \<Rightarrow> nat \<Rightarrow> nat \<Rightarrow> (string \<times> string) option" where
  "otlp_http_parse_endpoint endpoint hostlen portlen =
     (if hostlen = 0 \<or> portlen = 0 then None
      else let (p, defport) = otlp_scheme endpoint;
               host = c_span p '':/'';
               rest = c_rest p '':/''
           in if length host = 0 \<or> length host \<ge> hostlen then None
              else if rest \<noteq> [] \<and> hd rest = CHR '':'' then
                (let port = c_span (tl rest) ''/'' in
                 if length port = 0 \<or> length port \<ge> portlen then None else Some (host, port))
              else Some (host, c_trunc portlen defport))"

definition otlp_http_endpoint_path :: "string \<Rightarrow> nat \<Rightarrow> string option" where
  "otlp_http_endpoint_path endpoint pathlen =
     (if pathlen = 0 then None
      else let p = fst (otlp_scheme endpoint) in
        case c_strchr p CHR ''/'' of
          None \<Rightarrow> Some []
        | Some i \<Rightarrow> if length (drop i p) + 1 > pathlen then None else Some (drop i p))"

subsection \<open>Key-value lists\<close>

record otlp_kv =
  kv_key :: string
  kv_val :: string

definition KV_KEY_CAP :: nat where "KV_KEY_CAP = 128"
definition KV_VAL_CAP :: nat where "KV_VAL_CAP = 512"

definition is_blank :: "char \<Rightarrow> bool" where
  "is_blank c \<longleftrightarrow> c = CHR '' '' \<or> c = CHR 0x09"

definition trim_blank :: "string \<Rightarrow> string" where
  "trim_blank s = rev (dropWhile is_blank (rev (dropWhile is_blank s)))"

definition kv_segment :: "string \<Rightarrow> otlp_kv option" where
  "kv_segment seg =
     (case c_strchr seg CHR ''='' of
        None \<Rightarrow> None
      | Some i \<Rightarrow>
          (let kv = \<lparr> kv_key = c_trunc KV_KEY_CAP (trim_blank (take i seg)),
                      kv_val = c_trunc KV_VAL_CAP (trim_blank (drop (i + 1) seg)) \<rparr>
           in if kv_key kv = [] then None else Some kv))"

definition skip_sep :: "string \<Rightarrow> string" where
  "skip_sep p = dropWhile (\<lambda>c. c = CHR '','' \<or> c = CHR '' '') p"

lemma kv_next_shorter:
  assumes "q = skip_sep p" "q \<noteq> []"
  shows "length (drop 1 (c_rest q '','')) < length p"
proof -
  have q: "length q \<le> length p" using assms(1) by (simp add: skip_sep_def length_dropWhile_le)
  have r: "length (c_rest q '','') \<le> length q" by (simp add: c_rest_def length_dropWhile_le)
  show ?thesis using assms(2) q r by (cases "c_rest q '',''"; cases q) auto
qed

function kv_list :: "string \<Rightarrow> nat \<Rightarrow> otlp_kv list" where
  "kv_list p room =
     (if p = [] \<or> room = 0 then []
      else let q = skip_sep p in
        if q = [] then []
        else let seg = c_span q '',''; next = drop 1 (c_rest q '','') in
          case kv_segment seg of
            Some kv \<Rightarrow> kv # kv_list next (room - 1)
          | None \<Rightarrow> kv_list next room)"
  by pat_completeness auto

termination
  by (relation "measure (\<lambda>(p, room). length p)") (use kv_next_shorter in auto)

declare kv_list.simps [simp del]

definition otlp_env_kv_list :: "string option \<Rightarrow> nat \<Rightarrow> otlp_kv list" where
  "otlp_env_kv_list env max_n =
     (case env of None \<Rightarrow> [] | Some e \<Rightarrow> if e = [] \<or> max_n = 0 then [] else kv_list e max_n)"

definition otlp_env_headers :: "string option \<Rightarrow> nat \<Rightarrow> otlp_kv list" where
  "otlp_env_headers env max_n = otlp_env_kv_list env max_n"

subsection \<open>One POST\<close>

definition crlf :: string where "crlf = [CHR 0x0D, CHR 0x0A]"
definition HEADER_CAP :: nat where "HEADER_CAP = 2048"

definition post_request :: "string \<Rightarrow> string \<Rightarrow> string \<Rightarrow> string \<Rightarrow> nat \<Rightarrow> bool \<Rightarrow> string" where
  "post_request host port path content_type n gzipped =
     ''POST '' @ path @ '' HTTP/1.1'' @ crlf
     @ ''Host: '' @ host @ '':'' @ port @ crlf
     @ ''User-Agent: spinel-ebpf-otlp/0'' @ crlf
     @ ''Content-Type: '' @ content_type @ crlf
     @ ''Content-Length: '' @ dec_of n @ crlf
     @ ''Connection: close'' @ crlf
     @ (if gzipped then ''Content-Encoding: gzip'' @ crlf else [])"

fun add_headers :: "otlp_kv list \<Rightarrow> string \<Rightarrow> string option" where
  "add_headers [] h = Some h"
| "add_headers (kv # kvs) h =
     (let h' = h @ kv_key kv @ '': '' @ kv_val kv @ crlf in
      if length h' \<ge> HEADER_CAP then None else add_headers kvs h')"

text \<open>Connection attempts: the outcome and the sleeps (in milliseconds) between attempts.  The shift
  \<open>100L << attempt\<close> is exact below attempt 57; every caller in the repository asks for 5 attempts.\<close>

definition backoff_ms :: "nat \<Rightarrow> nat" where
  "backoff_ms attempt = (let ms = 100 * 2 ^ attempt in if ms > 2000 then 2000 else ms)"

fun connect_retry :: "(nat \<Rightarrow> bool) \<Rightarrow> nat \<Rightarrow> nat \<Rightarrow> bool \<times> nat list" where
  "connect_retry ok attempt 0 = (False, [])"
| "connect_retry ok attempt (Suc left) =
     (if ok attempt then (True, [])
      else let (r, sl) = connect_retry ok (attempt + 1) left in (r, backoff_ms attempt # sl))"

text \<open>The response: reads until the status line is complete, the peer closes, or 1023 bytes.\<close>

datatype read_result = Read_data string | Read_eintr | Read_error

definition RESP_CAP :: nat where "RESP_CAP = 1024"

fun read_status :: "read_result list \<Rightarrow> string \<Rightarrow> string option" where
  "read_status [] got = Some got"
| "read_status (r # rs) got =
     (if \<not> length got < RESP_CAP - 1 then Some got
      else case r of
        Read_error \<Rightarrow> None
      | Read_eintr \<Rightarrow> read_status rs got
      | Read_data d \<Rightarrow>
          (let d' = take (RESP_CAP - 1 - length got) d in
           if d' = [] then Some got
           else if CHR 0x0A \<in> set (got @ d') then Some (got @ d')
           else read_status rs (got @ d')))"

definition parse_status :: "string \<Rightarrow> int option" where
  "parse_status resp =
     (if \<not> c_starts resp ''HTTP/'' then None
      else case scan_int (drop 5 resp) of
        None \<Rightarrow> None
      | Some (_, r1) \<Rightarrow>
          if r1 = [] \<or> hd r1 \<noteq> CHR ''.'' then None
          else case scan_int (tl r1) of
            None \<Rightarrow> None
          | Some (_, r2) \<Rightarrow> map_option fst (scan_int r2))"

datatype post_error = Connect_failed | Tls_failed | Header_too_long | Send_failed | Recv_failed | Malformed_response

record http_world =
  hw_connect :: "nat \<Rightarrow> bool"
  hw_tls_ok :: bool
  hw_gzip :: "bytes \<Rightarrow> bytes option"
  hw_headers :: "string option"
  hw_write_ok :: bool
  hw_reads :: "read_result list"

definition otlp_http_post :: "http_world \<Rightarrow> string \<Rightarrow> string \<Rightarrow> string \<Rightarrow> string \<Rightarrow> bytes \<Rightarrow> bool \<Rightarrow> int \<Rightarrow>
    (post_error + int) \<times> (string \<times> bytes) option" where
  "otlp_http_post w host port path content_type body tls max_retries =
     (let retries = (if max_retries \<le> 0 then 5 else nat max_retries) in
      if \<not> fst (connect_retry (hw_connect w) 0 retries) then (Inl Connect_failed, None)
      else if tls \<and> \<not> hw_tls_ok w then (Inl Tls_failed, None)
      else
        let (sendb, gzipped) = (case hw_gzip w body of Some z \<Rightarrow> (z, True) | None \<Rightarrow> (body, False));
            h0 = post_request host port path content_type (length sendb) gzipped
        in if length h0 \<ge> HEADER_CAP then (Inl Header_too_long, None)
           else case add_headers (otlp_env_headers (hw_headers w) 16) h0 of
             None \<Rightarrow> (Inl Header_too_long, None)
           | Some h1 \<Rightarrow>
               if length h1 + 2 \<ge> HEADER_CAP then (Inl Header_too_long, None)
               else if \<not> hw_write_ok w then (Inl Send_failed, None)
               else
                 (case read_status (hw_reads w) [] of
                    None \<Rightarrow> (Inl Recv_failed, Some (h1 @ crlf, sendb))
                  | Some resp \<Rightarrow>
                      (case parse_status resp of
                         None \<Rightarrow> (Inl Malformed_response, Some (h1 @ crlf, sendb))
                       | Some code \<Rightarrow> (Inr code, Some (h1 @ crlf, sendb)))))"

subsection \<open>Facts\<close>

lemma otlp_scheme_known:
  "otlp_scheme (''http://'' @ r) = (r, ''4318'')" "otlp_scheme (''https://'' @ r) = (r, ''443'')"
  "otlp_scheme (''grpc://'' @ r) = (r, ''4317'')" "otlp_scheme (''grpcs://'' @ r) = (r, ''4317'')"
  by (simp_all add: otlp_scheme_def c_starts_def)

definition known_scheme :: "string \<Rightarrow> bool" where
  "known_scheme sch \<longleftrightarrow> sch \<in> {''http://'', ''https://'', ''grpc://'', ''grpcs://''}"

lemma otlp_scheme_fst: "known_scheme sch \<Longrightarrow> fst (otlp_scheme (sch @ r)) = r"
  using otlp_scheme_known [of r] by (auto simp: known_scheme_def)

definition url_path :: "string \<Rightarrow> bool" where
  "url_path path \<longleftrightarrow> path = [] \<or> hd path = CHR ''/''"

definition url_host :: "string \<Rightarrow> bool" where
  "url_host h \<longleftrightarrow> h \<noteq> [] \<and> CHR '':'' \<notin> set h \<and> CHR ''/'' \<notin> set h"

definition url_port :: "string \<Rightarrow> bool" where
  "url_port p \<longleftrightarrow> p \<noteq> [] \<and> CHR ''/'' \<notin> set p"

lemma span_path:
  assumes "CHR ''/'' \<notin> set p" "url_path path"
  shows "c_span (p @ path) ''/'' = p"
  using assms by (cases path) (auto simp: url_path_def cstr_simps)

lemma strchr_path:
  assumes "CHR ''/'' \<notin> set a" "url_path path"
  shows "c_strchr (a @ path) CHR ''/'' = (if path = [] then None else Some (length a))"
proof (cases path)
  case Nil
  then show ?thesis using assms c_strchr_None [of a "CHR ''/''"] by simp
next
  case (Cons c cs)
  then show ?thesis using assms c_strchr_append [of "CHR ''/''" a cs] by (simp add: url_path_def)
qed

lemma trim_id:
  assumes "s = [] \<or> (\<not> is_blank (hd s) \<and> \<not> is_blank (last s))"
  shows "trim_blank s = s"
proof (cases "s = []")
  case False
  have "dropWhile is_blank s = s" using assms False by (cases s) auto
  moreover have "dropWhile is_blank (rev s) = rev s"
    using assms False by (metis dropWhile_eq_self_iff hd_rev)
  ultimately show ?thesis by (simp add: trim_blank_def)
qed (simp add: trim_blank_def)

definition kv_clean :: "otlp_kv \<Rightarrow> bool" where
  "kv_clean kv \<longleftrightarrow> kv_key kv \<noteq> [] \<and> length (kv_key kv) < KV_KEY_CAP \<and> length (kv_val kv) < KV_VAL_CAP
     \<and> CHR '','' \<notin> set (kv_key kv) \<and> CHR '','' \<notin> set (kv_val kv) \<and> CHR ''='' \<notin> set (kv_key kv)
     \<and> \<not> is_blank (hd (kv_key kv)) \<and> \<not> is_blank (last (kv_key kv))
     \<and> (kv_val kv = [] \<or> (\<not> is_blank (hd (kv_val kv)) \<and> \<not> is_blank (last (kv_val kv))))"

definition kv_text :: "otlp_kv \<Rightarrow> string" where
  "kv_text kv = kv_key kv @ ''='' @ kv_val kv"

fun kv_render :: "otlp_kv list \<Rightarrow> string" where
  "kv_render [] = []"
| "kv_render [kv] = kv_text kv"
| "kv_render (kv # kvs) = kv_text kv @ '','' @ kv_render kvs"

lemma kv_segment_text: "kv_clean kv \<Longrightarrow> kv_segment (kv_text kv) = Some kv"
  by (simp add: kv_segment_def kv_text_def kv_clean_def cstr_simps trim_id Let_def)

lemma kv_text_props:
  assumes "kv_clean kv"
  shows "kv_text kv \<noteq> []" "CHR '','' \<notin> set (kv_text kv)" "skip_sep (kv_text kv @ r) = kv_text kv @ r"
proof -
  show "kv_text kv \<noteq> []" "CHR '','' \<notin> set (kv_text kv)"
    using assms by (auto simp: kv_text_def kv_clean_def)
  obtain c cs where "kv_key kv = c # cs" using assms by (cases "kv_key kv") (auto simp: kv_clean_def)
  then show "skip_sep (kv_text kv @ r) = kv_text kv @ r"
    using assms by (auto simp: skip_sep_def kv_text_def kv_clean_def is_blank_def)
qed

lemma kv_list_last:
  assumes "kv_clean kv"
  shows "kv_list (kv_text kv) (Suc room) = [kv]"
proof -
  have sk: "skip_sep (kv_text kv) = kv_text kv" using kv_text_props(3) [OF assms, of "[]"] by simp
  note t = kv_text_props(1,2) [OF assms]
  have "c_span (kv_text kv) '','' = kv_text kv" "c_rest (kv_text kv) '','' = []"
    using t by (auto simp: c_span_append)
  then show ?thesis
    using t sk kv_segment_text [OF assms] kv_list.simps [of "[]" room] by (subst kv_list.simps) (simp add: Let_def)
qed

lemma kv_list_cons:
  assumes "kv_clean kv"
  shows "kv_list (kv_text kv @ '','' @ r) (Suc room) = kv # kv_list r room"
proof -
  note t = kv_text_props [OF assms]
  have "c_span (kv_text kv @ CHR '','' # r) '','' = kv_text kv" "c_rest (kv_text kv @ CHR '','' # r) '','' = CHR '','' # r"
    using t(2) by (auto simp: c_span_append)
  then show ?thesis
    using t(1,3) kv_segment_text [OF assms] by (subst kv_list.simps) (simp add: Let_def)
qed

lemma kv_list_render:
  "\<forall>kv\<in>set kvs. kv_clean kv \<Longrightarrow> length kvs \<le> room \<Longrightarrow> kv_list (kv_render kvs) room = kvs"
proof (induction kvs arbitrary: room rule: kv_render.induct)
  case 1
  then show ?case by (simp add: kv_list.simps)
next
  case (2 kv)
  then show ?case using kv_list_last [of kv] by (cases room) auto
next
  case (3 kv kv' kvs)
  then show ?case using kv_list_cons [of kv "kv_render (kv' # kvs)"] by (cases room) auto
qed

lemma add_headers_shape:
  assumes "add_headers kvs h = Some h'"
  shows "h' = h @ concat (map (\<lambda>kv. kv_key kv @ '': '' @ kv_val kv @ crlf) kvs)"
  using assms
proof (induction kvs arbitrary: h)
  case (Cons kv kvs)
  then have "add_headers kvs (h @ kv_key kv @ '': '' @ kv_val kv @ crlf) = Some h'"
    by (simp add: Let_def split: if_splits)
  from Cons.IH [OF this] show ?case by simp
qed simp

lemma kv_list_length: "length (kv_list p room) \<le> room"
proof (induction p room rule: kv_list.induct)
  case (1 p room)
  let ?n = "drop 1 (c_rest (skip_sep p) '','')"
  show ?case
  proof (cases "p = [] \<or> room = 0 \<or> skip_sep p = []")
    case True
    then show ?thesis by (subst kv_list.simps) (auto simp: Let_def)
  next
    case False
    show ?thesis
    proof (cases "kv_segment (c_span (skip_sep p) '','')")
      case None
      then have "length (kv_list ?n room) \<le> room" using 1 False by simp
      then show ?thesis using None False by (subst kv_list.simps) (simp add: Let_def)
    next
      case (Some kv)
      then have "length (kv_list ?n (room - 1)) \<le> room - 1" using 1 False by simp
      then show ?thesis using Some False by (subst kv_list.simps) (cases room; simp add: Let_def)
    qed
  qed
qed

lemma connect_retry_sleeps:
  "length (snd (connect_retry ok a n)) \<le> n \<and> (\<forall>ms\<in>set (snd (connect_retry ok a n)). ms \<le> 2000)
   \<and> (fst (connect_retry ok a n) \<longleftrightarrow> (\<exists>k<n. ok (a + k)))"
proof (induction ok a n rule: connect_retry.induct)
  case (2 ok a n)
  show ?case
  proof (cases "ok a")
    case False
    have "(\<exists>k<Suc n. ok (a + k)) \<longleftrightarrow> (\<exists>k<n. ok (a + 1 + k))"
      using False by (auto simp: less_Suc_eq_0_disj)
    then show ?thesis
      using 2 [OF False] False by (auto simp: split_beta backoff_ms_def Let_def)
  qed auto
qed simp

lemma split_endpoint:
  assumes "known_scheme sch" "url_host h" "url_port p" "url_path path"
    and "length h < hl" "length p < pl" "length path < al"
  shows "otlp_http_parse_endpoint (sch @ h @ '':'' @ p @ path) hl pl = Some (h, p)
    \<and> otlp_http_endpoint_path (sch @ h @ '':'' @ p @ path) al = Some path"
proof -
  let ?r = "h @ CHR '':'' # p @ path"
  obtain d where d: "otlp_scheme (sch @ ?r) = (?r, d)"
    using otlp_scheme_fst [OF assms(1), of ?r] by (metis prod.collapse)
  have "c_span ?r '':/'' = h" "c_rest ?r '':/'' = CHR '':'' # p @ path"
    using assms(2) by (auto simp: url_host_def c_span_append)
  moreover have "c_span (p @ path) ''/'' = p" using span_path assms(3,4) by (simp add: url_port_def)
  moreover have "c_strchr ?r CHR ''/'' = (if path = [] then None else Some (length (h @ CHR '':'' # p)))"
    using strchr_path [of "h @ CHR '':'' # p" path] assms(2-4) by (simp add: url_host_def url_port_def)
  ultimately show ?thesis
    using assms d
    by (simp add: otlp_http_parse_endpoint_def otlp_http_endpoint_path_def url_host_def url_port_def)
qed

subsection \<open>Properties\<close>

text \<open>C24: endpoint URLs round-trip.  For each of the four schemes, splitting
  \<open>scheme host:port path\<close> gives back the host, the port and the path, when they fit the buffers.\<close>

theorem endpoint_roundtrip:
  assumes "known_scheme sch" "url_host h" "url_port p" "url_path path"
    and "length h < hl" "length p < pl" "length path < al"
  shows "otlp_http_parse_endpoint (sch @ h @ '':'' @ p @ path) hl pl = Some (h, p)
    \<and> otlp_http_endpoint_path (sch @ h @ '':'' @ p @ path) al = Some path"
  using assms by (rule split_endpoint)

theorem endpoint_roundtrip_witness:
  "otlp_http_parse_endpoint ''https://otel.example:4318/v1/traces'' 256 16 = Some (''otel.example'', ''4318'')
    \<and> otlp_http_endpoint_path ''https://otel.example:4318/v1/traces'' 256 = Some ''/v1/traces''"
  using endpoint_roundtrip [of "''https://''" "''otel.example''" "''4318''" "''/v1/traces''" 256 16 256]
  by (simp add: known_scheme_def url_host_def url_port_def url_path_def)

text \<open>C25: the \<open>k1=v1,k2=v2\<close> grammar round-trips.  A list of at most \<open>max\<close> clean pairs, written
  with commas and equal signs, is parsed back to the same list (no pair is lost, the last included);
  a value may contain further equal signs.\<close>

theorem env_kv_roundtrip:
  assumes "\<forall>kv\<in>set kvs. kv_clean kv" "length kvs \<le> max_n"
  shows "otlp_env_kv_list (Some (kv_render kvs)) max_n = kvs"
proof (cases kvs)
  case Nil
  then show ?thesis by (simp add: otlp_env_kv_list_def)
next
  case (Cons kv rest)
  then have "kv_render kvs \<noteq> []" using kv_text_props(1) assms(1) by (cases rest) auto
  then show ?thesis
    using kv_list_render [OF assms] assms(2) Cons by (simp add: otlp_env_kv_list_def)
qed

theorem env_kv_roundtrip_witness:
  "otlp_env_kv_list (Some ''api-key=a=b,team=x'') 16
     = [\<lparr> kv_key = ''api-key'', kv_val = ''a=b'' \<rparr>, \<lparr> kv_key = ''team'', kv_val = ''x'' \<rparr>]"
  using env_kv_roundtrip [of "[\<lparr> kv_key = ''api-key'', kv_val = ''a=b'' \<rparr>, \<lparr> kv_key = ''team'', kv_val = ''x'' \<rparr>]" 16]
  by (simp add: kv_clean_def is_blank_def kv_text_def KV_KEY_CAP_def KV_VAL_CAP_def)


definition demo_world :: http_world where
  "demo_world = \<lparr> hw_connect = (\<lambda>k. k = 2), hw_tls_ok = False, hw_gzip = (\<lambda>_. None), hw_headers = Some ''k=v'',
     hw_write_ok = True, hw_reads = [Read_eintr, Read_data (''HTTP/1.1 200 OK'' @ crlf)] \<rparr>"

lemma demo_post: "otlp_http_post demo_world ''h'' ''1'' ''/v1/logs'' ''x'' [1, 2] False 0
    = (Inr 200, Some (post_request ''h'' ''1'' ''/v1/logs'' ''x'' 2 False @ ''k: v'' @ crlf @ crlf, [1, 2]))"
  by code_simp


end
