(* ===== verification/Otlp_Enrich.thy ===== *)
theory Otlp_Enrich
  imports Otlp_Http
begin

text \<open>
  Attribute enrichment: the registry and its merge (\<open>src/runtime/otlp/otlp_enrich.c\<close>), peer
  classification (\<open>otlp_peer.c\<close>), pod attribution from a cgroup path (\<open>otlp_k8s.c\<close>) and CRI
  container names (\<open>otlp_cri.c\<close>).

  The files named by environment variables are their contents; the cgroup file system is a finite
  tree; reverse DNS is a function argument (its cache only avoids repeated queries and is left out).
\<close>

subsection \<open>Filling attributes\<close>

text \<open>The \<open>PUT\<close> macro: append a non-empty value while there is room.\<close>

definition put_attr :: "nat \<Rightarrow> string \<Rightarrow> string \<Rightarrow> otlp_kv list \<Rightarrow> otlp_kv list" where
  "put_attr max_n k v attrs =
     (if v \<noteq> [] \<and> length attrs < max_n
      then attrs @ [\<lparr> kv_key = c_trunc KV_KEY_CAP k, kv_val = c_trunc KV_VAL_CAP v \<rparr>] else attrs)"

subsection \<open>Peers\<close>

datatype peer_kind = SPNL_PEER_NONE | SPNL_PEER_POD | SPNL_PEER_SERVICE | SPNL_PEER_EXTERNAL
  | SPNL_PEER_LOOPBACK | SPNL_PEER_CLUSTER

record spnl_peer =
  pe_kind :: peer_kind
  pe_address :: string
  pe_namespace :: string
  pe_name :: string
  pe_hostname :: string

record peer_ent =
  pm_ip :: string
  pm_kind :: peer_kind
  pm_ns :: string
  pm_name :: string

text \<open>\<open>inet_pton(AF_INET, ...)\<close>: four decimal octets without superfluous leading zeros, as a number
  in host order.\<close>

definition ipv4_octet :: "string \<Rightarrow> nat option" where
  "ipv4_octet s =
     (if s \<noteq> [] \<and> list_all is_digit s \<and> length s \<le> 3 \<and> (length s > 1 \<longrightarrow> hd s \<noteq> CHR ''0'') \<and> digits_val s \<le> 255
      then Some (digits_val s) else None)"

definition inet_pton4 :: "string \<Rightarrow> u32 option" where
  "inet_pton4 s =
     (case map ipv4_octet (c_split CHR ''.'' s) of
        [Some a, Some b, Some c, Some d] \<Rightarrow> Some (((of_nat a * 256 + of_nat b) * 256 + of_nat c) * 256 + of_nat d)
      | _ \<Rightarrow> None)"

definition cidr_mask :: "nat \<Rightarrow> u32" where
  "cidr_mask prefix = (if prefix = 0 then 0 else push_bit (32 - prefix) 0xFFFFFFFF)"

definition parse_cidr :: "string \<Rightarrow> (u32 \<times> u32) option" where
  "parse_cidr s =
     (if s = [] then None
      else let buf = c_trunc 64 s;
               (addr, prefix) = (case c_strchr buf CHR ''/'' of
                   Some i \<Rightarrow> (take i buf, c_atoi (drop (i + 1) buf)) | None \<Rightarrow> (buf, 32))
           in if prefix < 0 \<or> prefix > 32 then None
              else case inet_pton4 addr of
                None \<Rightarrow> None
              | Some a \<Rightarrow> Some (a AND cidr_mask (nat prefix), cidr_mask (nat prefix)))"

definition unwrap_v4mapped :: "string \<Rightarrow> nat \<Rightarrow> string" where
  "unwrap_v4mapped addr cap =
     (if (c_starts addr ''::ffff:'' \<or> c_starts addr ''::FFFF:'') \<and> c_strchr (drop 7 addr) CHR ''.'' \<noteq> None
      then c_trunc cap (drop 7 addr) else c_trunc cap addr)"

definition is_loopback :: "string \<Rightarrow> bool" where
  "is_loopback addr \<longleftrightarrow> c_starts addr ''127.'' \<or> addr = ''::1''"

definition peer_map_add :: "string list \<Rightarrow> peer_ent list \<Rightarrow> peer_ent list" where
  "peer_map_add flds m = (case flds of
       [ip, kind, ns, name] \<Rightarrow>
         m @ [\<lparr> pm_ip = c_trunc 46 ip, pm_kind = (if kind = ''service'' then SPNL_PEER_SERVICE else SPNL_PEER_POD),
                pm_ns = c_trunc 128 ns, pm_name = c_trunc 256 name \<rparr>]
     | _ \<Rightarrow> m)"

definition peer_map_load :: "string \<Rightarrow> peer_ent list" where
  "peer_map_load file = fold (\<lambda>line. peer_map_add (scan_strs [45, 15, 127, 255] line)) (fgets_all 640 file) []"

record peer_cfg =
  pc_on :: bool
  pc_map :: "peer_ent list"
  pc_pod :: "(u32 \<times> u32) option"
  pc_svc :: "(u32 \<times> u32) option"
  pc_rdns :: bool

text \<open>The lazy initialisation: \<open>ipmap\<close> is the contents of the file named by \<open>SPNL_K8S_IPMAP\<close>
  (\<open>None\<close> when the variable is unset or empty); the other arguments are variables' values.\<close>

definition peer_init :: "string option \<Rightarrow> string option \<Rightarrow> string option \<Rightarrow> string option \<Rightarrow> peer_cfg" where
  "peer_init ipmap pod_cidr svc_cidr rdns =
     (case ipmap of
        None \<Rightarrow> \<lparr> pc_on = False, pc_map = [], pc_pod = None, pc_svc = None, pc_rdns = False \<rparr>
      | Some file \<Rightarrow>
          \<lparr> pc_on = True, pc_map = peer_map_load file,
            pc_pod = parse_cidr (case pod_cidr of Some c \<Rightarrow> if c \<noteq> [] then c else ''10.42.0.0/16'' | None \<Rightarrow> ''10.42.0.0/16''),
            pc_svc = parse_cidr (case svc_cidr of Some c \<Rightarrow> if c \<noteq> [] then c else ''10.43.0.0/16'' | None \<Rightarrow> ''10.43.0.0/16''),
            pc_rdns = (case rdns of Some (c # cs) \<Rightarrow> c \<in> set ''1yYtT'' | _ \<Rightarrow> False) \<rparr>)"

definition in_cidr :: "(u32 \<times> u32) option \<Rightarrow> u32 \<Rightarrow> bool" where
  "in_cidr c h = (case c of None \<Rightarrow> False | Some (base, m) \<Rightarrow> h AND m = base)"

fun peer_map_find :: "peer_ent list \<Rightarrow> string \<Rightarrow> peer_ent option" where
  "peer_map_find [] a = None"
| "peer_map_find (e # es) a = (if pm_ip e = a then Some e else peer_map_find es a)"

definition peer_empty :: spnl_peer where
  "peer_empty = \<lparr> pe_kind = SPNL_PEER_NONE, pe_address = [], pe_namespace = [], pe_name = [], pe_hostname = [] \<rparr>"

definition spnl_peer_classify :: "(string \<Rightarrow> string) \<Rightarrow> peer_cfg \<Rightarrow> string \<Rightarrow> spnl_peer" where
  "spnl_peer_classify rdns cfg addr =
     (if \<not> pc_on cfg \<or> addr = [] then peer_empty
      else let a = unwrap_v4mapped addr 46;
               p = peer_empty \<lparr> pe_address := a \<rparr>
           in if is_loopback a then p \<lparr> pe_kind := SPNL_PEER_LOOPBACK \<rparr>
              else case peer_map_find (pc_map cfg) a of
                Some e \<Rightarrow> p \<lparr> pe_kind := pm_kind e, pe_namespace := c_trunc 128 (pm_ns e), pe_name := c_trunc 256 (pm_name e) \<rparr>
              | None \<Rightarrow>
                  (case inet_pton4 a of
                     Some h \<Rightarrow>
                       if in_cidr (pc_pod cfg) h \<or> in_cidr (pc_svc cfg) h then p \<lparr> pe_kind := SPNL_PEER_CLUSTER \<rparr>
                       else p \<lparr> pe_kind := SPNL_PEER_EXTERNAL,
                                pe_hostname := (if pc_rdns cfg then c_trunc 256 (rdns a) else []) \<rparr>
                   | None \<Rightarrow> p \<lparr> pe_kind := SPNL_PEER_EXTERNAL \<rparr>))"

definition spnl_peer_fill_attrs :: "spnl_peer \<Rightarrow> nat \<Rightarrow> otlp_kv list" where
  "spnl_peer_fill_attrs p max_n =
     (case pe_kind p of
        SPNL_PEER_POD \<Rightarrow> put_attr max_n ''peer.k8s.namespace.name'' (pe_namespace p)
           (put_attr max_n ''peer.k8s.pod.name'' (pe_name p) [])
      | SPNL_PEER_SERVICE \<Rightarrow> put_attr max_n ''peer.k8s.namespace.name'' (pe_namespace p)
           (put_attr max_n ''peer.k8s.service.name'' (pe_name p) [])
      | SPNL_PEER_EXTERNAL \<Rightarrow> put_attr max_n ''peer.hostname'' (pe_hostname p)
           (put_attr max_n ''network.peer.external'' ''true'' [])
      | _ \<Rightarrow> [])"

definition spnl_peer_enrich_attrs :: "(string \<Rightarrow> string) \<Rightarrow> peer_cfg \<Rightarrow> string \<Rightarrow> nat \<Rightarrow> otlp_kv list" where
  "spnl_peer_enrich_attrs rdns cfg addr max_n =
     (if max_n = 0 \<or> \<not> pc_on cfg \<or> addr = [] then []
      else spnl_peer_fill_attrs (spnl_peer_classify rdns cfg addr) max_n)"

subsection \<open>Pods\<close>

record spnl_k8s_pod =
  po_found :: bool
  po_qos :: string
  po_pod_uid :: string
  po_container_id :: string
  po_namespace :: string
  po_pod_name :: string
  po_deployment :: string
  po_service :: string

definition pod_empty :: spnl_k8s_pod where
  "pod_empty = \<lparr> po_found = False, po_qos = [], po_pod_uid = [], po_container_id = [], po_namespace = [],
     po_pod_name = [], po_deployment = [], po_service = [] \<rparr>"

definition strip_systemd :: "string \<Rightarrow> string" where
  "strip_systemd cmp = (case c_strrchr cmp CHR ''.'' of
       Some i \<Rightarrow> if drop i cmp = ''.slice'' \<or> drop i cmp = ''.scope'' then take i cmp else cmp
     | None \<Rightarrow> cmp)"

definition hexish :: "char \<Rightarrow> bool" where
  "hexish c \<longleftrightarrow> is_digit c \<or> c \<in> set ''abcdef''"

text \<open>The search for the pod token: \<open>pre\<close> is the character before the remaining text, if any.\<close>

function find_pod :: "char option \<Rightarrow> string \<Rightarrow> string option" where
  "find_pod pre s =
     (case c_strstr s ''pod'' of
        None \<Rightarrow> None
      | Some i \<Rightarrow>
          (let before = (if i = 0 then pre else Some (s ! (i - 1))); after = drop (i + 3) s
           in if (before = None \<or> before = Some CHR ''-'') \<and> after \<noteq> [] \<and> hexish (hd after)
              then Some after
              else find_pod (Some CHR ''d'') after))"
  by pat_completeness auto

termination
proof (relation "measure (\<lambda>(pre, s). length s)", goal_cases)
  case (2 pre s i x y)
  then show ?case using c_strstr_bound [of s "''pod''" i] by simp
qed simp

declare find_pod.simps [simp del]

definition qos_of :: "string \<Rightarrow> string" where
  "qos_of cmp =
     (if c_strstr cmp ''burstable'' \<noteq> None then ''burstable''
      else if c_strstr cmp ''besteffort'' \<noteq> None then ''besteffort''
      else if c_strstr cmp ''guaranteed'' \<noteq> None then ''guaranteed'' else [])"

definition container_of :: "string \<Rightarrow> string" where
  "container_of cmp = (case c_strrchr cmp CHR ''-'' of
       Some i \<Rightarrow> if length (drop (i + 1) cmp) \<ge> 32 then drop (i + 1) cmp else cmp
     | None \<Rightarrow> cmp)"

definition kubepods_token :: "string \<Rightarrow> spnl_k8s_pod \<Rightarrow> spnl_k8s_pod" where
  "kubepods_token tok p =
     (let cmp = strip_systemd (c_trunc 512 tok) in
      if cmp = ''besteffort'' \<or> cmp = ''burstable'' \<or> cmp = ''guaranteed'' then p \<lparr> po_qos := cmp \<rparr>
      else case find_pod None cmp of
        Some uid \<Rightarrow>
          (let p = (if po_qos p = [] then p \<lparr> po_qos := qos_of cmp \<rparr> else p) in
           p \<lparr> po_pod_uid := map (\<lambda>c. if c = CHR ''_'' then CHR ''-'' else c) (c_trunc 40 uid) \<rparr>)
      | None \<Rightarrow>
          if po_pod_uid p \<noteq> [] \<and> po_container_id p = []
          then p \<lparr> po_container_id := c_trunc 68 (container_of cmp) \<rparr> else p)"

definition spnl_k8s_parse_kubepods_path :: "string \<Rightarrow> spnl_k8s_pod" where
  "spnl_k8s_parse_kubepods_path path =
     (case c_strstr path ''kubepods'' of
        None \<Rightarrow> pod_empty
      | Some i \<Rightarrow>
          (let p = fold kubepods_token (c_strtok CHR ''/'' (c_trunc 1024 (drop i path))) pod_empty
           in p \<lparr> po_found := (po_pod_uid p \<noteq> []) \<rparr>))"

text \<open>The cgroup tree: a directory has an inode and named entries; other files are leaves.\<close>

datatype fsnode = Fs_dir u64 "(string \<times> fsnode) list" | Fs_other

fun walk_find :: "string \<Rightarrow> u64 \<Rightarrow> fsnode \<Rightarrow> string option"
  and walk_entries :: "string \<Rightarrow> u64 \<Rightarrow> (string \<times> fsnode) list \<Rightarrow> string option" where
  "walk_find dir cgid Fs_other = None"
| "walk_find dir cgid (Fs_dir ino es) = walk_entries dir cgid es"
| "walk_entries dir cgid [] = None"
| "walk_entries dir cgid ((name, node) # es) =
     (let path = c_trunc 1024 (dir @ ''/'' @ name) in
      case node of
        Fs_other \<Rightarrow> walk_entries dir cgid es
      | Fs_dir ino sub \<Rightarrow>
          if ino = cgid then Some path
          else (case walk_find path cgid node of Some r \<Rightarrow> Some r | None \<Rightarrow> walk_entries dir cgid es))"

definition spnl_k8s_lookup_by_cgroup_id :: "(string \<Rightarrow> fsnode option) \<Rightarrow> u64 \<Rightarrow> string \<Rightarrow> spnl_k8s_pod" where
  "spnl_k8s_lookup_by_cgroup_id opendir cgid root =
     (let look = (\<lambda>d. case opendir d of None \<Rightarrow> None | Some n \<Rightarrow> walk_find d cgid n) in
      case look (c_trunc 1024 (root @ ''/kubepods'')) of
        Some path \<Rightarrow> spnl_k8s_parse_kubepods_path path
      | None \<Rightarrow>
          (case look (c_trunc 1024 (root @ ''/kubepods.slice'')) of
             Some path \<Rightarrow> spnl_k8s_parse_kubepods_path path
           | None \<Rightarrow> pod_empty))"

definition uidmap_apply :: "string list \<Rightarrow> spnl_k8s_pod \<Rightarrow> spnl_k8s_pod" where
  "uidmap_apply flds p =
     (let nsname = flds ! 1;
          p = (case c_strchr nsname CHR ''/'' of
                 Some i \<Rightarrow> p \<lparr> po_namespace := c_trunc 128 (take i nsname), po_pod_name := c_trunc 256 (drop (i + 1) nsname) \<rparr>
               | None \<Rightarrow> p \<lparr> po_pod_name := c_trunc 256 nsname \<rparr>);
          p = (if length flds \<ge> 3 \<and> flds ! 2 \<noteq> ''-'' then p \<lparr> po_deployment := c_trunc 256 (flds ! 2) \<rparr> else p)
      in (if length flds \<ge> 4 \<and> flds ! 3 \<noteq> ''-'' then p \<lparr> po_service := c_trunc 256 (flds ! 3) \<rparr> else p))"

fun uidmap_find :: "string list \<Rightarrow> string \<Rightarrow> string list option" where
  "uidmap_find [] uid = None"
| "uidmap_find (line # ls) uid =
     (let flds = scan_strs [63, 399, 255, 255] line in
      if length flds < 2 \<or> hd flds \<noteq> uid then uidmap_find ls uid else Some flds)"

definition spnl_k8s_resolve_name :: "spnl_k8s_pod \<Rightarrow> string \<Rightarrow> spnl_k8s_pod" where
  "spnl_k8s_resolve_name p file =
     (if po_pod_uid p = [] then p
      else case uidmap_find (fgets_all 640 file) (po_pod_uid p) of
        None \<Rightarrow> p | Some flds \<Rightarrow> uidmap_apply flds p)"

definition spnl_k8s_fill_attrs :: "spnl_k8s_pod \<Rightarrow> nat \<Rightarrow> otlp_kv list" where
  "spnl_k8s_fill_attrs p max_n =
     put_attr max_n ''k8s.service.name'' (po_service p)
     (put_attr max_n ''k8s.deployment.name'' (po_deployment p)
     (put_attr max_n ''k8s.container.name'' (po_container_id p)
     (put_attr max_n ''k8s.pod.uid'' (po_pod_uid p)
     (put_attr max_n ''k8s.pod.name'' (po_pod_name p)
     (put_attr max_n ''k8s.namespace.name'' (po_namespace p) [])))))"

definition spnl_k8s_enrich_attrs ::
    "(string \<Rightarrow> fsnode option) \<Rightarrow> u64 \<Rightarrow> string \<Rightarrow> string option \<Rightarrow> nat \<Rightarrow> otlp_kv list" where
  "spnl_k8s_enrich_attrs opendir cgid root uidmap max_n =
     (let p = spnl_k8s_lookup_by_cgroup_id opendir cgid root in
      if \<not> po_found p then []
      else spnl_k8s_fill_attrs (case uidmap of None \<Rightarrow> p | Some f \<Rightarrow> spnl_k8s_resolve_name p f) max_n)"

subsection \<open>Container names\<close>

record cri_ent =
  ce_cgid :: u64
  ce_name :: string

definition cri_map_add :: "string \<Rightarrow> cri_ent list \<Rightarrow> cri_ent list" where
  "cri_map_add line m = (case scan_int line of
       None \<Rightarrow> m
     | Some (v, r) \<Rightarrow>
         (case scan_str 255 r of
            None \<Rightarrow> m
          | Some (name, _) \<Rightarrow>
              (let cgid = word_of_int v in
               if cgid = 0 then m else m @ [\<lparr> ce_cgid = cgid, ce_name = c_trunc 256 name \<rparr>])))"

text \<open>\<open>crimap\<close> is the contents of the file named by \<open>SPNL_K8S_CRIMAP\<close>, if the variable is set.\<close>

definition cri_init :: "string option \<Rightarrow> cri_ent list option" where
  "cri_init crimap = (case crimap of None \<Rightarrow> None | Some f \<Rightarrow> Some (fold cri_map_add (fgets_all 512 f) []))"

fun cri_find :: "cri_ent list \<Rightarrow> u64 \<Rightarrow> string option" where
  "cri_find [] cgid = None"
| "cri_find (e # es) cgid = (if ce_cgid e = cgid then Some (ce_name e) else cri_find es cgid)"

definition spnl_cri_lookup :: "cri_ent list option \<Rightarrow> u64 \<Rightarrow> nat \<Rightarrow> string option" where
  "spnl_cri_lookup m cgid cap =
     (if cap = 0 \<or> cgid = 0 then None
      else case m of None \<Rightarrow> None | Some es \<Rightarrow> map_option (c_trunc cap) (cri_find es cgid))"

definition spnl_cri_enrich_attrs :: "cri_ent list option \<Rightarrow> u64 \<Rightarrow> nat \<Rightarrow> otlp_kv list" where
  "spnl_cri_enrich_attrs m cgid max_n =
     (if max_n = 0 then []
      else case spnl_cri_lookup m cgid 256 of
        None \<Rightarrow> []
      | Some name \<Rightarrow>
          if name = [] then []
          else [\<lparr> kv_key = c_trunc KV_KEY_CAP ''k8s.container.name'', kv_val = c_trunc KV_VAL_CAP name \<rparr>])"

subsection \<open>The registry\<close>

datatype otlp_signal = OTLP_SIGNAL_CONN | OTLP_SIGNAL_DNS | OTLP_SIGNAL_L7 | OTLP_SIGNAL_HTTP | OTLP_SIGNAL_OFFCPU

fun signal_code :: "otlp_signal \<Rightarrow> nat" where
  "signal_code OTLP_SIGNAL_CONN = 0"
| "signal_code OTLP_SIGNAL_DNS = 1"
| "signal_code OTLP_SIGNAL_L7 = 2"
| "signal_code OTLP_SIGNAL_HTTP = 3"
| "signal_code OTLP_SIGNAL_OFFCPU = 4"

definition OTLP_SIG_BIT :: "otlp_signal \<Rightarrow> u32" where "OTLP_SIG_BIT s = push_bit (signal_code s) 1"
definition OTLP_SIG_ALL :: u32 where "OTLP_SIG_ALL = 0xFFFFFFFF"

record otlp_enrich_ctx =
  ec_signal :: otlp_signal
  ec_cgid :: u64
  ec_peer_addr :: "string option"

record enrich_env =
  ee_opendir :: "string \<Rightarrow> fsnode option"
  ee_k8s_root :: "string option"
  ee_uidmap :: "string option"
  ee_cri :: "cri_ent list option"
  ee_peer :: peer_cfg
  ee_rdns :: "string \<Rightarrow> string"

definition k8s_root :: "enrich_env \<Rightarrow> string" where
  "k8s_root env = c_trunc 256 (case ee_k8s_root env of Some r \<Rightarrow> if r \<noteq> [] then r else ''/sys/fs/cgroup'' | None \<Rightarrow> ''/sys/fs/cgroup'')"

definition is_dir :: "enrich_env \<Rightarrow> string \<Rightarrow> bool" where
  "is_dir env d = (case ee_opendir env d of Some (Fs_dir _ _) \<Rightarrow> True | _ \<Rightarrow> False)"

definition k8s_enrich :: "enrich_env \<Rightarrow> otlp_enrich_ctx \<Rightarrow> nat \<Rightarrow> otlp_kv list" where
  "k8s_enrich env ctx cap =
     (let root = k8s_root env;
          enabled = (is_dir env (c_trunc 300 (root @ ''/kubepods'')) \<or> is_dir env (c_trunc 300 (root @ ''/kubepods.slice'')))
      in if \<not> enabled \<or> ec_cgid ctx = 0 \<or> cap = 0 then []
         else spnl_k8s_enrich_attrs (ee_opendir env) (ec_cgid ctx) root (ee_uidmap env) cap)"

definition cri_enrich :: "enrich_env \<Rightarrow> otlp_enrich_ctx \<Rightarrow> nat \<Rightarrow> otlp_kv list" where
  "cri_enrich env ctx cap =
     (if ec_cgid ctx = 0 \<or> cap = 0 then [] else spnl_cri_enrich_attrs (ee_cri env) (ec_cgid ctx) cap)"

definition peer_enrich :: "enrich_env \<Rightarrow> otlp_enrich_ctx \<Rightarrow> nat \<Rightarrow> otlp_kv list" where
  "peer_enrich env ctx cap = (case ec_peer_addr ctx of
       None \<Rightarrow> []
     | Some a \<Rightarrow> if a = [] \<or> cap = 0 then [] else spnl_peer_enrich_attrs (ee_rdns env) (ee_peer env) a cap)"

type_synonym otlp_enricher = "u32 \<times> (otlp_enrich_ctx \<Rightarrow> nat \<Rightarrow> otlp_kv list)"

definition g_enrichers :: "enrich_env \<Rightarrow> otlp_enricher list" where
  "g_enrichers env = [(OTLP_SIG_ALL, k8s_enrich env), (OTLP_SIG_ALL, cri_enrich env),
     (OTLP_SIG_BIT OTLP_SIGNAL_CONN, peer_enrich env)]"

fun find_key :: "otlp_kv list \<Rightarrow> string \<Rightarrow> nat option" where
  "find_key [] k = None"
| "find_key (kv # kvs) k = (if kv_key kv = k then Some 0 else map_option Suc (find_key kvs k))"

definition merge_attr :: "nat \<Rightarrow> otlp_kv \<Rightarrow> otlp_kv list \<Rightarrow> otlp_kv list" where
  "merge_attr cap kv out = (case find_key out (kv_key kv) of
       Some i \<Rightarrow> out[i := kv]
     | None \<Rightarrow> if length out < cap then out @ [kv] else out)"

definition enrich_room :: "nat \<Rightarrow> nat \<Rightarrow> nat" where
  "enrich_room cap n = (if cap - n > 16 then 16 else cap - n)"

fun enrich_loop :: "otlp_enricher list \<Rightarrow> otlp_enrich_ctx \<Rightarrow> nat \<Rightarrow> otlp_kv list \<Rightarrow> otlp_kv list" where
  "enrich_loop [] ctx cap out = out"
| "enrich_loop ((sigs, f) # es) ctx cap out =
     (if length out \<ge> cap then out
      else if sigs AND OTLP_SIG_BIT (ec_signal ctx) = 0 then enrich_loop es ctx cap out
      else enrich_loop es ctx cap (fold (merge_attr cap) (f ctx (enrich_room cap (length out))) out))"

definition otlp_enrich_run :: "enrich_env \<Rightarrow> otlp_enrich_ctx \<Rightarrow> nat \<Rightarrow> otlp_kv list" where
  "otlp_enrich_run env ctx cap = (if cap = 0 then [] else enrich_loop (g_enrichers env) ctx cap [])"

subsection \<open>The contract of an enricher\<close>

text \<open>An enricher writes at most \<open>room\<close> attributes, each with a non-empty key that fits its field.\<close>

locale enricher =
  fixes fill :: "otlp_enrich_ctx \<Rightarrow> nat \<Rightarrow> otlp_kv list"
  assumes bounded: "length (fill ctx n) \<le> n"
    and keys: "kv \<in> set (fill ctx n) \<Longrightarrow> kv_key kv \<noteq> [] \<and> length (kv_key kv) < KV_KEY_CAP \<and> length (kv_val kv) < KV_VAL_CAP"

lemma put_attr_bounded: "length attrs \<le> n \<Longrightarrow> length (put_attr n k v attrs) \<le> n"
  by (simp add: put_attr_def)

definition attrs_ok :: "otlp_kv list \<Rightarrow> bool" where
  "attrs_ok kvs \<longleftrightarrow> (\<forall>kv\<in>set kvs. kv_key kv \<noteq> [] \<and> length (kv_key kv) < KV_KEY_CAP \<and> length (kv_val kv) < KV_VAL_CAP)"

lemma put_attr_ok: "attrs_ok attrs \<Longrightarrow> k \<noteq> [] \<Longrightarrow> attrs_ok (put_attr n k v attrs)"
  by (auto simp: put_attr_def attrs_ok_def c_trunc_def KV_KEY_CAP_def KV_VAL_CAP_def)

lemma attrs_ok_Nil [simp]: "attrs_ok []"
  by (simp add: attrs_ok_def)

lemma k8s_fill_ok: "length (spnl_k8s_fill_attrs p n) \<le> n \<and> attrs_ok (spnl_k8s_fill_attrs p n)"
  by (simp add: spnl_k8s_fill_attrs_def put_attr_bounded put_attr_ok)

lemma peer_fill_ok: "length (spnl_peer_fill_attrs p n) \<le> n \<and> attrs_ok (spnl_peer_fill_attrs p n)"
  by (simp add: spnl_peer_fill_attrs_def put_attr_bounded put_attr_ok split: peer_kind.split)

lemma k8s_enrich_ok: "length (k8s_enrich env ctx n) \<le> n \<and> attrs_ok (k8s_enrich env ctx n)"
  by (simp add: k8s_enrich_def spnl_k8s_enrich_attrs_def Let_def k8s_fill_ok)

lemma cri_enrich_ok: "length (cri_enrich env ctx n) \<le> n \<and> attrs_ok (cri_enrich env ctx n)"
  by (auto simp: cri_enrich_def spnl_cri_enrich_attrs_def attrs_ok_def c_trunc_def KV_KEY_CAP_def KV_VAL_CAP_def
      split: option.splits)

lemma peer_enrich_ok: "length (peer_enrich env ctx n) \<le> n \<and> attrs_ok (peer_enrich env ctx n)"
  by (simp add: peer_enrich_def spnl_peer_enrich_attrs_def peer_fill_ok split: option.splits)

interpretation k8s: enricher "k8s_enrich env" for env
  using k8s_enrich_ok by unfold_locales (auto simp: attrs_ok_def)

interpretation cri: enricher "cri_enrich env" for env
  using cri_enrich_ok by unfold_locales (auto simp: attrs_ok_def)

interpretation peer: enricher "peer_enrich env" for env
  using peer_enrich_ok by unfold_locales (auto simp: attrs_ok_def)

subsection \<open>The merge\<close>

definition kv_lookup :: "otlp_kv list \<Rightarrow> string \<Rightarrow> string option" where
  "kv_lookup out k = (case find_key out k of None \<Rightarrow> None | Some i \<Rightarrow> Some (kv_val (out ! i)))"

definition distinct_keys :: "otlp_kv list \<Rightarrow> bool" where
  "distinct_keys out \<longleftrightarrow> distinct (map kv_key out)"

lemma find_key_None: "find_key out k = None \<longleftrightarrow> k \<notin> kv_key ` set out"
  by (induction out) auto

lemma find_key_Some: "find_key out k = Some i \<Longrightarrow> i < length out \<and> kv_key (out ! i) = k"
  by (induction out arbitrary: i) (auto split: if_splits)

lemma find_key_nth: "distinct_keys out \<Longrightarrow> i < length out \<Longrightarrow> find_key out (kv_key (out ! i)) = Some i"
proof (induction out arbitrary: i)
  case (Cons kv out)
  then show ?case by (cases i) (auto simp: distinct_keys_def)
qed simp

lemma find_key_append:
  "find_key (out @ [kv]) k = (case find_key out k of Some i \<Rightarrow> Some i
     | None \<Rightarrow> if kv_key kv = k then Some (length out) else None)"
  by (induction out) (auto split: option.splits)

lemma map_key_update: "find_key out (kv_key kv) = Some i \<Longrightarrow> map kv_key (out[i := kv]) = map kv_key out"
  using find_key_Some [of out "kv_key kv" i] by (simp add: map_update) (metis list_update_id map_update nth_map)

lemma find_key_cong: "map kv_key a = map kv_key b \<Longrightarrow> find_key a k = find_key b k"
proof (induction a arbitrary: b)
  case (Cons x a)
  then show ?case by (cases b) auto
qed simp

lemma merge_attr_keys:
  assumes "distinct_keys out" "length out \<le> cap"
  shows "distinct_keys (merge_attr cap kv out)" "length (merge_attr cap kv out) \<le> cap"
proof -
  show "distinct_keys (merge_attr cap kv out)"
    using assms find_key_None [of out "kv_key kv"]
    by (auto simp: merge_attr_def distinct_keys_def map_key_update split: option.splits)
  show "length (merge_attr cap kv out) \<le> cap"
    using assms by (auto simp: merge_attr_def split: option.splits)
qed

lemma merge_attr_lookup:
  "kv_lookup (merge_attr cap kv out) k =
     (if k = kv_key kv \<and> (find_key out k \<noteq> None \<or> length out < cap) then Some (kv_val kv) else kv_lookup out k)"
proof (cases "find_key out (kv_key kv)")
  case None
  then show ?thesis
    by (auto simp: merge_attr_def kv_lookup_def find_key_append nth_append dest: find_key_Some split: option.splits)
next
  case (Some i)
  have fk: "find_key (out[i := kv]) k = find_key out k"
    by (rule find_key_cong) (rule map_key_update [OF Some])
  show ?thesis
  proof (cases "k = kv_key kv")
    case True
    then show ?thesis using Some fk find_key_Some [OF Some] by (simp add: merge_attr_def kv_lookup_def)
  next
    case False
    have "j \<noteq> i" if "find_key out k = Some j" for j
      using that False find_key_Some [OF that] find_key_Some [OF Some] by auto
    then show ?thesis using Some fk False by (auto simp: merge_attr_def kv_lookup_def split: option.splits)
  qed
qed

lemma merge_attr_ok: "attrs_ok out \<Longrightarrow> attrs_ok [kv] \<Longrightarrow> attrs_ok (merge_attr cap kv out)"
  by (auto simp: merge_attr_def attrs_ok_def split: option.splits dest!: set_update_subset_insert [THEN subsetD])

lemma fold_merge_inv:
  assumes "distinct_keys out" "length out \<le> cap" "attrs_ok out" "attrs_ok kvs"
  shows "distinct_keys (fold (merge_attr cap) kvs out) \<and> length (fold (merge_attr cap) kvs out) \<le> cap
    \<and> attrs_ok (fold (merge_attr cap) kvs out)"
  using assms
proof (induction kvs arbitrary: out)
  case (Cons kv kvs)
  have "attrs_ok [kv]" "attrs_ok kvs" using Cons.prems(4) by (auto simp: attrs_ok_def)
  then show ?case
    using Cons.IH [of "merge_attr cap kv out"] merge_attr_keys [OF Cons.prems(1,2)] merge_attr_ok Cons.prems(3) by simp
qed simp

lemma enrich_loop_inv:
  assumes "\<forall>(sg, f)\<in>set es. \<forall>n. attrs_ok (f ctx n)" "distinct_keys out" "length out \<le> cap" "attrs_ok out"
  shows "distinct_keys (enrich_loop es ctx cap out) \<and> length (enrich_loop es ctx cap out) \<le> cap
    \<and> attrs_ok (enrich_loop es ctx cap out)"
  using assms
proof (induction es ctx cap out rule: enrich_loop.induct)
  case (2 sg f es ctx cap out)
  have f: "attrs_ok (f ctx n)" for n using "2.prems"(1) by auto
  show ?case
    using 2 fold_merge_inv [OF "2.prems"(2-4) f] by (simp add: Let_def)
qed simp

lemma enrich_loop_applies:
  "length out < cap \<Longrightarrow> sigs AND OTLP_SIG_BIT (ec_signal ctx) \<noteq> 0 \<Longrightarrow>
   enrich_loop ((sigs, f) # es) ctx cap out = enrich_loop es ctx cap (fold (merge_attr cap) (f ctx (enrich_room cap (length out))) out)"
  by simp

lemma enrich_loop_full: "cap \<le> length out \<Longrightarrow> enrich_loop es ctx cap out = out"
  by (cases es) auto

lemma length_fold_merge: "length (fold (merge_attr cap) kvs out) \<le> length out + length kvs"
proof (induction kvs arbitrary: out)
  case (Cons kv kvs)
  have "length (merge_attr cap kv out) \<le> Suc (length out)"
    by (auto simp: merge_attr_def split: option.splits)
  then show ?case using Cons [of "merge_attr cap kv out"] by simp
qed simp

lemma fold_merge_other:
  assumes "k \<notin> kv_key ` set kvs"
  shows "kv_lookup (fold (merge_attr cap) kvs out) k = kv_lookup out k"
  using assms by (induction kvs arbitrary: out) (auto simp: merge_attr_lookup)

lemma peer_keys:
  assumes "kv \<in> set (peer_enrich env ctx n)"
  shows "kv_key kv \<in> {''peer.k8s.pod.name'', ''peer.k8s.service.name'', ''peer.k8s.namespace.name'',
    ''network.peer.external'', ''peer.hostname''}"
  using assms
  by (auto simp: peer_enrich_def spnl_peer_enrich_attrs_def spnl_peer_fill_attrs_def put_attr_def c_trunc_def KV_KEY_CAP_def
      split: option.splits if_splits peer_kind.splits)

lemma sig_all: "OTLP_SIG_ALL AND OTLP_SIG_BIT s \<noteq> 0"
  by (cases s) (simp_all add: OTLP_SIG_ALL_def OTLP_SIG_BIT_def push_bit_eq_mult)

subsection \<open>Properties\<close>

text \<open>C27: whatever the enrichers find, the merged attribute list never exceeds its capacity, has no key
  twice, and every key and value fits its fixed-width field.\<close>

theorem enrich_run_wellformed:
  "distinct_keys (otlp_enrich_run env ctx cap) \<and> length (otlp_enrich_run env ctx cap) \<le> cap
    \<and> attrs_ok (otlp_enrich_run env ctx cap)"
proof -
  have "\<forall>(sg, f)\<in>set (g_enrichers env). \<forall>n. attrs_ok (f ctx n)"
    using k8s.keys cri.keys peer.keys by (auto simp: g_enrichers_def attrs_ok_def)
  then show ?thesis
    using enrich_loop_inv [of "g_enrichers env" ctx "[]" cap]
    by (simp add: otlp_enrich_run_def distinct_keys_def)
qed

text \<open>C28: last writer wins.  When the context names a cgroup, the CRI map has a nonempty name for it and
  the pod attributes leave at least one slot of the capacity free, the container name in the result is the
  CRI name and not the container id that the pod attributes carry, for every signal.\<close>

theorem enrich_container_name:
  assumes "ec_cgid ctx \<noteq> 0" "spnl_cri_lookup (ee_cri env) (ec_cgid ctx) 256 = Some name" "name \<noteq> []"
    and "length (k8s_enrich env ctx (enrich_room cap 0)) < cap"
  shows "kv_lookup (otlp_enrich_run env ctx cap) ''k8s.container.name'' = Some name"
proof -
  let ?k = "''k8s.container.name''"
  define o1 where "o1 = fold (merge_attr cap) (k8s_enrich env ctx (enrich_room cap 0)) []"
  have cap: "0 < cap" using assms(4) by simp
  have l1: "length o1 < cap"
    using length_fold_merge [of cap "k8s_enrich env ctx (enrich_room cap 0)" "[]"] assms(4) by (simp add: o1_def)
  have nl: "length name < 256" using assms(2) by (auto simp: spnl_cri_lookup_def c_trunc_def split: if_splits option.splits)
  define kv where "kv = \<lparr> kv_key = ?k, kv_val = name \<rparr>"
  have c: "cri_enrich env ctx n = [kv]" if "0 < n" for n
    using that assms(1-3) nl
    by (simp add: cri_enrich_def spnl_cri_enrich_attrs_def kv_def c_trunc_def KV_KEY_CAP_def KV_VAL_CAP_def)
  define o2 where "o2 = merge_attr cap kv o1"
  have l2: "kv_lookup o2 ?k = Some name" using l1 by (simp add: o2_def merge_attr_lookup kv_def)
  have pk: "?k \<notin> kv_key ` set (peer_enrich env ctx n)" for n using peer_keys by fastforce
  define es where "es = [(OTLP_SIG_BIT OTLP_SIGNAL_CONN, peer_enrich env)]"
  have rm: "0 < enrich_room cap (length o1)" using l1 by (simp add: enrich_room_def)
  have e1: "enrich_loop ((OTLP_SIG_ALL, k8s_enrich env) # (OTLP_SIG_ALL, cri_enrich env) # es) ctx cap []
      = enrich_loop ((OTLP_SIG_ALL, cri_enrich env) # es) ctx cap o1"
    using enrich_loop_applies [of "[]" cap OTLP_SIG_ALL ctx "k8s_enrich env"] cap sig_all by (simp add: o1_def del: enrich_loop.simps)
  have e2: "enrich_loop ((OTLP_SIG_ALL, cri_enrich env) # es) ctx cap o1 = enrich_loop es ctx cap o2"
    unfolding enrich_loop_applies [OF l1 sig_all] c [OF rm] o2_def by simp
  have "kv_lookup (enrich_loop es ctx cap o2) ?k = Some name"
    using l2 by (simp add: es_def fold_merge_other [OF pk])
  then show ?thesis
    using cap e1 e2 by (simp add: otlp_enrich_run_def g_enrichers_def es_def del: enrich_loop.simps)
qed

definition demo_env :: enrich_env where
  "demo_env = \<lparr> ee_opendir = (\<lambda>_. None), ee_k8s_root = None, ee_uidmap = None,
     ee_cri = Some [\<lparr> ce_cgid = 7, ce_name = ''coredns'' \<rparr>], ee_peer = peer_init None None None None, ee_rdns = (\<lambda>a. a) \<rparr>"

definition demo_ctx :: otlp_enrich_ctx where
  "demo_ctx = \<lparr> ec_signal = OTLP_SIGNAL_DNS, ec_cgid = 7, ec_peer_addr = None \<rparr>"

definition demo_tree :: "string \<Rightarrow> fsnode option" where
  "demo_tree d = (if d = ''/sys/fs/cgroup/kubepods''
     then Some (Fs_dir 1 [(''burstable'', Fs_dir 2 [(''pod0a1b'', Fs_dir 3 [(''c0ffee'', Fs_dir 7 [])])])]) else None)"

definition demo_env2 :: enrich_env where
  "demo_env2 = demo_env \<lparr> ee_opendir := demo_tree \<rparr>"

lemma demo_k8s: "k8s_enrich demo_env2 demo_ctx 2
    = [\<lparr> kv_key = ''k8s.pod.uid'', kv_val = ''0a1b'' \<rparr>, \<lparr> kv_key = ''k8s.container.name'', kv_val = ''c0ffee'' \<rparr>]"
    "k8s_enrich demo_env2 demo_ctx (enrich_room 3 0)
    = [\<lparr> kv_key = ''k8s.pod.uid'', kv_val = ''0a1b'' \<rparr>, \<lparr> kv_key = ''k8s.container.name'', kv_val = ''c0ffee'' \<rparr>]"
  by code_simp+

theorem enrich_container_name_witness:
  "kv_lookup (otlp_enrich_run demo_env2 demo_ctx 3) ''k8s.container.name'' = Some ''coredns''"
  by (rule enrich_container_name)
    (simp_all add: demo_k8s, simp_all add: demo_env2_def demo_env_def demo_ctx_def spnl_cri_lookup_def c_trunc_def)

text \<open>When the pod attributes alone fill the capacity, the CRI enricher is not consulted at all, so the
  container id stays even though the replacement would need no extra room.\<close>

lemma enrich_full_skips_cri:
  assumes "length (fold (merge_attr cap) (k8s_enrich env ctx (enrich_room cap 0)) []) = cap" "0 < cap"
  shows "otlp_enrich_run env ctx cap = fold (merge_attr cap) (k8s_enrich env ctx (enrich_room cap 0)) []"
  using enrich_loop_applies [of "[]" cap OTLP_SIG_ALL ctx "k8s_enrich env"] sig_all assms enrich_loop_full
  by (simp add: otlp_enrich_run_def g_enrichers_def del: enrich_loop.simps)

lemma enrich_full_keeps_id:
  "kv_lookup (otlp_enrich_run demo_env2 demo_ctx 2) ''k8s.container.name'' = Some ''c0ffee''"
  using enrich_full_skips_cri [of 2 demo_env2 demo_ctx] by (simp add: demo_k8s merge_attr_def kv_lookup_def enrich_room_def)

lemma mask_match:
  fixes h a :: u32
  shows "h AND push_bit k 0xFFFFFFFF = a AND push_bit k 0xFFFFFFFF \<longleftrightarrow> drop_bit k h = drop_bit k a"
proof -
  have m: "(0xFFFFFFFF :: u32) = - 1" by simp
  have l: "h AND push_bit k (- 1) = a AND push_bit k (- 1) \<longleftrightarrow> (\<forall>n. k \<le> n \<and> n < 32 \<longrightarrow> bit h n = bit a n)"
    by (auto simp: bit_eq_iff bit_simps)
  have r: "drop_bit k h = drop_bit k a \<longleftrightarrow> (\<forall>n. bit h (k + n) = bit a (k + n))"
  proof
    assume "drop_bit k h = drop_bit k a"
    then show "\<forall>n. bit h (k + n) = bit a (k + n)" by (metis bit_drop_bit_eq comp_apply)
  next
    assume "\<forall>n. bit h (k + n) = bit a (k + n)"
    then show "drop_bit k h = drop_bit k a" by (intro bit_eqI) (simp add: bit_drop_bit_eq)
  qed
  have "(\<forall>n. bit h (k + n) = bit a (k + n)) \<longleftrightarrow> (\<forall>n. k \<le> n \<and> n < 32 \<longrightarrow> bit h n = bit a n)"
  proof
    assume "\<forall>n. bit h (k + n) = bit a (k + n)"
    then show "\<forall>n. k \<le> n \<and> n < 32 \<longrightarrow> bit h n = bit a n" by (metis le_add_diff_inverse)
  next
    assume e: "\<forall>n. k \<le> n \<and> n < 32 \<longrightarrow> bit h n = bit a n"
    have "bit h (k + n) = bit a (k + n)" for n
      using e bit_imp_le_length [of h "k + n"] bit_imp_le_length [of a "k + n"] by (cases "k + n < 32") auto
    then show "\<forall>n. bit h (k + n) = bit a (k + n)" by blast
  qed
  then show ?thesis using l r unfolding m by blast
qed

lemma cidr_mask_match: "p \<le> 32 \<Longrightarrow> h AND cidr_mask p = a AND cidr_mask p \<longleftrightarrow> drop_bit (32 - p) h = drop_bit (32 - p) a"
proof (cases "p = 0")
  case True
  have "drop_bit 32 w = 0" for w :: u32 by (rule bit_eqI) (simp add: bit_simps)
  then show ?thesis using True by (simp add: cidr_mask_def)
next
  case False
  then show ?thesis unfolding cidr_mask_def using mask_match by simp
qed

text \<open>C29: CIDR notation.  \<open>parse_cidr\<close> of \<open>address/p\<close> yields a base and a mask such that an address is in
  the block exactly when its first \<open>p\<close> bits are those of the given address, for every prefix length
  from 0 to 32.\<close>

theorem cidr_membership:
  assumes "inet_pton4 s = Some a" "CHR ''/'' \<notin> set s" "length s \<le> 60" "p \<le> 32"
  shows "\<exists>base msk. parse_cidr (s @ ''/'' @ dec_of p) = Some (base, msk)
    \<and> (\<forall>h. in_cidr (Some (base, msk)) h \<longleftrightarrow> drop_bit (32 - p) h = drop_bit (32 - p) a)"
proof -
  have "length (dec_of p) \<le> 2" using assms(4) by (intro dec_of_len2) simp
  then have t: "c_trunc 64 (s @ CHR ''/'' # dec_of p) = s @ CHR ''/'' # dec_of p"
    using assms(3) by (simp add: c_trunc_id)
  have i: "c_strchr (s @ CHR ''/'' # dec_of p) CHR ''/'' = Some (length s)"
    using assms(2) by (rule c_strchr_append)
  have "parse_cidr (s @ ''/'' @ dec_of p) = Some (a AND cidr_mask p, cidr_mask p)"
    using assms(1,4) t i by (simp add: parse_cidr_def c_atoi_dec_of)
  then show ?thesis
    using cidr_mask_match [OF assms(4)] by (simp add: in_cidr_def)
qed

lemma demo_addr: "inet_pton4 ''10.42.0.0'' = Some 0x0A2A0000"
  by code_simp

theorem cidr_membership_witness:
  "\<exists>base msk. parse_cidr (''10.42.0.0'' @ ''/'' @ dec_of 16) = Some (base, msk)
    \<and> (\<forall>h. in_cidr (Some (base, msk)) h \<longleftrightarrow> drop_bit (32 - 16) h = drop_bit (32 - 16) (0x0A2A0000 :: u32))"
  by (rule cidr_membership [OF demo_addr]) simp_all

end
