(* ===== verification/Otlp_Grpc.thy ===== *)
theory Otlp_Grpc
  imports Otlp_Http
begin

text \<open>
  The unary gRPC client over HTTP/2 (\<open>src/runtime/otlp/otlp_grpc.c\<close>) and the choice of transport.

  Bytes written to the socket are collected in order; what the peer sends before closing is one
  byte list.  A write error or a read error ends the exchange, as in the source.  The receive
  buffer holds frames of up to 16384 bytes; larger ones are read and dropped.
\<close>

subsection \<open>Frames\<close>

definition H2_DATA :: u8 where "H2_DATA = 0"
definition H2_HEADERS :: u8 where "H2_HEADERS = 1"
definition H2_RSTSTREAM :: u8 where "H2_RSTSTREAM = 3"
definition H2_SETTINGS :: u8 where "H2_SETTINGS = 4"
definition H2_PING :: u8 where "H2_PING = 6"
definition H2_GOAWAY :: u8 where "H2_GOAWAY = 7"
definition H2_FLAG_ACK :: u8 where "H2_FLAG_ACK = 1"
definition H2_FLAG_END_STREAM :: u8 where "H2_FLAG_END_STREAM = 1"
definition H2_FLAG_END_HEADERS :: u8 where "H2_FLAG_END_HEADERS = 4"

lemmas h2_defs = H2_DATA_def H2_HEADERS_def H2_RSTSTREAM_def H2_SETTINGS_def H2_PING_def H2_GOAWAY_def
  H2_FLAG_ACK_def H2_FLAG_END_STREAM_def H2_FLAG_END_HEADERS_def

definition H2_PREFACE :: string where
  "H2_PREFACE = ''PRI * HTTP/2.0'' @ crlf @ crlf @ ''SM'' @ crlf @ crlf"

definition put_be24 :: "nat \<Rightarrow> bytes" where "put_be24 v = enc_be 3 v"
definition put_be32 :: "nat \<Rightarrow> bytes" where "put_be32 v = enc_be 4 v"
definition get_be24 :: "bytes \<Rightarrow> nat" where "get_be24 p = dec_be (take 3 p)"
definition get_be32 :: "bytes \<Rightarrow> nat" where "get_be32 p = dec_be (take 4 p)"

definition send_frame :: "u8 \<Rightarrow> u8 \<Rightarrow> nat \<Rightarrow> bytes \<Rightarrow> bytes" where
  "send_frame ftype flags sid payload =
     put_be24 (length payload) @ [ftype, flags] @ put_be32 (sid mod 2 ^ 31) @ payload"

subsection \<open>HPACK literals\<close>

text \<open>The encoders append to the buffer \<open>buf\<close> of capacity \<open>cap\<close>, or fail.\<close>

definition put_byte :: "nat \<Rightarrow> u8 \<Rightarrow> bytes \<Rightarrow> bytes option" where
  "put_byte cap b buf = (if length buf + 1 > cap then None else Some (buf @ [b]))"

function hpack_cont :: "nat \<Rightarrow> nat \<Rightarrow> bytes \<Rightarrow> bytes option" where
  "hpack_cont cap v buf =
     (if v \<ge> 128 then
        (case put_byte cap (of_nat (v mod 128 + 128)) buf of None \<Rightarrow> None | Some b \<Rightarrow> hpack_cont cap (v div 128) b)
      else put_byte cap (of_nat v) buf)"
  by pat_completeness auto
termination by (relation "measure (\<lambda>(cap, v, buf). v)") auto

declare hpack_cont.simps [simp del]

definition hpack_strlen :: "nat \<Rightarrow> nat \<Rightarrow> bytes \<Rightarrow> bytes option" where
  "hpack_strlen cap len buf =
     (if len < 127 then put_byte cap (of_nat len) buf
      else case put_byte cap 0x7F buf of None \<Rightarrow> None | Some b \<Rightarrow> hpack_cont cap (len - 127) b)"

definition put_str :: "nat \<Rightarrow> string \<Rightarrow> bytes \<Rightarrow> bytes option" where
  "put_str cap s buf =
     (case hpack_strlen cap (length s) buf of
        None \<Rightarrow> None
      | Some b \<Rightarrow> if length b + length s > cap then None else Some (b @ str_bytes s))"

definition hpack_lit :: "nat \<Rightarrow> string \<times> string \<Rightarrow> bytes \<Rightarrow> bytes option" where
  "hpack_lit cap nv buf =
     (case put_byte cap 0 buf of
        None \<Rightarrow> None
      | Some b \<Rightarrow> (case put_str cap (fst nv) b of None \<Rightarrow> None | Some b' \<Rightarrow> put_str cap (snd nv) b'))"

fun hpack_block :: "nat \<Rightarrow> (string \<times> string) list \<Rightarrow> bytes \<Rightarrow> bytes option" where
  "hpack_block cap [] buf = Some buf"
| "hpack_block cap (nv # nvs) buf =
     (case hpack_lit cap nv buf of None \<Rightarrow> None | Some b \<Rightarrow> hpack_block cap nvs b)"

definition ascii_lower :: "char \<Rightarrow> char" where
  "ascii_lower c = (let n = of_char c in if 65 \<le> n \<and> n \<le> 90 then char_of (n + 32 :: nat) else c)"

definition HPACK_CAP :: nat where "HPACK_CAP = 4096"

definition grpc_headers :: "string \<Rightarrow> string \<Rightarrow> string \<Rightarrow> bool \<Rightarrow> otlp_kv list \<Rightarrow> (string \<times> string) list" where
  "grpc_headers host port grpc_path gzipped hdrs =
     [('':method'', ''POST''), ('':scheme'', ''http''), ('':path'', grpc_path),
      ('':authority'', c_trunc 300 (host @ '':'' @ port)),
      (''content-type'', ''application/grpc+proto''), (''te'', ''trailers'')]
     @ (if gzipped then [(''grpc-encoding'', ''gzip'')] else [])
     @ map (\<lambda>kv. (map ascii_lower (c_trunc 128 (kv_key kv)), kv_val kv)) hdrs"

definition grpc_message :: "bool \<Rightarrow> bytes \<Rightarrow> bytes" where
  "grpc_message gzipped gb = (if gzipped then 1 else 0) # put_be32 (length gb) @ gb"

subsection \<open>The response loop\<close>

definition FPAYLOAD_MAX :: nat where "FPAYLOAD_MAX = 16384"

record h2_conn =
  hc_in :: bytes
  hc_out :: bytes
  hc_done :: bool
  hc_err :: bool

definition h2_handle :: "u8 \<Rightarrow> u8 \<Rightarrow> nat \<Rightarrow> bytes \<Rightarrow> h2_conn \<Rightarrow> h2_conn" where
  "h2_handle ftype fflags fsid payload c =
     (if ftype = H2_SETTINGS then
        (if fflags AND H2_FLAG_ACK = 0 then c \<lparr> hc_out := hc_out c @ send_frame H2_SETTINGS H2_FLAG_ACK 0 [] \<rparr> else c)
      else if ftype = H2_PING then
        (if fflags AND H2_FLAG_ACK = 0 \<and> length payload = 8
         then c \<lparr> hc_out := hc_out c @ send_frame H2_PING H2_FLAG_ACK 0 payload \<rparr> else c)
      else if ftype = H2_GOAWAY then c \<lparr> hc_err := True, hc_done := True \<rparr>
      else if ftype = H2_RSTSTREAM then (if fsid = 1 then c \<lparr> hc_err := True, hc_done := True \<rparr> else c)
      else if ftype = H2_HEADERS \<or> ftype = H2_DATA then
        (if fsid = 1 \<and> fflags AND H2_FLAG_END_STREAM \<noteq> 0 then c \<lparr> hc_done := True \<rparr> else c)
      else c)"

fun h2_read :: "nat \<Rightarrow> h2_conn \<Rightarrow> h2_conn" where
  "h2_read 0 c = c"
| "h2_read (Suc guard) c =
     (if hc_done c then c
      else if length (hc_in c) < 9 then c \<lparr> hc_in := [] \<rparr>
      else
        let fh = take 9 (hc_in c);
            rest = drop 9 (hc_in c);
            flen = get_be24 fh;
            fsid = get_be32 (drop 5 fh) mod 2 ^ 31
        in if flen > FPAYLOAD_MAX then h2_read guard (c \<lparr> hc_in := drop flen rest \<rparr>)
           else if length rest < flen then c \<lparr> hc_in := [] \<rparr>
           else h2_read guard (h2_handle (fh ! 3) (fh ! 4) fsid (take flen rest) (c \<lparr> hc_in := drop flen rest \<rparr>)))"

record grpc_world =
  gw_connect :: "nat \<Rightarrow> bool"
  gw_tls_ok :: bool
  gw_gzip :: "bytes \<Rightarrow> bytes option"
  gw_headers :: "string option"
  gw_write_ok :: "nat \<Rightarrow> bool"
  gw_peer :: bytes

datatype grpc_error = Grpc_connect | Grpc_tls | Grpc_send | Grpc_hpack

text \<open>The three writes of the request are the preface with SETTINGS, HEADERS and DATA; \<open>gw_write_ok\<close>
  says which succeed.  The result is an error, or whether the call was answered, with the bytes written.\<close>

definition otlp_grpc_export :: "grpc_world \<Rightarrow> string \<Rightarrow> string \<Rightarrow> string \<Rightarrow> bytes \<Rightarrow> bool \<Rightarrow> int \<Rightarrow>
    grpc_error + (bool \<times> bytes)" where
  "otlp_grpc_export w host port grpc_path body tls max_retries =
     (let retries = (if max_retries \<le> 0 then 5 else nat max_retries) in
      if \<not> fst (connect_retry (gw_connect w) 0 retries) then Inl Grpc_connect
      else if tls \<and> \<not> gw_tls_ok w then Inl Grpc_tls
      else if \<not> gw_write_ok w 0 then Inl Grpc_send
      else
        let (gb, gzipped) = (case gw_gzip w body of Some z \<Rightarrow> (z, True) | None \<Rightarrow> (body, False));
            hdrs = otlp_env_headers (gw_headers w) 16
        in case hpack_block HPACK_CAP (grpc_headers host port grpc_path gzipped hdrs) [] of
             None \<Rightarrow> Inl Grpc_hpack
           | Some hb \<Rightarrow>
               if \<not> gw_write_ok w 1 \<or> \<not> gw_write_ok w 2 then Inl Grpc_send
               else (let out = str_bytes H2_PREFACE @ send_frame H2_SETTINGS 0 0 []
                          @ send_frame H2_HEADERS H2_FLAG_END_HEADERS 1 hb
                          @ send_frame H2_DATA H2_FLAG_END_STREAM 1 (grpc_message gzipped gb);
                    c = h2_read 256 \<lparr> hc_in = gw_peer w, hc_out = out, hc_done = False, hc_err = False \<rparr>
                in Inr (hc_done c \<and> \<not> hc_err c, hc_out c)))"

subsection \<open>Choosing the transport\<close>

definition otlp_signal_endpoint_env :: "string \<Rightarrow> string option" where
  "otlp_signal_endpoint_env http_path =
     (if c_strstr http_path ''traces'' \<noteq> None then Some ''OTEL_EXPORTER_OTLP_TRACES_ENDPOINT''
      else if c_strstr http_path ''metrics'' \<noteq> None then Some ''OTEL_EXPORTER_OTLP_METRICS_ENDPOINT''
      else if c_strstr http_path ''logs'' \<noteq> None then Some ''OTEL_EXPORTER_OTLP_LOGS_ENDPOINT''
      else None)"

text \<open>The endpoint and the HTTP path after the per-signal override.\<close>

definition resolve_endpoint :: "(string \<Rightarrow> string option) \<Rightarrow> string \<Rightarrow> string \<Rightarrow> string \<times> string" where
  "resolve_endpoint getenv endpoint http_path =
     (case otlp_signal_endpoint_env http_path of
        None \<Rightarrow> (endpoint, http_path)
      | Some var \<Rightarrow>
          (case getenv var of
             None \<Rightarrow> (endpoint, http_path)
           | Some ep \<Rightarrow>
               if ep = [] then (endpoint, http_path)
               else (ep, case otlp_http_endpoint_path ep 512 of
                           Some p \<Rightarrow> if p \<noteq> [] then p else ''/'' | None \<Rightarrow> ''/'')))"

datatype transport = Use_grpc string string bool | Use_http string string string bool

definition otlp_transport_plan :: "(string \<Rightarrow> string option) \<Rightarrow> string \<Rightarrow> string \<Rightarrow> transport option" where
  "otlp_transport_plan getenv endpoint http_path =
     (let (ep, path) = resolve_endpoint getenv endpoint http_path in
      case otlp_http_parse_endpoint ep 256 16 of
        None \<Rightarrow> None
      | Some (host, port) \<Rightarrow>
          (let is_grpc = c_starts ep ''grpc://'' \<or> c_starts ep ''grpcs://'';
               tls = c_starts ep ''https://'' \<or> c_starts ep ''grpcs://''
           in Some (if is_grpc then Use_grpc host port tls else Use_http host port path tls)))"

definition otlp_transport_send :: "(string \<Rightarrow> string option) \<Rightarrow> grpc_world \<Rightarrow> http_world \<Rightarrow>
    string \<Rightarrow> string \<Rightarrow> string \<Rightarrow> string \<Rightarrow> bytes \<Rightarrow> int option" where
  "otlp_transport_send getenv gw hw endpoint http_path grpc_path content_type body =
     (case otlp_transport_plan getenv endpoint http_path of
        None \<Rightarrow> None
      | Some (Use_grpc host port tls) \<Rightarrow>
          (case otlp_grpc_export gw host port grpc_path body tls 0 of
             Inl e \<Rightarrow> None | Inr (ok, out) \<Rightarrow> Some (if ok then 200 else 0))
      | Some (Use_http host port path tls) \<Rightarrow>
          (case fst (otlp_http_post hw host port path content_type body tls 0) of
             Inl e \<Rightarrow> None | Inr code \<Rightarrow> Some code))"

subsection \<open>A decoder for HPACK literals\<close>

text \<open>The receiving side of the encoding (RFC 7541, sections 5.1, 5.2 and 6.2.2), as a
  specification of what the encoder has to produce.\<close>

fun dec_cont :: "bytes \<Rightarrow> (nat \<times> bytes) option" where
  "dec_cont [] = None"
| "dec_cont (b # bs) =
     (if unat b < 128 then Some (unat b, bs)
      else case dec_cont bs of None \<Rightarrow> None | Some (v, r) \<Rightarrow> Some (unat b - 128 + 128 * v, r))"

definition dec_strlen :: "bytes \<Rightarrow> (nat \<times> bytes) option" where
  "dec_strlen bs =
     (case bs of [] \<Rightarrow> None
      | b # r \<Rightarrow> if unat b < 127 then Some (unat b, r)
                 else if unat b = 127 then map_option (\<lambda>(v, r'). (v + 127, r')) (dec_cont r) else None)"

definition dec_str :: "bytes \<Rightarrow> (string \<times> bytes) option" where
  "dec_str bs =
     (case dec_strlen bs of None \<Rightarrow> None
      | Some (n, r) \<Rightarrow> if length r < n then None else Some (map byte_char (take n r), drop n r))"

definition dec_lit :: "bytes \<Rightarrow> ((string \<times> string) \<times> bytes) option" where
  "dec_lit bs =
     (case bs of [] \<Rightarrow> None
      | b # r \<Rightarrow> if b \<noteq> 0 then None
                 else case dec_str r of None \<Rightarrow> None
                      | Some (n, r1) \<Rightarrow> (case dec_str r1 of None \<Rightarrow> None | Some (v, r2) \<Rightarrow> Some ((n, v), r2)))"

lemma dec_cont_shrinks: "dec_cont bs = Some (v, r) \<Longrightarrow> length r < length bs"
  by (induction bs arbitrary: v r) (auto split: if_splits option.splits simp: less_SucI)

lemma dec_str_shrinks: "dec_str bs = Some (s, r) \<Longrightarrow> length r < length bs"
  by (auto simp: dec_str_def dec_strlen_def split: option.splits list.splits if_splits dest!: dec_cont_shrinks)

lemma dec_lit_shrinks: "dec_lit bs = Some (nv, r) \<Longrightarrow> length r < length bs"
  by (auto simp: dec_lit_def split: option.splits list.splits if_splits dest!: dec_str_shrinks)

function dec_block :: "bytes \<Rightarrow> (string \<times> string) list option" where
  "dec_block bs =
     (if bs = [] then Some []
      else case dec_lit bs of None \<Rightarrow> None
           | Some (nv, r) \<Rightarrow> map_option (\<lambda>nvs. nv # nvs) (dec_block r))"
  by pat_completeness auto
termination by (relation "measure length") (auto dest: dec_lit_shrinks)

declare dec_block.simps [simp del]

subsection \<open>Facts\<close>

lemma put_byte_Some: "put_byte cap b buf = Some b' \<longleftrightarrow> b' = buf @ [b] \<and> length buf + 1 \<le> cap"
  by (auto simp: put_byte_def)

lemma hpack_cont_dec:
  "hpack_cont cap v buf = Some b' \<Longrightarrow> \<exists>e. b' = buf @ e \<and> (\<forall>r. dec_cont (e @ r) = Some (v, r))"
proof (induction cap v buf rule: hpack_cont.induct)
  case (1 cap v buf)
  show ?case
  proof (cases "v \<ge> 128")
    case True
    have lt: "v mod 128 + 128 < 256" by simp
    then have u: "unat (of_nat (v mod 128 + 128) :: u8) = v mod 128 + 128"
      by (simp only: unat_of_nat) simp
    obtain b where b: "put_byte cap (of_nat (v mod 128 + 128)) buf = Some b" and h: "hpack_cont cap (v div 128) b = Some b'"
      using 1(2) True by (subst (asm) hpack_cont.simps) (auto split: option.splits)
    obtain e where e: "b' = b @ e" "\<And>r. dec_cont (e @ r) = Some (v div 128, r)"
      using 1(1) [OF True b h] by auto
    have "b' = buf @ (of_nat (v mod 128 + 128) # e)" using b e(1) by (simp add: put_byte_Some)
    moreover have "dec_cont ((of_nat (v mod 128 + 128) # e) @ r) = Some (v, r)" for r
      using e(2) [of r] u by (simp del: of_nat_add)
    ultimately show ?thesis by blast
  next
    case False
    then have "unat (of_nat v :: u8) = v" by (simp add: unat_of_nat)
    then show ?thesis using 1(2) False
      by (subst (asm) hpack_cont.simps) (auto simp: put_byte_Some)
  qed
qed

lemma hpack_strlen_dec:
  assumes "hpack_strlen cap n buf = Some b'"
  shows "\<exists>e. b' = buf @ e \<and> (\<forall>r. dec_strlen (e @ r) = Some (n, r))"
proof (cases "n < 127")
  case True
  then have "unat (of_nat n :: u8) = n" by (simp add: unat_of_nat)
  then show ?thesis using assms True by (auto simp: hpack_strlen_def put_byte_Some dec_strlen_def)
next
  case False
  then obtain b where b: "put_byte cap 0x7F buf = Some b" and h: "hpack_cont cap (n - 127) b = Some b'"
    using assms by (auto simp: hpack_strlen_def split: option.splits)
  obtain e where e: "b' = b @ e" "\<And>r. dec_cont (e @ r) = Some (n - 127, r)"
    using hpack_cont_dec [OF h] by auto
  have "b' = buf @ (0x7F # e)" using b e by (simp add: put_byte_Some)
  moreover have "dec_strlen ((0x7F # e) @ r) = Some (n, r)" for r
    using e(2) [of r] False by (simp add: dec_strlen_def)
  ultimately show ?thesis by blast
qed

lemma put_str_dec:
  assumes "put_str cap s buf = Some b'"
  shows "\<exists>e. b' = buf @ e \<and> (\<forall>r. dec_str (e @ r) = Some (s, r))"
proof -
  obtain b where h: "hpack_strlen cap (length s) buf = Some b" and b': "b' = b @ str_bytes s"
    using assms by (auto simp: put_str_def split: option.splits if_splits)
  obtain e where e: "b = buf @ e" "\<And>r. dec_strlen (e @ r) = Some (length s, r)"
    using hpack_strlen_dec [OF h] by auto
  have "dec_str ((e @ str_bytes s) @ r) = Some (s, r)" for r
    using e(2) [of "str_bytes s @ r"] by (simp add: dec_str_def)
  then show ?thesis using b' e(1) by (intro exI [of _ "e @ str_bytes s"]) simp
qed

lemma hpack_lit_dec:
  assumes "hpack_lit cap nv buf = Some b'"
  shows "\<exists>e. b' = buf @ e \<and> e \<noteq> [] \<and> (\<forall>r. dec_lit (e @ r) = Some (nv, r))"
proof -
  obtain b1 where b1: "put_str cap (fst nv) (buf @ [0]) = Some b1" and b2: "put_str cap (snd nv) b1 = Some b'"
    using assms by (auto simp: hpack_lit_def put_byte_Some split: option.splits)
  obtain e1 where e1: "b1 = (buf @ [0]) @ e1" "\<And>r. dec_str (e1 @ r) = Some (fst nv, r)"
    using put_str_dec [OF b1] by auto
  obtain e2 where e2: "b' = b1 @ e2" "\<And>r. dec_str (e2 @ r) = Some (snd nv, r)"
    using put_str_dec [OF b2] by auto
  have "dec_lit ((0 # e1 @ e2) @ r) = Some (nv, r)" for r
    using e1(2) [of "e2 @ r"] e2(2) [of r] by (simp add: dec_lit_def)
  then show ?thesis using e1(1) e2(1) by (intro exI [of _ "0 # e1 @ e2"]) simp
qed

lemma hpack_block_dec:
  "hpack_block cap nvs buf = Some b' \<Longrightarrow> \<exists>e. b' = buf @ e \<and> dec_block e = Some nvs"
proof (induction nvs arbitrary: buf)
  case Nil
  then show ?case by (simp add: dec_block.simps)
next
  case (Cons nv nvs)
  then obtain b where b: "hpack_lit cap nv buf = Some b" and h: "hpack_block cap nvs b = Some b'"
    by (auto split: option.splits)
  obtain e where e: "b = buf @ e" "e \<noteq> []" "\<And>r. dec_lit (e @ r) = Some (nv, r)"
    using hpack_lit_dec [OF b] by auto
  obtain e' where e': "b' = b @ e'" "dec_block e' = Some nvs" using Cons.IH [OF h] by auto
  have "dec_block (e @ e') = Some (nv # nvs)"
    using e e' by (subst dec_block.simps) simp
  then show ?case using e(1) e'(1) by (intro exI [of _ "e @ e'"]) simp
qed

subsection \<open>The response, frame by frame\<close>

record h2_frame =
  fr_type :: u8
  fr_flags :: u8
  fr_sid :: nat
  fr_payload :: bytes

definition frame_bytes :: "h2_frame \<Rightarrow> bytes" where
  "frame_bytes f = send_frame (fr_type f) (fr_flags f) (fr_sid f) (fr_payload f)"

definition frame_ok :: "h2_frame \<Rightarrow> bool" where
  "frame_ok f \<longleftrightarrow> length (fr_payload f) < 2 ^ 24 \<and> fr_sid f < 2 ^ 31"

text \<open>The receiving side of the framing (RFC 9113, section 4.1) and of the gRPC message prefix.\<close>

function dec_frames :: "bytes \<Rightarrow> h2_frame list option" where
  "dec_frames bs =
     (if bs = [] then Some []
      else if length bs < 9 \<or> length bs < 9 + dec_be (take 3 bs) then None
      else map_option (Cons \<lparr> fr_type = bs ! 3, fr_flags = bs ! 4, fr_sid = dec_be (take 4 (drop 5 bs)) mod 2 ^ 31,
                              fr_payload = take (dec_be (take 3 bs)) (drop 9 bs) \<rparr>)
             (dec_frames (drop (9 + dec_be (take 3 bs)) bs)))"
  by pat_completeness auto
termination by (relation "measure length") auto

declare dec_frames.simps [simp del]

definition dec_grpc :: "bytes \<Rightarrow> (bool \<times> bytes) option" where
  "dec_grpc bs =
     (case bs of [] \<Rightarrow> None
      | flag # r \<Rightarrow> if length r < 4 \<or> dec_be (take 4 r) \<noteq> length r - 4 \<or> 1 < flag then None
                    else Some (flag = 1, drop 4 r))"

text \<open>What the frames of the peer mean to the client, which ignores frames with more than 16384 bytes: a
  frame that fails the call (GOAWAY, or RST_STREAM of stream 1), one that completes it (HEADERS or DATA
  of stream 1 with END_STREAM), and the acknowledgements a frame asks for (SETTINGS and PING).\<close>

definition frame_fits :: "h2_frame \<Rightarrow> bool" where
  "frame_fits f \<longleftrightarrow> length (fr_payload f) \<le> 16384"

definition frame_fails :: "h2_frame \<Rightarrow> bool" where
  "frame_fails f \<longleftrightarrow> frame_fits f \<and> (fr_type f = 7 \<or> fr_type f = 3 \<and> fr_sid f = 1)"

definition frame_completes :: "h2_frame \<Rightarrow> bool" where
  "frame_completes f \<longleftrightarrow> frame_fits f \<and> fr_type f \<in> {0, 1} \<and> fr_sid f = 1 \<and> bit (fr_flags f) 0"

definition frame_last :: "h2_frame \<Rightarrow> bool" where
  "frame_last f \<longleftrightarrow> frame_fails f \<or> frame_completes f"

definition frame_acks :: "h2_frame \<Rightarrow> h2_frame list" where
  "frame_acks f =
     (if frame_fits f \<and> \<not> bit (fr_flags f) 0 then
        if fr_type f = 4 then [\<lparr> fr_type = 4, fr_flags = 1, fr_sid = 0, fr_payload = [] \<rparr>]
        else if fr_type f = 6 \<and> length (fr_payload f) = 8
        then [\<lparr> fr_type = 6, fr_flags = 1, fr_sid = 0, fr_payload = fr_payload f \<rparr>]
        else []
      else [])"

abbreviation frame_reply :: "h2_frame \<Rightarrow> bytes" where
  "frame_reply f \<equiv> concat (map frame_bytes (frame_acks f))"

lemma flag_bit0: "(x :: u8) AND 1 = 0 \<longleftrightarrow> \<not> bit x 0"
  by (simp only: and_one_eq bit_0 even_iff_mod_2_eq_zero not_not)

lemma frame_header:
  assumes "frame_ok f"
  shows "length (frame_bytes f @ r) \<ge> 9"
    and "take 9 (frame_bytes f @ r) = put_be24 (length (fr_payload f)) @ [fr_type f, fr_flags f] @ put_be32 (fr_sid f)"
    and "drop 9 (frame_bytes f @ r) = fr_payload f @ r"
  using assms by (simp_all add: frame_bytes_def send_frame_def put_be24_def put_be32_def frame_ok_def)

lemma header_fields:
  assumes "n < 2 ^ 24" "sid < 2 ^ 31"
  shows "get_be24 (put_be24 n @ [t, fl] @ put_be32 sid) = n"
    and "get_be32 (drop 5 (put_be24 n @ [t, fl] @ put_be32 sid)) mod 2 ^ 31 = sid"
    and "(put_be24 n @ [t, fl] @ put_be32 sid) ! 3 = t"
    and "(put_be24 n @ [t, fl] @ put_be32 sid) ! 4 = fl"
  using assms by (simp_all add: get_be24_def get_be32_def put_be24_def put_be32_def dec_enc_be nth_append)

lemma h2_read_frame:
  assumes "frame_ok f" "\<not> hc_done c" "hc_in c = frame_bytes f @ r"
  shows "h2_read (Suc n) c =
    h2_read n (c \<lparr> hc_in := r, hc_out := hc_out c @ frame_reply f, hc_done := frame_last f,
                   hc_err := hc_err c \<or> frame_fails f \<rparr>)"
proof -
  let ?h = "put_be24 (length (fr_payload f)) @ [fr_type f, fr_flags f] @ put_be32 (fr_sid f)"
  have ok: "length (fr_payload f) < 2 ^ 24" "fr_sid f < 2 ^ 31" using assms(1) by (simp_all add: frame_ok_def)
  have step: "h2_read (Suc n) c =
     (if length (fr_payload f) > FPAYLOAD_MAX then h2_read n (c \<lparr> hc_in := r \<rparr>)
      else h2_read n (h2_handle (fr_type f) (fr_flags f) (fr_sid f) (fr_payload f) (c \<lparr> hc_in := r \<rparr>)))"
    using assms(2) frame_header [OF assms(1), of r] header_fields [OF ok, of "fr_type f" "fr_flags f"]
    unfolding h2_read.simps assms(3) Let_def by (simp del: append_assoc append_Cons)
  show ?thesis
  proof (cases "frame_fits f")
    case True
    have "h2_handle (fr_type f) (fr_flags f) (fr_sid f) (fr_payload f) (c \<lparr> hc_in := r \<rparr>) =
      c \<lparr> hc_in := r, hc_out := hc_out c @ frame_reply f, hc_done := frame_last f, hc_err := hc_err c \<or> frame_fails f \<rparr>"
      using True assms(2)
      by (auto simp: h2_handle_def frame_acks_def frame_bytes_def frame_last_def frame_fails_def frame_completes_def
          flag_bit0 h2_defs)
    then show ?thesis using step True by (simp add: frame_fits_def FPAYLOAD_MAX_def)
  next
    case False
    then have "frame_acks f = []" "\<not> frame_last f" "\<not> frame_fails f"
      by (simp_all add: frame_acks_def frame_last_def frame_fails_def frame_completes_def)
    moreover have "c \<lparr> hc_in := r \<rparr> = c \<lparr> hc_in := r, hc_out := hc_out c, hc_done := False, hc_err := hc_err c \<rparr>"
      using assms(2) by (cases c) simp
    ultimately show ?thesis using step False by (simp add: frame_fits_def FPAYLOAD_MAX_def del: h2_read.simps)
  qed
qed

lemma h2_read_done: "hc_done c \<Longrightarrow> h2_read n c = c"
  by (cases n) simp_all

text \<open>The frames handled: everything up to the first one that ends the call.\<close>

fun handled :: "h2_frame list \<Rightarrow> h2_frame list" where
  "handled [] = []"
| "handled (f # fs) = (if frame_last f then [f] else f # handled fs)"

text \<open>The loop reads at most \<open>n\<close> frames.\<close>

lemma h2_read_frames:
  assumes "\<forall>f\<in>set fs. frame_ok f" "\<not> hc_done c" "\<not> hc_err c" "hc_in c = concat (map frame_bytes fs)"
  shows "hc_out (h2_read n c) = hc_out c @ concat (map frame_reply (handled (take n fs)))
    \<and> (hc_done (h2_read n c) \<longleftrightarrow> (\<exists>f\<in>set (take n fs). frame_last f))
    \<and> (hc_err (h2_read n c) \<longleftrightarrow> (\<exists>f\<in>set (handled (take n fs)). frame_fails f))"
  using assms
proof (induction n arbitrary: fs c)
  case (Suc m)
  show ?case
  proof (cases fs)
    case Nil
    then show ?thesis using Suc.prems by simp
  next
    case (Cons f gs)
    let ?c = "c \<lparr> hc_in := concat (map frame_bytes gs), hc_out := hc_out c @ frame_reply f, hc_done := frame_last f,
                  hc_err := hc_err c \<or> frame_fails f \<rparr>"
    have r: "h2_read (Suc m) c = h2_read m ?c"
      using Suc.prems Cons by (intro h2_read_frame) simp_all
    show ?thesis
    proof (cases "frame_last f")
      case True
      then have "h2_read m ?c = ?c" by (intro h2_read_done) simp
      then show ?thesis using r True Suc.prems(3) Cons by (simp del: h2_read.simps)
    next
      case False
      then have nf: "\<not> frame_fails f" by (simp add: frame_last_def)
      have "hc_out (h2_read m ?c) = hc_out ?c @ concat (map frame_reply (handled (take m gs)))
        \<and> (hc_done (h2_read m ?c) \<longleftrightarrow> (\<exists>f\<in>set (take m gs). frame_last f))
        \<and> (hc_err (h2_read m ?c) \<longleftrightarrow> (\<exists>f\<in>set (handled (take m gs)). frame_fails f))"
        using Suc.prems Cons False nf by (intro Suc.IH) simp_all
      then show ?thesis using r False nf Cons by (simp del: h2_read.simps)
    qed
  qed
qed simp

lemma frame_completes_not_fails: "frame_completes f \<Longrightarrow> \<not> frame_fails f"
  by (auto simp: frame_completes_def frame_fails_def)

text \<open>The call succeeds if the first frame that ends it completes it.\<close>

lemma handled_success:
  "(\<exists>f\<in>set fs. frame_last f) \<and> \<not> (\<exists>f\<in>set (handled fs). frame_fails f) \<longleftrightarrow>
   (\<exists>pre f post. fs = pre @ f # post \<and> (\<forall>g\<in>set pre. \<not> frame_last g) \<and> frame_completes f)"
proof (induction fs)
  case (Cons g gs)
  show ?case
  proof (cases "frame_last g")
    case True
    have "(\<exists>pre f post. g # gs = pre @ f # post \<and> (\<forall>h\<in>set pre. \<not> frame_last h) \<and> frame_completes f) \<longleftrightarrow> frame_completes g"
    proof
      assume "frame_completes g"
      then show "\<exists>pre f post. g # gs = pre @ f # post \<and> (\<forall>h\<in>set pre. \<not> frame_last h) \<and> frame_completes f"
        by (intro exI [of _ "[]"]) simp
    qed (use True in \<open>auto simp: Cons_eq_append_conv\<close>)
    then show ?thesis using True frame_completes_not_fails [of g] by (auto simp: frame_last_def)
  next
    case False
    have "(\<exists>pre f post. g # gs = pre @ f # post \<and> (\<forall>h\<in>set pre. \<not> frame_last h) \<and> frame_completes f) \<longleftrightarrow>
        (\<exists>pre f post. gs = pre @ f # post \<and> (\<forall>h\<in>set pre. \<not> frame_last h) \<and> frame_completes f)"
    proof
      assume "\<exists>pre f post. g # gs = pre @ f # post \<and> (\<forall>h\<in>set pre. \<not> frame_last h) \<and> frame_completes f"
      then obtain pre f post where e: "g # gs = pre @ f # post" "\<forall>h\<in>set pre. \<not> frame_last h" "frame_completes f" by blast
      then obtain pre' where "pre = g # pre'" using False by (cases pre) (auto simp: frame_last_def)
      then show "\<exists>pre f post. gs = pre @ f # post \<and> (\<forall>h\<in>set pre. \<not> frame_last h) \<and> frame_completes f" using e by auto
    next
      assume "\<exists>pre f post. gs = pre @ f # post \<and> (\<forall>h\<in>set pre. \<not> frame_last h) \<and> frame_completes f"
      then obtain pre f post where "gs = pre @ f # post" "\<forall>h\<in>set pre. \<not> frame_last h" "frame_completes f" by blast
      then show "\<exists>pre f post. g # gs = pre @ f # post \<and> (\<forall>h\<in>set pre. \<not> frame_last h) \<and> frame_completes f"
        using False by (intro exI [of _ "g # pre"]) auto
    qed
    moreover have "\<not> frame_fails g" using False by (simp add: frame_last_def)
    ultimately show ?thesis using Cons.IH False by simp
  qed
qed simp

lemma dec_frames_bytes: "\<forall>f\<in>set fs. frame_ok f \<Longrightarrow> dec_frames (concat (map frame_bytes fs)) = Some fs"
proof (induction fs)
  case (Cons f fs)
  let ?r = "concat (map frame_bytes fs)"
  let ?h = "put_be24 (length (fr_payload f)) @ [fr_type f, fr_flags f] @ put_be32 (fr_sid f)"
  have ok: "frame_ok f" "length (fr_payload f) < 2 ^ 24" "fr_sid f < 2 ^ 31" using Cons.prems by (simp_all add: frame_ok_def)
  have b: "frame_bytes f @ ?r = ?h @ fr_payload f @ ?r"
    using ok by (simp add: frame_bytes_def send_frame_def)
  have h: "length ?h = 9" "dec_be (take 3 (?h @ x)) = length (fr_payload f)" "dec_be (take 4 (drop 5 (?h @ x))) = fr_sid f"
    "(?h @ x) ! 3 = fr_type f" "(?h @ x) ! 4 = fr_flags f" for x
    using ok by (simp_all add: put_be24_def put_be32_def dec_enc_be nth_append)
  have d: "drop 9 (?h @ x) = x" "drop (9 + k) (?h @ x) = drop k x" for x k
    using h(1) by (simp_all del: append_assoc)
  have ne: "?h @ fr_payload f @ ?r \<noteq> []" by simp
  have len: "length (?h @ fr_payload f @ ?r) = 9 + length (fr_payload f) + length ?r"
    using h(1) by (simp only: length_append)
  have "dec_frames (?h @ fr_payload f @ ?r) = map_option (Cons f) (dec_frames ?r)"
    using ok(3) ne len by (subst dec_frames.simps) (simp only: h d if_False, cases f, simp)
  then show ?case using Cons b by simp
qed (simp add: dec_frames.simps)

lemma frame_acks_ok: "g \<in> set (frame_acks f) \<Longrightarrow> frame_ok g"
  by (auto simp: frame_acks_def frame_ok_def split: if_splits)

lemma dec_grpc_message: "length m < 2 ^ 32 \<Longrightarrow> dec_grpc (grpc_message z m) = Some (z, m)"
  by (simp add: dec_grpc_def grpc_message_def put_be32_def dec_enc_be)

text \<open>The message sent: compressed if the build compresses.\<close>

definition grpc_payload :: "grpc_world \<Rightarrow> bytes \<Rightarrow> bool \<times> bytes" where
  "grpc_payload w body = (case gw_gzip w body of None \<Rightarrow> (False, body) | Some z \<Rightarrow> (True, z))"

lemma grpc_export_Inr:
  assumes "otlp_grpc_export w host port path body tls k = Inr (ok, out)" "grpc_payload w body = (gz, m)"
    and "\<forall>f\<in>set fs. frame_ok f" "gw_peer w = concat (map frame_bytes fs)"
  shows "\<exists>hb. hpack_block HPACK_CAP (grpc_headers host port path gz (otlp_env_headers (gw_headers w) 16)) [] = Some hb
    \<and> out = str_bytes H2_PREFACE @ concat (map frame_bytes ([\<lparr> fr_type = 4, fr_flags = 0, fr_sid = 0, fr_payload = [] \<rparr>,
          \<lparr> fr_type = 1, fr_flags = 4, fr_sid = 1, fr_payload = hb \<rparr>,
          \<lparr> fr_type = 0, fr_flags = 1, fr_sid = 1, fr_payload = grpc_message gz m \<rparr>]
        @ concat (map frame_acks (handled (take 256 fs)))))
    \<and> (ok \<longleftrightarrow> (\<exists>f\<in>set (take 256 fs). frame_last f) \<and> \<not> (\<exists>f\<in>set (handled (take 256 fs)). frame_fails f))"
proof -
  let ?hdrs = "otlp_env_headers (gw_headers w) 16"
  have g: "(case gw_gzip w body of Some z \<Rightarrow> (z, True) | None \<Rightarrow> (body, False)) = (m, gz)"
    using assms(2) by (auto simp: grpc_payload_def split: option.splits)
  obtain hb where hb: "hpack_block HPACK_CAP (grpc_headers host port path gz ?hdrs) [] = Some hb"
    using assms(1) unfolding otlp_grpc_export_def Let_def g by (auto split: if_splits option.splits)
  let ?req = "str_bytes H2_PREFACE @ send_frame H2_SETTINGS 0 0 []
     @ send_frame H2_HEADERS H2_FLAG_END_HEADERS 1 hb @ send_frame H2_DATA H2_FLAG_END_STREAM 1 (grpc_message gz m)"
  let ?c = "\<lparr> hc_in = gw_peer w, hc_out = ?req, hc_done = False, hc_err = False \<rparr>"
  have "ok = (hc_done (h2_read 256 ?c) \<and> \<not> hc_err (h2_read 256 ?c)) \<and> out = hc_out (h2_read 256 ?c)"
    using assms(1) hb unfolding otlp_grpc_export_def Let_def g
    by (simp del: h2_read.simps split: if_splits)
  moreover have "concat (map frame_reply gs) = concat (map frame_bytes (concat (map frame_acks gs)))" for gs
    by (induction gs) simp_all
  moreover have "?req = str_bytes H2_PREFACE @ concat (map frame_bytes [\<lparr> fr_type = 4, fr_flags = 0, fr_sid = 0, fr_payload = [] \<rparr>,
      \<lparr> fr_type = 1, fr_flags = 4, fr_sid = 1, fr_payload = hb \<rparr>,
      \<lparr> fr_type = 0, fr_flags = 1, fr_sid = 1, fr_payload = grpc_message gz m \<rparr>])" (is "_ = _ @ concat (map frame_bytes ?fs)")
    by (simp add: frame_bytes_def h2_defs)
  moreover note h2_read_frames [OF assms(3), of ?c 256]
  ultimately have "out = (str_bytes H2_PREFACE @ concat (map frame_bytes ?fs)) @ concat (map frame_bytes (concat (map frame_acks (handled (take 256 fs)))))"
    "ok \<longleftrightarrow> (\<exists>f\<in>set (take 256 fs). frame_last f) \<and> \<not> (\<exists>f\<in>set (handled (take 256 fs)). frame_fails f)"
    using assms(4) by (simp_all only: h2_conn.select_convs simp_thms)
  then show ?thesis using hb by (simp only: map_append concat_append append_assoc simp_thms ex_simps) blast
qed

lemma hpack_block_length: "hpack_block cap nvs buf = Some b' \<Longrightarrow> length buf \<le> cap \<Longrightarrow> length b' \<le> cap"
proof (induction nvs arbitrary: buf)
  case (Cons nv nvs)
  then obtain b where "hpack_lit cap nv buf = Some b" "hpack_block cap nvs b = Some b'"
    by (auto split: option.splits)
  then show ?case using Cons.IH by (auto simp: hpack_lit_def put_str_def split: option.splits if_splits)
qed simp

subsection \<open>Properties\<close>

text \<open>C12: the HPACK encoder is correct for names and values of any length.  Whatever header list
  fits the buffer is decoded by an HPACK decoder to exactly the same list of names and values, in
  order, and the encoding stays within the buffer.\<close>

theorem hpack_roundtrip:
  assumes "hpack_block cap nvs [] = Some hb"
  shows "dec_block hb = Some nvs \<and> length hb \<le> cap"
  using hpack_block_dec [OF assms] hpack_block_length [OF assms] by auto

theorem hpack_roundtrip_witness:
  "\<exists>hb. hpack_block 4096 [(''te'', ''trailers''), (''authorization'', replicate 300 CHR ''x'')] [] = Some hb
     \<and> dec_block hb = Some [(''te'', ''trailers''), (''authorization'', replicate 300 CHR ''x'')]"
proof -
  have "hpack_block 4096 [(''te'', ''trailers''), (''authorization'', replicate 300 CHR ''x'')] [] \<noteq> None"
    by (simp add: hpack_lit_def put_str_def hpack_strlen_def put_byte_def hpack_cont.simps)
  then show ?thesis using hpack_roundtrip by blast
qed

text \<open>C30: one unary call, with or without gzip.  Let the peer answer with any sequence of frames and then
  close, and let the message be shorter than \<open>2^24 - 5\<close> bytes.  If the exchange is not cut short by a
  connection, TLS, write or header-buffer error, the bytes the client wrote are the preface and a frame
  sequence that a frame decoder reads as: an empty SETTINGS frame, a HEADERS frame whose block decodes to
  the request headers, a DATA frame with END_STREAM whose payload decodes to the compression flag and the
  message, and exactly the SETTINGS and PING acknowledgements that the frames up to the end of the call
  ask for.  The client reads at most 256 frames; it reports success exactly if the first of them that
  ends the call is a HEADERS or DATA frame of stream 1 with END_STREAM and at most 16384 bytes.\<close>

theorem grpc_export_answered:
  assumes "otlp_grpc_export w host port path body tls k = Inr (ok, out)"
    and "grpc_payload w body = (gz, m)" "length m + 5 < 2 ^ 24"
    and "\<forall>f\<in>set fs. frame_ok f" "gw_peer w = concat (map frame_bytes fs)"
  shows "\<exists>rest hb data. out = str_bytes H2_PREFACE @ rest
    \<and> dec_frames rest = Some ([\<lparr> fr_type = 4, fr_flags = 0, fr_sid = 0, fr_payload = [] \<rparr>,
          \<lparr> fr_type = 1, fr_flags = 4, fr_sid = 1, fr_payload = hb \<rparr>,
          \<lparr> fr_type = 0, fr_flags = 1, fr_sid = 1, fr_payload = data \<rparr>]
        @ concat (map frame_acks (handled (take 256 fs))))
    \<and> dec_block hb = Some (grpc_headers host port path gz (otlp_env_headers (gw_headers w) 16))
    \<and> dec_grpc data = Some (gz, m)
    \<and> (ok \<longleftrightarrow> (\<exists>pre f post. take 256 fs = pre @ f # post \<and> (\<forall>g\<in>set pre. \<not> frame_last g) \<and> frame_completes f))"
proof -
  obtain hb where hb: "hpack_block HPACK_CAP (grpc_headers host port path gz (otlp_env_headers (gw_headers w) 16)) [] = Some hb"
    and e: "out = str_bytes H2_PREFACE @ concat (map frame_bytes ([\<lparr> fr_type = 4, fr_flags = 0, fr_sid = 0, fr_payload = [] \<rparr>,
          \<lparr> fr_type = 1, fr_flags = 4, fr_sid = 1, fr_payload = hb \<rparr>,
          \<lparr> fr_type = 0, fr_flags = 1, fr_sid = 1, fr_payload = grpc_message gz m \<rparr>]
        @ concat (map frame_acks (handled (take 256 fs)))))" (is "_ = _ @ concat (map frame_bytes ?fs)")
    and ok: "ok \<longleftrightarrow> (\<exists>f\<in>set (take 256 fs). frame_last f) \<and> \<not> (\<exists>f\<in>set (handled (take 256 fs)). frame_fails f)"
    using grpc_export_Inr [OF assms(1,2,4,5)] by blast
  have "length hb < 2 ^ 24" using hpack_block_length [OF hb] by (simp add: HPACK_CAP_def)
  then have "\<forall>f\<in>set ?fs. frame_ok f"
    using assms(3) frame_acks_ok by (auto simp: frame_ok_def grpc_message_def put_be32_def)
  then have "dec_frames (concat (map frame_bytes ?fs)) = Some ?fs" by (rule dec_frames_bytes)
  moreover have "dec_grpc (grpc_message gz m) = Some (gz, m)" using assms(3) by (intro dec_grpc_message) simp
  moreover have "dec_block hb = Some (grpc_headers host port path gz (otlp_env_headers (gw_headers w) 16))"
    using hpack_block_dec [OF hb] by auto
  ultimately show ?thesis using e ok unfolding handled_success by blast
qed

definition demo_frames :: "h2_frame list" where
  "demo_frames = [\<lparr> fr_type = H2_SETTINGS, fr_flags = 0, fr_sid = 0, fr_payload = [] \<rparr>,
     \<lparr> fr_type = H2_HEADERS, fr_flags = 5, fr_sid = 1, fr_payload = [0x88] \<rparr>]"

definition demo_grpc :: grpc_world where
  "demo_grpc = \<lparr> gw_connect = (\<lambda>k. k = 1), gw_tls_ok = False, gw_gzip = (\<lambda>_. None), gw_headers = None,
     gw_write_ok = (\<lambda>_. True), gw_peer = concat (map frame_bytes demo_frames) \<rparr>"

lemma demo_grpc_connects: "fst (connect_retry (\<lambda>k. k = Suc 0) 0 5)"
  by (simp add: numeral_eq_Suc split_beta)

lemma demo_grpc_hpack: "\<exists>hb. hpack_block HPACK_CAP (grpc_headers ''h'' ''4317'' ''/p'' False []) [] = Some hb"
  by (simp add: grpc_headers_def HPACK_CAP_def hpack_lit_def put_str_def hpack_strlen_def put_byte_def c_trunc_def)

lemma demo_grpc_runs:
  "\<exists>ok out. otlp_grpc_export demo_grpc ''h'' ''4317'' ''/p'' [7] False 0 = Inr (ok, out)"
  using demo_grpc_connects demo_grpc_hpack
  by (auto simp: otlp_grpc_export_def demo_grpc_def otlp_env_headers_def otlp_env_kv_list_def Let_def simp del: h2_read.simps)

lemma demo_frames_end:
  "\<forall>f\<in>set demo_frames. frame_ok f" "\<not> frame_last (demo_frames ! 0)" "frame_completes (demo_frames ! 1)"
  by (simp_all add: demo_frames_def frame_ok_def frame_last_def frame_fails_def frame_completes_def frame_fits_def
      h2_defs bit_0)

theorem grpc_export_answered_witness:
  "\<exists>out. otlp_grpc_export demo_grpc ''h'' ''4317'' ''/p'' [7] False 0 = Inr (True, out)"
proof -
  obtain ok out where r: "otlp_grpc_export demo_grpc ''h'' ''4317'' ''/p'' [7] False 0 = Inr (ok, out)"
    using demo_grpc_runs by auto
  have p: "grpc_payload demo_grpc [7] = (False, [7])" "length [7 :: u8] + 5 < 2 ^ 24"
    "gw_peer demo_grpc = concat (map frame_bytes demo_frames)"
    by (simp_all add: demo_grpc_def grpc_payload_def)
  have "take 256 demo_frames = [demo_frames ! 0] @ demo_frames ! 1 # []" by (simp add: demo_frames_def)
  then have "\<exists>pre f post. take 256 demo_frames = pre @ f # post \<and> (\<forall>g\<in>set pre. \<not> frame_last g) \<and> frame_completes f"
    using demo_frames_end(2,3)
    by (intro exI [of _ "[demo_frames ! 0]"] exI [of _ "demo_frames ! 1"] exI [of _ "[]"]) (simp only: ball_simps list.set, simp)
  moreover have "ok \<longleftrightarrow> (\<exists>pre f post. take 256 demo_frames = pre @ f # post \<and> (\<forall>g\<in>set pre. \<not> frame_last g) \<and> frame_completes f)"
    using grpc_export_answered [OF r p(1,2) demo_frames_end(1) p(3)] by (elim exE conjE)
  ultimately have ok by (rule iffD2 [rotated])
  then show ?thesis using r by simp
qed

text \<open>C19: a per-signal endpoint is used verbatim.  When the variable of the signal is set to a URL,
  the base endpoint plays no role: host and port come from that URL, its path replaces the
  caller's (the root when it has none), and its scheme selects gRPC or HTTP and TLS.\<close>

theorem signal_endpoint_verbatim:
  assumes "otlp_signal_endpoint_env http_path = Some var" "getenv var = Some (sch @ h @ '':'' @ p @ path)"
    and "known_scheme sch" "url_host h" "url_port p" "url_path path"
    and "length h < 256" "length p < 16" "length path < 512"
  shows "otlp_transport_plan getenv endpoint http_path = Some
    (if sch \<in> {''grpc://'', ''grpcs://''} then Use_grpc h p (sch = ''grpcs://'')
     else Use_http h p (if path = [] then ''/'' else path) (sch = ''https://''))"
proof -
  let ?ep = "sch @ h @ '':'' @ p @ path"
  have "?ep \<noteq> []" by simp
  then have "resolve_endpoint getenv endpoint http_path = (?ep, if path = [] then ''/'' else path)"
    using assms(1,2) split_endpoint [OF assms(3-9)] by (simp add: resolve_endpoint_def)
  then have "otlp_transport_plan getenv endpoint http_path = Some
    (if c_starts ?ep ''grpc://'' \<or> c_starts ?ep ''grpcs://'' then Use_grpc h p (c_starts ?ep ''https://'' \<or> c_starts ?ep ''grpcs://'')
     else Use_http h p (if path = [] then ''/'' else path) (c_starts ?ep ''https://'' \<or> c_starts ?ep ''grpcs://''))"
    using split_endpoint [OF assms(3-9)] by (simp add: otlp_transport_plan_def Let_def)
  moreover have "(c_starts ?ep ''grpc://'' \<or> c_starts ?ep ''grpcs://'') = (sch \<in> {''grpc://'', ''grpcs://''})"
    "c_starts ?ep ''https://'' = (sch = ''https://'')" "c_starts ?ep ''grpcs://'' = (sch = ''grpcs://'')"
    using assms(3) unfolding known_scheme_def by (elim insertE emptyE; simp add: c_starts_def)+
  ultimately show ?thesis by auto
qed

theorem signal_endpoint_verbatim_witness:
  "otlp_transport_plan (\<lambda>v. if v = ''OTEL_EXPORTER_OTLP_TRACES_ENDPOINT'' then Some ''https://t:1/v2/trace/otlp'' else None)
     ''http://base:4318'' ''/v1/traces'' = Some (Use_http ''t'' ''1'' ''/v2/trace/otlp'' True)"
  using signal_endpoint_verbatim [of "''/v1/traces''" "''OTEL_EXPORTER_OTLP_TRACES_ENDPOINT''"
      "\<lambda>v. if v = ''OTEL_EXPORTER_OTLP_TRACES_ENDPOINT'' then Some ''https://t:1/v2/trace/otlp'' else None"
      "''https://''" "''t''" "''1''" "''/v2/trace/otlp''" "''http://base:4318''"]
  by (simp add: known_scheme_def url_host_def url_port_def url_path_def otlp_signal_endpoint_env_def c_strstr_Cons c_starts_def)

end
