(* ===== verification/Nanopb.thy ===== *)
theory Nanopb
  imports Prelude
begin

text \<open>
  The protobuf encoder the exporter uses (\<open>src/runtime/otlp/nanopb/pb_encode.c\<close>), for the field
  types of the OTLP messages: output streams, varints, tags, fixed-width values, strings,
  submessages encoded in two passes, and the presence rules of proto3.

  An encoder maps a stream to the stream after it, or to \<open>None\<close> when it reports an error.  A
  message is the list of its fields in the order of the descriptor; a callback is an encoder that
  is given the field it writes.
\<close>

unbundle bit_operations_syntax

subsection \<open>Output streams\<close>

record pb_ostream =
  os_sizing :: bool
  os_state :: bytes
  os_max_size :: nat
  os_bytes_written :: nat

type_synonym encoder = "pb_ostream \<Rightarrow> pb_ostream option"

definition pb_ostream_from_buffer :: "nat \<Rightarrow> pb_ostream" where
  "pb_ostream_from_buffer bufsize =
     \<lparr> os_sizing = False, os_state = [], os_max_size = bufsize, os_bytes_written = 0 \<rparr>"

definition PB_OSTREAM_SIZING :: pb_ostream where
  "PB_OSTREAM_SIZING = \<lparr> os_sizing = True, os_state = [], os_max_size = 0, os_bytes_written = 0 \<rparr>"

definition buf_write :: "bytes \<Rightarrow> pb_ostream \<Rightarrow> pb_ostream" where
  "buf_write buf stream = stream \<lparr> os_state := os_state stream @ buf \<rparr>"

text \<open>A null buffer on a sizing stream only counts; \<open>pb_skip\<close> is that call.\<close>

definition pb_write :: "bytes \<Rightarrow> encoder" where
  "pb_write buf stream =
     (let count = length buf in
      if count > 0 \<and> \<not> os_sizing stream then
        if os_bytes_written stream + count > os_max_size stream then None
        else Some ((buf_write buf stream) \<lparr> os_bytes_written := os_bytes_written stream + count \<rparr>)
      else Some (stream \<lparr> os_bytes_written := os_bytes_written stream + count \<rparr>))"

definition pb_skip :: "nat \<Rightarrow> encoder" where
  "pb_skip count stream = Some (stream \<lparr> os_bytes_written := os_bytes_written stream + count \<rparr>)"

definition and_then :: "encoder \<Rightarrow> encoder \<Rightarrow> encoder" where
  "and_then e1 e2 stream = (case e1 stream of None \<Rightarrow> None | Some s \<Rightarrow> e2 s)"

definition enc_done :: encoder where
  "enc_done stream = Some stream"

primrec enc_all :: "encoder list \<Rightarrow> encoder" where
  "enc_all [] = enc_done"
| "enc_all (e # es) = and_then e (enc_all es)"

subsection \<open>Scalars\<close>

fun varint_low :: "nat \<Rightarrow> u8 \<Rightarrow> u32 \<Rightarrow> u32 \<Rightarrow> bytes \<times> u8" where
  "varint_low 0 byte low high = ([], byte)"
| "varint_low (Suc left) byte low high =
     (if low \<noteq> 0 \<or> high \<noteq> 0 then
        let (bs, b) = varint_low left (ucast (low AND 0x7F)) (drop_bit 7 low) high
        in ((byte OR 0x80) # bs, b)
      else ([], byte))"

function varint_high :: "u8 \<Rightarrow> u32 \<Rightarrow> bytes" where
  "varint_high byte high =
     (if high \<noteq> 0 then (byte OR 0x80) # varint_high (ucast (high AND 0x7F)) (drop_bit 7 high) else [byte])"
  by pat_completeness auto
termination
proof (relation "measure (\<lambda>(b, h). unat h)")
  fix b :: u8 and h :: u32
  assume "h \<noteq> 0"
  then have "unat h > 0" by (simp add: unat_gt_0)
  then have "unat h div 128 < unat h" by simp
  moreover have "unat (drop_bit 7 h) = unat h div 128" by (simp add: drop_bit_eq_div unat_div)
  ultimately show "((ucast (h AND 0x7F), drop_bit 7 h), (b, h)) \<in> measure (\<lambda>(b, h). unat h)" by simp
qed simp

declare varint_high.simps [simp del]

definition pb_encode_varint_32 :: "u32 \<Rightarrow> u32 \<Rightarrow> encoder" where
  "pb_encode_varint_32 low high =
     (let (bs, b) = varint_low 4 (ucast (low AND 0x7F)) (drop_bit 7 low) high
      in if high \<noteq> 0
         then pb_write (bs @ varint_high (b OR push_bit 4 (ucast (high AND 0x07))) (drop_bit 3 high))
         else pb_write (bs @ [b]))"

definition pb_encode_varint :: "u64 \<Rightarrow> encoder" where
  "pb_encode_varint v =
     (if v \<le> 0x7F then pb_write [ucast v] else pb_encode_varint_32 (ucast v) (ucast (drop_bit 32 v)))"

definition zigzag :: "u64 \<Rightarrow> u64" where
  "zigzag v = (if v <s 0 then NOT (push_bit 1 (v AND drop_bit 1 (NOT 0))) else push_bit 1 v)"

definition pb_encode_svarint :: "u64 \<Rightarrow> encoder" where
  "pb_encode_svarint v = pb_encode_varint (zigzag v)"

definition pb_encode_fixed32 :: "u32 \<Rightarrow> encoder" where
  "pb_encode_fixed32 v = pb_write (enc_le 4 (unat v))"

definition pb_encode_fixed64 :: "u64 \<Rightarrow> encoder" where
  "pb_encode_fixed64 v = pb_write (enc_le 8 (unat v))"

subsection \<open>Tags, strings and submessages\<close>

datatype pb_wire_type = PB_WT_VARINT | PB_WT_64BIT | PB_WT_STRING | PB_WT_32BIT

fun wt_code :: "pb_wire_type \<Rightarrow> u64" where
  "wt_code PB_WT_VARINT = 0"
| "wt_code PB_WT_64BIT = 1"
| "wt_code PB_WT_STRING = 2"
| "wt_code PB_WT_32BIT = 5"

datatype pb_ltype = LT_BOOL | LT_VARINT | LT_UVARINT | LT_SVARINT | LT_FIXED32 | LT_FIXED64 | LT_BYTES | LT_STRING
  | LT_SUBMESSAGE

record pb_iter =
  it_tag :: u32
  it_type :: pb_ltype

definition pb_encode_tag :: "pb_wire_type \<Rightarrow> u32 \<Rightarrow> encoder" where
  "pb_encode_tag wiretype field_number = pb_encode_varint (push_bit 3 (ucast field_number) OR wt_code wiretype)"

fun ltype_wire :: "pb_ltype \<Rightarrow> pb_wire_type" where
  "ltype_wire LT_BOOL = PB_WT_VARINT"
| "ltype_wire LT_VARINT = PB_WT_VARINT"
| "ltype_wire LT_UVARINT = PB_WT_VARINT"
| "ltype_wire LT_SVARINT = PB_WT_VARINT"
| "ltype_wire LT_FIXED32 = PB_WT_32BIT"
| "ltype_wire LT_FIXED64 = PB_WT_64BIT"
| "ltype_wire LT_BYTES = PB_WT_STRING"
| "ltype_wire LT_STRING = PB_WT_STRING"
| "ltype_wire LT_SUBMESSAGE = PB_WT_STRING"

definition pb_encode_tag_for_field :: "pb_iter \<Rightarrow> encoder" where
  "pb_encode_tag_for_field it = pb_encode_tag (ltype_wire (it_type it)) (it_tag it)"

definition pb_encode_string :: "bytes \<Rightarrow> encoder" where
  "pb_encode_string buffer = and_then (pb_encode_varint (of_nat (length buffer))) (pb_write buffer)"

definition pb_encode_submessage :: "encoder \<Rightarrow> encoder" where
  "pb_encode_submessage msg stream =
     (case msg PB_OSTREAM_SIZING of
        None \<Rightarrow> None
      | Some sub \<Rightarrow>
          (let size = os_bytes_written sub in
           case pb_encode_varint (of_nat size) stream of
             None \<Rightarrow> None
           | Some st \<Rightarrow>
               if os_sizing st then pb_skip size st
               else if os_bytes_written st + size > os_max_size st then None
               else
                 case msg \<lparr> os_sizing = False, os_state = os_state st, os_max_size = size, os_bytes_written = 0 \<rparr> of
                   None \<Rightarrow> None
                 | Some sub2 \<Rightarrow>
                     if os_bytes_written sub2 \<noteq> size then None
                     else Some (st \<lparr> os_state := os_state sub2,
                                     os_bytes_written := os_bytes_written st + os_bytes_written sub2 \<rparr>)))"

subsection \<open>Fields and messages\<close>

text \<open>A static field holds an integer (sign- or zero-extended to 64 bits, a double by its bits) or a
  submessage.\<close>

datatype pb_value = Pb_int u64 | Pb_msg encoder

datatype pb_content = Static pb_value | Callback "(pb_iter \<Rightarrow> encoder) option"

datatype pb_presence = Singular | Optional bool | Repeated | Oneof u32

type_synonym pb_field = "pb_iter \<times> pb_presence \<times> pb_content"

definition pb_check_proto3_default_value :: "pb_content \<Rightarrow> bool" where
  "pb_check_proto3_default_value c = (case c of Static (Pb_int v) \<Rightarrow> v = 0 | _ \<Rightarrow> False)"

definition encode_basic_field :: "pb_iter \<Rightarrow> pb_value \<Rightarrow> encoder" where
  "encode_basic_field it v =
     and_then (pb_encode_tag_for_field it)
       (case v of
          Pb_msg m \<Rightarrow> pb_encode_submessage m
        | Pb_int n \<Rightarrow>
            (case it_type it of
               LT_BOOL \<Rightarrow> pb_encode_varint (if n \<noteq> 0 then 1 else 0)
             | LT_SVARINT \<Rightarrow> pb_encode_svarint n
             | LT_FIXED32 \<Rightarrow> pb_encode_fixed32 (ucast n)
             | LT_FIXED64 \<Rightarrow> pb_encode_fixed64 n
             | _ \<Rightarrow> pb_encode_varint n))"

definition encode_callback_field :: "pb_iter \<Rightarrow> (pb_iter \<Rightarrow> encoder) option \<Rightarrow> encoder" where
  "encode_callback_field it cb = (case cb of None \<Rightarrow> enc_done | Some f \<Rightarrow> f it)"

definition encode_field :: "pb_field \<Rightarrow> encoder" where
  "encode_field f =
     (let (it, pres, content) = f;
          go = (case content of Callback cb \<Rightarrow> encode_callback_field it cb | Static v \<Rightarrow> encode_basic_field it v)
      in case pres of
           Oneof which \<Rightarrow> if which \<noteq> it_tag it then enc_done else go
         | Optional has \<Rightarrow> if \<not> has then enc_done else go
         | Singular \<Rightarrow> if pb_check_proto3_default_value content then enc_done else go
         | Repeated \<Rightarrow> go)"

definition pb_encode :: "pb_field list \<Rightarrow> encoder" where
  "pb_encode fs = enc_all (map encode_field fs)"

subsection \<open>What an encoder writes\<close>

text \<open>An encoder writes \<open>bs\<close> when, on every stream with room accounted for, it appends exactly these
  bytes if they fit, counts them on a sizing stream, and fails otherwise.\<close>

definition appended :: "bytes \<Rightarrow> pb_ostream \<Rightarrow> pb_ostream" where
  "appended bs st = st \<lparr> os_state := (if os_sizing st then os_state st else os_state st @ bs),
                         os_bytes_written := os_bytes_written st + length bs \<rparr>"

definition has_room :: "pb_ostream \<Rightarrow> bytes \<Rightarrow> bool" where
  "has_room st bs \<longleftrightarrow> os_sizing st \<or> os_bytes_written st + length bs \<le> os_max_size st"

definition writes :: "encoder \<Rightarrow> bytes \<Rightarrow> bool" where
  "writes e bs \<longleftrightarrow> (\<forall>st. has_room st [] \<longrightarrow> e st = (if has_room st bs then Some (appended bs st) else None))"

lemma writesD: "writes e bs \<Longrightarrow> has_room st [] \<Longrightarrow> e st = (if has_room st bs then Some (appended bs st) else None)"
  by (simp add: writes_def)

lemma writes_write: "writes (pb_write bs) bs"
  by (auto simp: writes_def pb_write_def has_room_def appended_def buf_write_def Let_def)

lemma writes_done: "writes enc_done []"
  by (auto simp: writes_def enc_done_def has_room_def appended_def)

lemma writes_then:
  assumes "writes e1 b1" "writes e2 b2"
  shows "writes (and_then e1 e2) (b1 @ b2)"
proof (unfold writes_def, intro allI impI)
  fix st
  assume r: "has_room st []"
  show "and_then e1 e2 st = (if has_room st (b1 @ b2) then Some (appended (b1 @ b2) st) else None)"
  proof (cases "has_room st b1")
    case True
    then have "has_room (appended b1 st) []" by (simp add: has_room_def appended_def)
    then show ?thesis
      using True r assms by (auto simp: and_then_def writesD) (auto simp: has_room_def appended_def)
  next
    case False
    then show ?thesis using r assms by (auto simp: and_then_def writesD) (auto simp: has_room_def)
  qed
qed

lemma writes_all: "list_all2 writes es bss \<Longrightarrow> writes (enc_all es) (concat bss)"
  by (induction es bss rule: list_all2_induct) (auto simp: writes_done intro: writes_then)

text \<open>Varints: the reference encoding of a natural number in base 128.\<close>

function leb :: "nat \<Rightarrow> bytes" where
  "leb n = (if n < 128 then [of_nat n] else of_nat (n mod 128 + 128) # leb (n div 128))"
  by pat_completeness auto
termination by (relation "measure id") auto

declare leb.simps [simp del]

lemma leb_small: "n < 128 \<Longrightarrow> leb n = [of_nat n]"
  by (subst leb.simps) simp

lemma leb_big: "128 \<le> n \<Longrightarrow> leb n = of_nat (n mod 128 + 128) # leb (n div 128)"
  by (subst leb.simps) simp

lemma leb_step: "b < 128 \<Longrightarrow> 1 \<le> q \<Longrightarrow> leb (b + 128 * q) = of_nat (b + 128) # leb q"
  by (subst leb_big) (simp_all del: of_nat_add)

lemma low7: "unat (ucast (w AND 0x7F :: u32) :: u8) = unat w mod 128"
proof -
  have "w AND 0x7F = take_bit 7 w" by (simp add: take_bit_eq_mask mask_eq_exp_minus_1)
  then have "unat (w AND 0x7F) = unat w mod 128" by (simp add: unsigned_take_bit_eq take_bit_nat_def)
  then show ?thesis by (simp add: unsigned_ucast_eq take_bit_nat_def)
qed

lemma or_0x80: "unat b < 128 \<Longrightarrow> b OR 0x80 = (of_nat (unat b + 128) :: u8)"
  using or_push_bit [of b 7 1] by simp

lemma unat_shift: "unat (drop_bit k w) = unat (w :: 'a::len word) div 2 ^ k"
  using unat_less [of w] by (simp add: unsigned_drop_bit_eq drop_bit_nat_def take_bit_nat_eq_self)

lemma varint_high_leb: "unat b < 128 \<Longrightarrow> varint_high b h = leb (unat b + 128 * unat h)"
proof (induction b h rule: varint_high.induct)
  case (1 b h)
  show ?case
  proof (cases "h = 0")
    case True
    then show ?thesis using 1(2) by (simp add: varint_high.simps leb_small)
  next
    case False
    then have "unat h > 0" by (simp add: unat_gt_0)
    moreover have "varint_high (ucast (h AND 0x7F)) (drop_bit 7 h) = leb (unat h)"
      using 1(1) [OF False] by (simp add: low7 unat_shift)
    ultimately show ?thesis
      using 1(2) False by (subst varint_high.simps) (simp add: or_0x80 leb_big del: of_nat_add)
  qed
qed

lemma varint_low_leb:
  "unat b + 128 * unat low < 2 ^ (7 * n + 4) \<Longrightarrow> unat b < 128 \<Longrightarrow>
   leb (unat b + 128 * unat low + 2 ^ (7 * n + 4) * unat high) =
     fst (varint_low n b low high) @ leb (unat (snd (varint_low n b low high)) + 16 * unat high)
   \<and> unat (snd (varint_low n b low high)) < 128
   \<and> (high \<noteq> 0 \<longrightarrow> unat (snd (varint_low n b low high)) < 16)"
proof (induction n arbitrary: b low)
  case 0
  then have "unat low = 0" by simp
  then show ?case using 0 by simp
next
  case (Suc n)
  show ?case
  proof (cases "low = 0 \<and> high = 0")
    case True
    then show ?thesis using Suc.prems by simp
  next
    case False
    let ?b = "ucast (low AND 0x7F) :: u8"
    let ?r = "varint_low n ?b (drop_bit 7 low) high"
    have split: "unat low mod 128 + 128 * (unat low div 128) = unat low" by simp
    have pw: "(2::nat) ^ (7 * Suc n + 4) = 128 * 2 ^ (7 * n + 4)" by (simp add: power_add)
    have "unat low < 2 ^ (7 * n + 4)" using Suc.prems(1) pw by linarith
    then have ih: "leb (unat low + 2 ^ (7 * n + 4) * unat high) = fst ?r @ leb (unat (snd ?r) + 16 * unat high)
        \<and> unat (snd ?r) < 128 \<and> (high \<noteq> 0 \<longrightarrow> unat (snd ?r) < 16)"
      using Suc.IH [of ?b "drop_bit 7 low"] by (simp add: low7 unat_shift)
    let ?v = "unat b + 128 * (unat low + 2 ^ (7 * n + 4) * unat high)"
    have "unat low > 0 \<or> unat high > 0" using False by (auto simp: unat_gt_0)
    then have "unat low + 2 ^ (7 * n + 4) * unat high \<ge> 1" by (auto simp: Suc_le_eq)
    then have "leb ?v = of_nat (unat b + 128) # leb (unat low + 2 ^ (7 * n + 4) * unat high)"
      using Suc.prems(2) by (intro leb_step)
    moreover have "unat b + 128 * unat low + 2 ^ (7 * Suc n + 4) * unat high = ?v"
      unfolding pw by (simp add: algebra_simps)
    moreover have "varint_low (Suc n) b low high = ((b OR 0x80) # fst ?r, snd ?r)"
      using False by (auto simp: split_beta)
    ultimately show ?thesis using ih or_0x80 [OF Suc.prems(2)] by (simp only: fst_conv snd_conv append_Cons simp_thms) blast
  qed
qed

lemma unat_halves: "unat (ucast (v :: u64) :: u32) + 2 ^ 32 * unat (ucast (drop_bit 32 v) :: u32) = unat v"
proof -
  have "unat v < 2 ^ 32 * 2 ^ 32" using unat_less [of v] by simp
  then have "unat v div 2 ^ 32 < 2 ^ 32" by (simp add: less_mult_imp_div_less)
  moreover have "unat v mod 2 ^ 32 + 2 ^ 32 * (unat v div 2 ^ 32) = unat v" by simp
  ultimately show ?thesis by (simp add: unsigned_ucast_eq take_bit_nat_def unat_shift)
qed

lemma writes_varint_32: "writes (pb_encode_varint_32 low high) (leb (unat low + 2 ^ 32 * unat high))"
proof -
  let ?b = "ucast (low AND 0x7F) :: u8"
  let ?r = "varint_low 4 ?b (drop_bit 7 low) high"
  have "unat low < 2 ^ 32" using unat_less [of low] by simp
  then have ih: "leb (unat low + 2 ^ 32 * unat high) = fst ?r @ leb (unat (snd ?r) + 16 * unat high)
      \<and> unat (snd ?r) < 128 \<and> (high \<noteq> 0 \<longrightarrow> unat (snd ?r) < 16)"
    using varint_low_leb [of ?b "drop_bit 7 low" 4 high] by (simp add: low7 unat_shift)
  show ?thesis
  proof (cases "high = 0")
    case True
    then show ?thesis
      using ih writes_write [of "fst ?r @ [snd ?r]"] by (simp add: pb_encode_varint_32_def split_beta leb_small Let_def)
  next
    case False
    let ?h = "ucast (high AND 0x07) :: u8"
    have b16: "unat (snd ?r) < 16" using ih False by blast
    have h8: "unat ?h = unat high mod 8"
    proof -
      have "high AND 0x07 = take_bit 3 high" by (simp add: take_bit_eq_mask mask_eq_exp_minus_1)
      then show ?thesis by (simp add: unsigned_ucast_eq unsigned_take_bit_eq take_bit_nat_def mod_mod_cancel)
    qed
    have p: "unat (push_bit 4 ?h) = 16 * (unat high mod 8)"
      using h8 by (simp add: unsigned_push_bit_eq push_bit_nat_def take_bit_nat_def)
    have "unat high mod 8 \<le> 7" using mod_less_divisor [of 8 "unat high"] by linarith
    then have s: "unat (snd ?r) + unat (push_bit 4 ?h) < 128" using b16 p by linarith
    have "unat (snd ?r OR push_bit 4 ?h) = unat (snd ?r) + 16 * (unat high mod 8)"
      using or_push_bit [of "snd ?r" 4 ?h] b16 p s by (simp add: unat_word_ariths)
    moreover have "16 * (unat high mod 8) + 128 * (unat high div 8) = 16 * unat high"
      using mod_mult_div_eq [of "unat high" 8] by linarith
    ultimately have v: "unat (snd ?r OR push_bit 4 ?h) + 128 * unat (drop_bit 3 high) = unat (snd ?r) + 16 * unat high"
      "unat (snd ?r OR push_bit 4 ?h) < 128"
      using s p by (simp_all add: unat_shift)
    have "varint_high (snd ?r OR push_bit 4 ?h) (drop_bit 3 high) = leb (unat (snd ?r) + 16 * unat high)"
      using varint_high_leb [OF v(2), of "drop_bit 3 high"] unfolding v(1) .
    then show ?thesis
      using ih False writes_write [of "fst ?r @ leb (unat (snd ?r) + 16 * unat high)"]
      by (simp add: pb_encode_varint_32_def split_beta Let_def)
  qed
qed

lemma writes_varint: "writes (pb_encode_varint v) (leb (unat v))"
proof (cases "v \<le> 0x7F")
  case True
  then have "unat v < 128" by (simp add: word_le_nat_alt)
  then have "leb (unat v) = [ucast v]" by (simp add: leb_small)
  then show ?thesis using True writes_write [of "[ucast v]"] by (simp add: pb_encode_varint_def)
next
  case False
  then show ?thesis
    using writes_varint_32 [of "ucast v" "ucast (drop_bit 32 v)"] unfolding unat_halves
    by (simp add: pb_encode_varint_def)
qed

subsection \<open>Wire format\<close>

text \<open>A field on the wire and its bytes, and a parser for sequences of fields as any protobuf reader
  does it.\<close>

datatype wire = W_varint nat | W_64 nat | W_len bytes | W_32 nat

fun wire_bytes :: "nat \<times> wire \<Rightarrow> bytes" where
  "wire_bytes (t, W_varint v) = leb (8 * t) @ leb v"
| "wire_bytes (t, W_64 v) = leb (8 * t + 1) @ enc_le 8 v"
| "wire_bytes (t, W_len bs) = leb (8 * t + 2) @ leb (length bs) @ bs"
| "wire_bytes (t, W_32 v) = leb (8 * t + 5) @ enc_le 4 v"

definition fields_bytes :: "(nat \<times> wire) list \<Rightarrow> bytes" where
  "fields_bytes fs = concat (map wire_bytes fs)"

lemma fields_bytes_simps [simp]:
  "fields_bytes [] = []" "fields_bytes (f # fs) = wire_bytes f @ fields_bytes fs"
  "fields_bytes (fs @ gs) = fields_bytes fs @ fields_bytes gs"
  by (simp_all add: fields_bytes_def)

fun leb_parse :: "bytes \<Rightarrow> (nat \<times> bytes) option" where
  "leb_parse [] = None"
| "leb_parse (b # bs) =
     (if unat b < 128 then Some (unat b, bs)
      else case leb_parse bs of None \<Rightarrow> None | Some (v, r) \<Rightarrow> Some (unat b - 128 + 128 * v, r))"

definition take_exact :: "nat \<Rightarrow> bytes \<Rightarrow> (bytes \<times> bytes) option" where
  "take_exact n bs = (if length bs < n then None else Some (take n bs, drop n bs))"

definition parse_payload :: "nat \<Rightarrow> bytes \<Rightarrow> (wire \<times> bytes) option" where
  "parse_payload wt bs =
     (if wt = 0 then map_option (\<lambda>(v, r). (W_varint v, r)) (leb_parse bs)
      else if wt = 1 then map_option (\<lambda>(p, r). (W_64 (dec_le p), r)) (take_exact 8 bs)
      else if wt = 2 then
        (case leb_parse bs of None \<Rightarrow> None
         | Some (n, r) \<Rightarrow> map_option (\<lambda>(p, r'). (W_len p, r')) (take_exact n r))
      else if wt = 5 then map_option (\<lambda>(p, r). (W_32 (dec_le p), r)) (take_exact 4 bs)
      else None)"

definition parse_field :: "bytes \<Rightarrow> ((nat \<times> wire) \<times> bytes) option" where
  "parse_field bs =
     (case leb_parse bs of None \<Rightarrow> None
      | Some (k, r) \<Rightarrow> map_option (\<lambda>(w, r'). ((k div 8, w), r')) (parse_payload (k mod 8) r))"

lemma leb_parse_shrinks: "leb_parse bs = Some (v, r) \<Longrightarrow> length r < length bs"
  by (induction bs arbitrary: v r) (auto split: if_splits option.splits simp: less_SucI)

lemma parse_payload_shrinks: "parse_payload wt bs = Some (w, r) \<Longrightarrow> length r \<le> length bs"
  by (auto simp: parse_payload_def take_exact_def split: if_splits option.splits dest!: leb_parse_shrinks)

lemma parse_field_shrinks: "parse_field bs = Some (f, r) \<Longrightarrow> length r < length bs"
  by (auto simp: parse_field_def split: option.splits dest!: leb_parse_shrinks parse_payload_shrinks)

function parse_fields :: "bytes \<Rightarrow> (nat \<times> wire) list option" where
  "parse_fields bs =
     (if bs = [] then Some []
      else case parse_field bs of None \<Rightarrow> None | Some (f, r) \<Rightarrow> map_option (\<lambda>fs. f # fs) (parse_fields r))"
  by pat_completeness auto
termination by (relation "measure length") (auto dest: parse_field_shrinks)

declare parse_fields.simps [simp del]

lemma leb_parse_leb: "leb_parse (leb n @ r) = Some (n, r)"
proof (induction n rule: leb.induct)
  case (1 n)
  show ?case
  proof (cases "n < 128")
    case True
    then have "unat (of_nat n :: u8) = n" by (simp add: unat_of_nat)
    then show ?thesis using True by (simp add: leb_small)
  next
    case False
    have "unat (of_nat (n mod 128 + 128) :: u8) = n mod 128 + 128" by (simp only: unat_of_nat) simp
    then show ?thesis using 1 [OF False] False by (simp add: leb_big del: of_nat_add)
  qed
qed

fun wire_ok :: "nat \<times> wire \<Rightarrow> bool" where
  "wire_ok (t, W_64 v) \<longleftrightarrow> v < 2 ^ 64"
| "wire_ok (t, W_32 v) \<longleftrightarrow> v < 2 ^ 32"
| "wire_ok (t, _) \<longleftrightarrow> True"

lemma tag_split [simp]: "Suc (Suc (8 * t)) mod 8 = 2" "Suc (Suc (8 * t)) div 8 = t"
  by presburger+

lemma parse_wire: "wire_ok f \<Longrightarrow> parse_field (wire_bytes f @ r) = Some (f, r)"
  by (cases f rule: wire_bytes.cases)
    (simp_all add: parse_field_def parse_payload_def take_exact_def leb_parse_leb dec_enc_le)

lemma parse_fields_bytes: "list_all wire_ok fs \<Longrightarrow> parse_fields (fields_bytes fs) = Some fs"
proof (induction fs)
  case Nil
  then show ?case by (simp add: parse_fields.simps)
next
  case (Cons f fs)
  then have p: "parse_field (wire_bytes f @ fields_bytes fs) = Some (f, fields_bytes fs)" by (simp add: parse_wire)
  then have "wire_bytes f @ fields_bytes fs \<noteq> []" by (auto simp: parse_field_def)
  then show ?case using p Cons by (simp add: parse_fields.simps [of "wire_bytes f @ fields_bytes fs"])
qed

subsection \<open>The encoders write wire fields\<close>

lemma writes_tag: "writes (pb_encode_tag wt t) (leb (8 * unat t + unat (wt_code wt)))"
proof -
  have c: "unat (wt_code wt) < 2 ^ 3" by (cases wt) simp_all
  have t: "unat (push_bit 3 (ucast t :: u64)) = 8 * unat t"
    using unat_less [of t] by (simp add: unsigned_push_bit_eq push_bit_nat_def unsigned_ucast_eq take_bit_nat_def)
  have "push_bit 3 (ucast t) OR wt_code wt = wt_code wt + push_bit 3 (ucast t :: u64)"
    using or_push_bit [OF c, of "ucast t"] by (simp add: or.commute)
  moreover have "unat (wt_code wt + push_bit 3 (ucast t :: u64)) = 8 * unat t + unat (wt_code wt)"
    using c t unat_less [of t] by (simp add: unat_word_ariths)
  ultimately show ?thesis using writes_varint [of "push_bit 3 (ucast t) OR wt_code wt"]
    by (simp add: pb_encode_tag_def)
qed

lemma writes_string: "length bs < 2 ^ 64 \<Longrightarrow> writes (pb_encode_string bs) (leb (length bs) @ bs)"
  using writes_then [OF writes_varint [of "of_nat (length bs)"] writes_write [of bs]]
  by (simp add: pb_encode_string_def unat_of_nat)

lemma writes_submessage:
  assumes "writes m bs" "length bs < 2 ^ 64"
  shows "writes (pb_encode_submessage m) (leb (length bs) @ bs)"
proof (unfold writes_def, intro allI impI)
  fix st
  assume r: "has_room st []"
  have v: "writes (pb_encode_varint (of_nat (length bs))) (leb (length bs))"
    using writes_varint [of "of_nat (length bs)"] assms(2) by (simp add: unat_of_nat)
  have sz: "m PB_OSTREAM_SIZING = Some (appended bs PB_OSTREAM_SIZING)"
    using writesD [OF assms(1), of PB_OSTREAM_SIZING] by (simp add: has_room_def PB_OSTREAM_SIZING_def)
  have size: "os_bytes_written (appended bs PB_OSTREAM_SIZING) = length bs"
    by (simp add: appended_def PB_OSTREAM_SIZING_def)
  let ?st = "appended (leb (length bs)) st"
  let ?sub = "\<lparr> os_sizing = False, os_state = os_state ?st, os_max_size = length bs, os_bytes_written = 0 \<rparr>"
  have sub: "m ?sub = Some (appended bs ?sub)"
    using writesD [OF assms(1), of ?sub] by (simp add: has_room_def)
  show "pb_encode_submessage m st = (if has_room st (leb (length bs) @ bs) then Some (appended (leb (length bs) @ bs) st) else None)"
  proof (cases "has_room st (leb (length bs))")
    case True
    then show ?thesis using writesD [OF v r] sz size sub
      by (simp add: pb_encode_submessage_def pb_skip_def Let_def) (simp add: appended_def has_room_def)
  next
    case False
    then show ?thesis using writesD [OF v r] sz size
      by (simp add: pb_encode_submessage_def) (simp add: has_room_def)
  qed
qed

text \<open>The same at the level of wire fields, for outputs below the range of \<open>size_t\<close>.\<close>

definition emits :: "encoder \<Rightarrow> (nat \<times> wire) list \<Rightarrow> bool" where
  "emits e fs \<longleftrightarrow> (length (fields_bytes fs) < 2 ^ 64 \<longrightarrow> writes e (fields_bytes fs))"

lemma emits_done [intro]: "emits enc_done []"
  by (simp add: emits_def writes_done)

lemma emits_then: "emits e1 f1 \<Longrightarrow> emits e2 f2 \<Longrightarrow> emits (and_then e1 e2) (f1 @ f2)"
  by (auto simp: emits_def intro: writes_then)

lemma emits_all: "list_all2 emits es fss \<Longrightarrow> emits (enc_all es) (concat fss)"
  by (induction es fss rule: list_all2_induct) (auto intro: emits_then)

lemma emits_all_map: "(\<And>x. x \<in> set xs \<Longrightarrow> emits (f x) (g x)) \<Longrightarrow> emits (enc_all (map f xs)) (concat (map g xs))"
  by (rule emits_all) (auto simp: list_all2_conv_all_nth)

lemma emits_tagged_string:
  assumes "ltype_wire (it_type it) = PB_WT_STRING"
  shows "emits (and_then (pb_encode_tag_for_field it) (pb_encode_string bs)) [(unat (it_tag it), W_len bs)]"
  using writes_then [OF writes_tag [of PB_WT_STRING "it_tag it"] writes_string [of bs]] assms
  by (simp add: emits_def pb_encode_tag_for_field_def)

lemma emits_tagged_sub:
  assumes "emits m fs" "ltype_wire (it_type it) = PB_WT_STRING"
  shows "emits (and_then (pb_encode_tag_for_field it) (pb_encode_submessage m)) [(unat (it_tag it), W_len (fields_bytes fs))]"
  using writes_then [OF writes_tag [of PB_WT_STRING "it_tag it"] writes_submessage [of m "fields_bytes fs"]] assms
  by (simp add: emits_def pb_encode_tag_for_field_def)

lemma emits_tagged_varint:
  assumes "ltype_wire (it_type it) = PB_WT_VARINT"
  shows "emits (and_then (pb_encode_tag_for_field it) (pb_encode_varint v)) [(unat (it_tag it), W_varint (unat v))]"
  using writes_then [OF writes_tag [of PB_WT_VARINT "it_tag it"] writes_varint [of v]] assms
  by (simp add: emits_def pb_encode_tag_for_field_def)

lemma emits_tagged_fixed64:
  assumes "ltype_wire (it_type it) = PB_WT_64BIT"
  shows "emits (and_then (pb_encode_tag_for_field it) (pb_encode_fixed64 v)) [(unat (it_tag it), W_64 (unat v))]"
  using writes_then [OF writes_tag [of PB_WT_64BIT "it_tag it"] writes_write [of "enc_le 8 (unat v)"]] assms
  by (simp add: emits_def pb_encode_tag_for_field_def pb_encode_fixed64_def)

text \<open>What a static integer field puts on the wire.\<close>

fun int_wire :: "pb_ltype \<Rightarrow> u64 \<Rightarrow> wire" where
  "int_wire LT_FIXED64 v = W_64 (unat v)"
| "int_wire LT_FIXED32 v = W_32 (unat (ucast v :: u32))"
| "int_wire LT_SVARINT v = W_varint (unat (zigzag v))"
| "int_wire LT_BOOL v = W_varint (if v \<noteq> 0 then 1 else 0)"
| "int_wire _ v = W_varint (unat v)"

lemma emits_basic_int:
  assumes "it_type it \<in> {LT_BOOL, LT_VARINT, LT_UVARINT, LT_SVARINT, LT_FIXED32, LT_FIXED64}"
  shows "emits (encode_basic_field it (Pb_int v)) [(unat (it_tag it), int_wire (it_type it) v)]"
proof (cases "it_type it = LT_FIXED32")
  case True
  then show ?thesis
    using writes_then [OF writes_tag [of PB_WT_32BIT "it_tag it"] writes_write [of "enc_le 4 (unat (ucast v :: u32))"]]
    by (simp add: emits_def pb_encode_tag_for_field_def pb_encode_fixed32_def encode_basic_field_def)
next
  case False
  then show ?thesis
    using assms emits_tagged_fixed64 [of it v] emits_tagged_varint [of it v] emits_tagged_varint [of it "zigzag v"]
      emits_tagged_varint [of it 0] emits_tagged_varint [of it 1]
    by (auto simp: encode_basic_field_def pb_encode_svarint_def split: if_splits)
qed

text \<open>The same for a whole field: what its presence and content put on the wire.\<close>

lemma emits_field_int:
  assumes "it_type it \<in> {LT_BOOL, LT_VARINT, LT_UVARINT, LT_SVARINT, LT_FIXED32, LT_FIXED64}"
  shows "emits (encode_field (it, Singular, Static (Pb_int v)))
      (if v = 0 then [] else [(unat (it_tag it), int_wire (it_type it) v)])"
    and "emits (encode_field (it, Optional has, Static (Pb_int v)))
      (if has then [(unat (it_tag it), int_wire (it_type it) v)] else [])"
    and "emits (encode_field (it, Oneof w, Static (Pb_int v)))
      (if w = it_tag it then [(unat (it_tag it), int_wire (it_type it) v)] else [])"
  using emits_basic_int [OF assms] by (auto simp: encode_field_def pb_check_proto3_default_value_def)

lemma emits_field_msg:
  assumes "emits m fs"
  shows "it_type it = LT_SUBMESSAGE \<Longrightarrow> emits (encode_field (it, Optional has, Static (Pb_msg m)))
      (if has then [(unat (it_tag it), W_len (fields_bytes fs))] else [])"
    and "it_type it = LT_SUBMESSAGE \<Longrightarrow> emits (encode_field (it, Oneof w, Static (Pb_msg m)))
      (if w = it_tag it then [(unat (it_tag it), W_len (fields_bytes fs))] else [])"
  using emits_tagged_sub [OF assms] by (auto simp: encode_field_def encode_basic_field_def)

lemma emits_field_cb:
  assumes "emits (encode_callback_field it cb) fs"
  shows "emits (encode_field (it, Singular, Callback cb)) fs"
    and "emits (encode_field (it, Repeated, Callback cb)) fs"
    and "emits (encode_field (it, Oneof w, Callback cb)) (if w = it_tag it then fs else [])"
  using assms by (auto simp: encode_field_def pb_check_proto3_default_value_def)

lemma emits_no_cb: "emits (encode_callback_field it None) []"
  by (auto simp: encode_callback_field_def)

lemma emits_pb_encode: "list_all2 (\<lambda>f ws. emits (encode_field f) ws) fs wss \<Longrightarrow> emits (pb_encode fs) (concat wss)"
  unfolding pb_encode_def by (rule emits_all) (simp add: list_all2_map1)

text \<open>Encoding into a buffer succeeds exactly when the bytes fit, and the buffer then holds them.\<close>

lemma emits_to_buffer:
  assumes "emits e fs" "cap < 2 ^ 64"
  shows "(case e (pb_ostream_from_buffer cap) of Some st \<Rightarrow> Some (os_state st) | None \<Rightarrow> None) =
      (if length (fields_bytes fs) \<le> cap then Some (fields_bytes fs) else None)
    \<or> length (fields_bytes fs) \<ge> 2 ^ 64"
  using assms
  by (auto simp: emits_def pb_ostream_from_buffer_def has_room_def appended_def dest!: writesD [of _ _ "pb_ostream_from_buffer cap"])

subsection \<open>Properties\<close>

text \<open>C14: the varint routine is equivalent to the reference encoding.  The two-word routine without
  64-bit shifts writes, for every 64-bit value, exactly the base-128 encoding of the value, and
  reading it back gives the value and leaves the following bytes.\<close>

theorem varint_reference:
  "writes (pb_encode_varint v) (leb (unat v)) \<and> leb_parse (leb (unat v) @ rest) = Some (unat v, rest)"
  using writes_varint leb_parse_leb by blast

end
