(* ===== verification/Otlp_Pb.thy ===== *)
theory Otlp_Pb
  imports Nanopb Otlp_Http
begin

text \<open>
  The generated descriptors of the common OTLP messages and the encoder callbacks all signals share
  (\<open>src/runtime/otlp/otlp_pbutil.h\<close> and the \<open>.pb.h\<close> files under \<open>src/runtime/otlp/pb\<close>).

  A generated struct is a record of the members the exporter sets; members it leaves at their
  initial value appear as zero or null in the field list.  Next to each encoder stands what it
  puts on the wire and how a reader decodes it.
\<close>

type_synonym pb_cb = "(pb_iter \<Rightarrow> encoder) option"

definition fld :: "u32 \<Rightarrow> pb_ltype \<Rightarrow> pb_iter" where
  "fld tag ltype = \<lparr> it_tag = tag, it_type = ltype \<rparr>"

lemma fld_simps [simp]: "it_tag (fld t l) = t" "it_type (fld t l) = l"
  by (simp_all add: fld_def)

subsection \<open>Generated messages\<close>

record AnyValue =
  av_which :: u32
  av_string_value :: pb_cb
  av_int_value :: u64

definition AnyValue_FIELDLIST :: "AnyValue \<Rightarrow> pb_field list" where
  "AnyValue_FIELDLIST v =
     [(fld 1 LT_STRING, Oneof (av_which v), Callback (av_string_value v)),
      (fld 2 LT_BOOL, Oneof (av_which v), Static (Pb_int 0)),
      (fld 3 LT_VARINT, Oneof (av_which v), Static (Pb_int (av_int_value v))),
      (fld 4 LT_FIXED64, Oneof (av_which v), Static (Pb_int 0)),
      (fld 5 LT_SUBMESSAGE, Oneof (av_which v), Static (Pb_msg enc_done)),
      (fld 6 LT_SUBMESSAGE, Oneof (av_which v), Static (Pb_msg enc_done)),
      (fld 7 LT_BYTES, Oneof (av_which v), Callback None),
      (fld 8 LT_VARINT, Oneof (av_which v), Static (Pb_int 0))]"

definition AnyValue_string_value_tag :: u32 where "AnyValue_string_value_tag = 1"
definition AnyValue_int_value_tag :: u32 where "AnyValue_int_value_tag = 3"

record KeyValue =
  kvm_key :: pb_cb
  kvm_has_value :: bool
  kvm_value :: AnyValue

definition KeyValue_FIELDLIST :: "KeyValue \<Rightarrow> pb_field list" where
  "KeyValue_FIELDLIST kv =
     [(fld 1 LT_STRING, Singular, Callback (kvm_key kv)),
      (fld 2 LT_SUBMESSAGE, Optional (kvm_has_value kv), Static (Pb_msg (pb_encode (AnyValue_FIELDLIST (kvm_value kv))))),
      (fld 3 LT_VARINT, Singular, Static (Pb_int 0))]"

definition InstrumentationScope_FIELDLIST :: "pb_cb \<Rightarrow> pb_field list" where
  "InstrumentationScope_FIELDLIST name =
     [(fld 1 LT_STRING, Singular, Callback name),
      (fld 2 LT_STRING, Singular, Callback None),
      (fld 3 LT_SUBMESSAGE, Repeated, Callback None),
      (fld 4 LT_UVARINT, Singular, Static (Pb_int 0))]"

definition Resource_FIELDLIST :: "pb_cb \<Rightarrow> pb_field list" where
  "Resource_FIELDLIST attributes =
     [(fld 1 LT_SUBMESSAGE, Repeated, Callback attributes),
      (fld 2 LT_UVARINT, Singular, Static (Pb_int 0)),
      (fld 3 LT_SUBMESSAGE, Repeated, Callback None)]"

subsection \<open>Shared callbacks\<close>

definition otlp_enc_string :: "string \<Rightarrow> pb_iter \<Rightarrow> encoder" where
  "otlp_enc_string s it = and_then (pb_encode_tag_for_field it) (pb_encode_string (str_bytes s))"

definition otlp_enc_bytes :: "bytes \<Rightarrow> pb_iter \<Rightarrow> encoder" where
  "otlp_enc_bytes b it = and_then (pb_encode_tag_for_field it) (pb_encode_string b)"

definition otlp_enc_one_sub :: "pb_field list \<Rightarrow> pb_iter \<Rightarrow> encoder" where
  "otlp_enc_one_sub msg it = and_then (pb_encode_tag_for_field it) (pb_encode_submessage (pb_encode msg))"

definition otlp_put_kv_str :: "string \<Rightarrow> string \<Rightarrow> pb_iter \<Rightarrow> encoder" where
  "otlp_put_kv_str key val it =
     (let kv = \<lparr> kvm_key = Some (otlp_enc_string key), kvm_has_value = True,
                 kvm_value = \<lparr> av_which = AnyValue_string_value_tag, av_string_value = Some (otlp_enc_string val),
                               av_int_value = 0 \<rparr> \<rparr>
      in and_then (pb_encode_tag_for_field it) (pb_encode_submessage (pb_encode (KeyValue_FIELDLIST kv))))"

definition otlp_put_kv_int :: "string \<Rightarrow> u64 \<Rightarrow> pb_iter \<Rightarrow> encoder" where
  "otlp_put_kv_int key val it =
     (let kv = \<lparr> kvm_key = Some (otlp_enc_string key), kvm_has_value = True,
                 kvm_value = \<lparr> av_which = AnyValue_int_value_tag, av_string_value = None, av_int_value = val \<rparr> \<rparr>
      in and_then (pb_encode_tag_for_field it) (pb_encode_submessage (pb_encode (KeyValue_FIELDLIST kv))))"

text \<open>An attribute written only when its string is neither null nor empty.\<close>

definition nonempty :: "string option \<Rightarrow> string option" where
  "nonempty v = (case v of Some s \<Rightarrow> if s = [] then None else Some s | None \<Rightarrow> None)"

definition str_or :: "string \<Rightarrow> string option \<Rightarrow> string" where
  "str_or d v = (case v of Some s \<Rightarrow> s | None \<Rightarrow> d)"

definition put_kv_opt :: "string \<Rightarrow> string option \<Rightarrow> pb_iter \<Rightarrow> encoder" where
  "put_kv_opt key v it = (case nonempty v of None \<Rightarrow> enc_done | Some s \<Rightarrow> otlp_put_kv_str key s it)"

definition put_kv_if :: "bool \<Rightarrow> string \<Rightarrow> u64 \<Rightarrow> pb_iter \<Rightarrow> encoder" where
  "put_kv_if c key v it = (if c then otlp_put_kv_int key v it else enc_done)"

definition OTLP_ENV_RESOURCE_ATTRS_MAX :: nat where "OTLP_ENV_RESOURCE_ATTRS_MAX = 16"

record otlp_resource =
  res_name :: "string option"
  res_version :: "string option"

text \<open>What the encoders read from the process: the instance id and \<open>OTEL_RESOURCE_ATTRIBUTES\<close>.\<close>

record otlp_proc =
  op_instance_env :: "string option"
  op_hostname :: "string option"
  op_pid :: nat
  op_resource_attributes :: "string option"

definition otlp_service_instance_id :: "otlp_proc \<Rightarrow> string" where
  "otlp_service_instance_id pr =
     (case nonempty (op_instance_env pr) of
        Some e \<Rightarrow> c_trunc 160 e
      | None \<Rightarrow>
          (let host = (case op_hostname pr of Some h \<Rightarrow> c_trunc 96 h | None \<Rightarrow> ''unknown'')
           in c_trunc 160 (host @ ''-'' @ dec_of (op_pid pr))))"

definition otlp_enc_resource_attrs :: "otlp_proc \<Rightarrow> otlp_resource \<Rightarrow> pb_iter \<Rightarrow> encoder" where
  "otlp_enc_resource_attrs pr r it =
     enc_all
       ([put_kv_opt ''service.name'' (res_name r) it,
         put_kv_opt ''service.version'' (res_version r) it,
         otlp_put_kv_str ''service.instance.id'' (otlp_service_instance_id pr) it,
         otlp_put_kv_str ''telemetry.sdk.name'' ''spinel-ebpf'' it,
         otlp_put_kv_str ''telemetry.sdk.language'' ''ruby'' it,
         otlp_put_kv_str ''telemetry.sdk.version'' ''0'' it]
        @ map (\<lambda>kv. otlp_put_kv_str (kv_key kv) (kv_val kv) it)
            (otlp_env_kv_list (op_resource_attributes pr) OTLP_ENV_RESOURCE_ATTRS_MAX))"

subsection \<open>Values and their wire form\<close>

text \<open>The values the messages carry: an attribute list, and one request with its resource, its scope
  and its items.\<close>

datatype any_value = String_value string | Int_value u64

type_synonym attrs = "(string \<times> any_value) list"

record 'a otlp_request =
  rq_resource :: attrs
  rq_scope :: string
  rq_items :: "'a list"

fun any_wire :: "any_value \<Rightarrow> (nat \<times> wire) list" where
  "any_wire (String_value s) = [(1, W_len (str_bytes s))]"
| "any_wire (Int_value v) = [(3, W_varint (unat v))]"

definition kv_wire :: "string \<times> any_value \<Rightarrow> (nat \<times> wire) list" where
  "kv_wire kv = [(1, W_len (str_bytes (fst kv))), (2, W_len (fields_bytes (any_wire (snd kv))))]"

definition attrs_wire :: "nat \<Rightarrow> attrs \<Rightarrow> (nat \<times> wire) list" where
  "attrs_wire t as = map (\<lambda>kv. (t, W_len (fields_bytes (kv_wire kv)))) as"

definition opt_attr :: "string \<Rightarrow> string option \<Rightarrow> attrs" where
  "opt_attr key v = (case nonempty v of None \<Rightarrow> [] | Some s \<Rightarrow> [(key, String_value s)])"

definition if_attr :: "bool \<Rightarrow> string \<Rightarrow> u64 \<Rightarrow> attrs" where
  "if_attr c key v = (if c then [(key, Int_value v)] else [])"

definition resource_attrs :: "otlp_proc \<Rightarrow> otlp_resource \<Rightarrow> attrs" where
  "resource_attrs pr r =
     opt_attr ''service.name'' (res_name r) @ opt_attr ''service.version'' (res_version r)
     @ [(''service.instance.id'', String_value (otlp_service_instance_id pr)),
        (''telemetry.sdk.name'', String_value ''spinel-ebpf''),
        (''telemetry.sdk.language'', String_value ''ruby''),
        (''telemetry.sdk.version'', String_value ''0'')]
     @ map (\<lambda>kv. (kv_key kv, String_value (kv_val kv)))
         (otlp_env_kv_list (op_resource_attributes pr) OTLP_ENV_RESOURCE_ATTRS_MAX)"

lemma attrs_wire_simps [simp]:
  "attrs_wire t [] = []" "attrs_wire t (a # as) = (t, W_len (fields_bytes (kv_wire a))) # attrs_wire t as"
  "attrs_wire t (as @ bs) = attrs_wire t as @ attrs_wire t bs"
  by (simp_all add: attrs_wire_def)

named_theorems emits_intros

lemma emits_eq: "emits e ws \<Longrightarrow> ws = ws' \<Longrightarrow> emits e ws'"
  by simp

lemma emits_pb_nil [emits_intros]: "emits (pb_encode []) []"
  by (auto simp: pb_encode_def)

lemma emits_pb_cons [emits_intros]:
  "emits (encode_field f) ws \<Longrightarrow> emits (pb_encode fs) wss \<Longrightarrow> emits (pb_encode (f # fs)) (ws @ wss)"
  by (simp add: pb_encode_def emits_then)

definition is_int_ltype :: "pb_ltype \<Rightarrow> bool" where
  "is_int_ltype l \<longleftrightarrow> l \<in> {LT_BOOL, LT_VARINT, LT_UVARINT, LT_SVARINT, LT_FIXED32, LT_FIXED64}"

lemma is_int_ltype_simps [simp]:
  "is_int_ltype LT_BOOL" "is_int_ltype LT_VARINT" "is_int_ltype LT_UVARINT" "is_int_ltype LT_SVARINT"
  "is_int_ltype LT_FIXED32" "is_int_ltype LT_FIXED64"
  by (simp_all add: is_int_ltype_def)

text \<open>A singular integer field: nothing for zero.\<close>

definition sing_wire :: "nat \<Rightarrow> pb_ltype \<Rightarrow> u64 \<Rightarrow> (nat \<times> wire) list" where
  "sing_wire t l v = (if v = 0 then [] else [(t, int_wire l v)])"

lemma sing_wire_0 [simp]: "sing_wire t l 0 = []"
  by (simp add: sing_wire_def)

lemma emits_fields [emits_intros]:
  "is_int_ltype l \<Longrightarrow> emits (encode_field (fld t l, Singular, Static (Pb_int v))) (sing_wire (unat t) l v)"
  "is_int_ltype l \<Longrightarrow> emits (encode_field (fld t l, Optional has, Static (Pb_int v)))
      (if has then [(unat t, int_wire l v)] else [])"
  "is_int_ltype l \<Longrightarrow> emits (encode_field (fld t l, Oneof w, Static (Pb_int v)))
      (if w = t then [(unat t, int_wire l v)] else [])"
  "emits m fs \<Longrightarrow> emits (encode_field (fld t LT_SUBMESSAGE, Optional has, Static (Pb_msg m)))
      (if has then [(unat t, W_len (fields_bytes fs))] else [])"
  "emits m fs \<Longrightarrow> emits (encode_field (fld t LT_SUBMESSAGE, Oneof w, Static (Pb_msg m)))
      (if w = t then [(unat t, W_len (fields_bytes fs))] else [])"
  unfolding is_int_ltype_def sing_wire_def
  using emits_field_int [of "fld t l", unfolded fld_simps] emits_field_msg [of m fs "fld t LT_SUBMESSAGE", unfolded fld_simps]
  by blast+

lemma emits_callbacks [emits_intros]:
  "emits (encode_callback_field (fld t l) cb) fs \<Longrightarrow> emits (encode_field (fld t l, Singular, Callback cb)) fs"
  "emits (encode_callback_field (fld t l) cb) fs \<Longrightarrow> emits (encode_field (fld t l, Repeated, Callback cb)) fs"
  "emits (encode_callback_field (fld t l) cb) fs \<Longrightarrow>
     emits (encode_field (fld t l, Oneof w, Callback cb)) (if w = t then fs else [])"
  using emits_field_cb [of "fld t l" cb fs] by simp_all

lemma emits_cb_cases [emits_intros]:
  "emits (encode_callback_field it None) []"
  "emits (f it) fs \<Longrightarrow> emits (encode_callback_field it (Some f)) fs"
  by (auto simp: encode_callback_field_def)

lemmas emits_done_rule [emits_intros] = emits_done

lemma emits_string [emits_intros]:
  "emits (otlp_enc_string s (fld t LT_STRING)) [(unat t, W_len (str_bytes s))]"
  using emits_tagged_string [of "fld t LT_STRING"] by (simp add: otlp_enc_string_def)

lemma emits_bytes [emits_intros]:
  "emits (otlp_enc_bytes b (fld t LT_BYTES)) [(unat t, W_len b)]"
  using emits_tagged_string [of "fld t LT_BYTES"] by (simp add: otlp_enc_bytes_def)

lemma emits_one_sub [emits_intros]:
  "emits (pb_encode msg) fs \<Longrightarrow> emits (otlp_enc_one_sub msg (fld t LT_SUBMESSAGE)) [(unat t, W_len (fields_bytes fs))]"
  using emits_tagged_sub [of "pb_encode msg" fs "fld t LT_SUBMESSAGE"] by (simp add: otlp_enc_one_sub_def)

lemma emits_kv_str [emits_intros]:
  "emits (otlp_put_kv_str key v (fld t LT_SUBMESSAGE)) (attrs_wire (unat t) [(key, String_value v)])"
proof -
  have "emits (pb_encode (KeyValue_FIELDLIST \<lparr> kvm_key = Some (otlp_enc_string key), kvm_has_value = True,
          kvm_value = \<lparr> av_which = AnyValue_string_value_tag, av_string_value = Some (otlp_enc_string v), av_int_value = 0 \<rparr> \<rparr>))
        (kv_wire (key, String_value v))"
    unfolding KeyValue_FIELDLIST_def AnyValue_FIELDLIST_def
    by (rule emits_eq, (rule emits_intros | simp add: kv_wire_def AnyValue_string_value_tag_def)+)
  then show ?thesis using emits_tagged_sub [of _ _ "fld t LT_SUBMESSAGE"] by (simp add: otlp_put_kv_str_def)
qed

lemma emits_kv_int [emits_intros]:
  "emits (otlp_put_kv_int key v (fld t LT_SUBMESSAGE)) (attrs_wire (unat t) [(key, Int_value v)])"
proof -
  have "emits (pb_encode (KeyValue_FIELDLIST \<lparr> kvm_key = Some (otlp_enc_string key), kvm_has_value = True,
          kvm_value = \<lparr> av_which = AnyValue_int_value_tag, av_string_value = None, av_int_value = v \<rparr> \<rparr>))
        (kv_wire (key, Int_value v))"
    unfolding KeyValue_FIELDLIST_def AnyValue_FIELDLIST_def
    by (rule emits_eq, (rule emits_intros | simp add: kv_wire_def AnyValue_int_value_tag_def)+)
  then show ?thesis using emits_tagged_sub [of _ _ "fld t LT_SUBMESSAGE"] by (simp add: otlp_put_kv_int_def)
qed

lemma emits_kv_opt [emits_intros]:
  "emits (put_kv_opt key v (fld t LT_SUBMESSAGE)) (attrs_wire (unat t) (opt_attr key v))"
  "emits (put_kv_if c key n (fld t LT_SUBMESSAGE)) (attrs_wire (unat t) (if_attr c key n))"
  using emits_kv_str emits_kv_int emits_done
  by (auto simp: put_kv_opt_def opt_attr_def put_kv_if_def if_attr_def split: option.split simp del: attrs_wire_simps(2))

lemma emits_all_nil [emits_intros]: "emits (enc_all []) []"
  by (auto simp: enc_all.simps)

lemma emits_all_cons [emits_intros]: "emits e ws \<Longrightarrow> emits (enc_all es) wss \<Longrightarrow> emits (enc_all (e # es)) (ws @ wss)"
  by (simp add: emits_then)

lemma enc_all_append: "enc_all (es @ es') = and_then (enc_all es) (enc_all es')"
  by (induction es) (auto simp: and_then_def enc_done_def fun_eq_iff split: option.split)

lemma emits_all_append: "emits (enc_all es) w1 \<Longrightarrow> emits (enc_all es') w2 \<Longrightarrow> emits (enc_all (es @ es')) (w1 @ w2)"
  unfolding enc_all_append by (rule emits_then)

lemma emits_resource [emits_intros]:
  "emits (otlp_enc_resource_attrs pr r (fld t LT_SUBMESSAGE)) (attrs_wire (unat t) (resource_attrs pr r))"
proof -
  let ?kvs = "otlp_env_kv_list (op_resource_attributes pr) OTLP_ENV_RESOURCE_ATTRS_MAX"
  have "emits (enc_all (map (\<lambda>kv. otlp_put_kv_str (kv_key kv) (kv_val kv) (fld t LT_SUBMESSAGE)) ?kvs))
      (concat (map (\<lambda>kv. attrs_wire (unat t) [(kv_key kv, String_value (kv_val kv))]) ?kvs))"
    by (rule emits_all_map) (rule emits_kv_str)
  moreover have "concat (map (\<lambda>kv. attrs_wire (unat t) [(kv_key kv, String_value (kv_val kv))]) ?kvs) =
      attrs_wire (unat t) (map (\<lambda>kv. (kv_key kv, String_value (kv_val kv))) ?kvs)"
    by (induction ?kvs) (simp_all add: attrs_wire_def)
  ultimately have env: "emits (enc_all (map (\<lambda>kv. otlp_put_kv_str (kv_key kv) (kv_val kv) (fld t LT_SUBMESSAGE)) ?kvs))
      (attrs_wire (unat t) (map (\<lambda>kv. (kv_key kv, String_value (kv_val kv))) ?kvs))" by simp
  show ?thesis unfolding otlp_enc_resource_attrs_def
    by (rule emits_eq, rule emits_all_append [OF _ env], (rule emits_intros | simp add: resource_attrs_def)+)
qed

subsection \<open>Decoding\<close>

definition len_payload :: "wire \<Rightarrow> bytes option" where
  "len_payload w = (case w of W_len bs \<Rightarrow> Some bs | _ \<Rightarrow> None)"

text \<open>The first occurrence of a field, with the proto3 default when it is absent, and all occurrences
  of a repeated one.\<close>

definition get_len :: "nat \<Rightarrow> (nat \<times> wire) list \<Rightarrow> bytes" where
  "get_len t fs = (case map_of fs t of Some (W_len bs) \<Rightarrow> bs | _ \<Rightarrow> [])"

definition get_str :: "nat \<Rightarrow> (nat \<times> wire) list \<Rightarrow> string" where
  "get_str t fs = map byte_char (get_len t fs)"

definition get_int :: "nat \<Rightarrow> (nat \<times> wire) list \<Rightarrow> u64" where
  "get_int t fs = (case map_of fs t of Some (W_varint v) \<Rightarrow> of_nat v | Some (W_64 v) \<Rightarrow> of_nat v | _ \<Rightarrow> 0)"

definition get_all :: "nat \<Rightarrow> (nat \<times> wire) list \<Rightarrow> bytes list" where
  "get_all t fs = List.map_filter (\<lambda>(t', w). if t' = t then len_payload w else None) fs"

definition dec_any :: "bytes \<Rightarrow> any_value option" where
  "dec_any bs =
     (case parse_fields bs of
        Some [(t, W_len s)] \<Rightarrow> if t = 1 then Some (String_value (map byte_char s)) else None
      | Some [(t, W_varint v)] \<Rightarrow> if t = 3 then Some (Int_value (of_nat v)) else None
      | _ \<Rightarrow> None)"

definition dec_kv :: "bytes \<Rightarrow> (string \<times> any_value) option" where
  "dec_kv bs =
     (case parse_fields bs of None \<Rightarrow> None
      | Some fs \<Rightarrow> map_option (\<lambda>v. (get_str 1 fs, v)) (dec_any (get_len 2 fs)))"

definition dec_attrs :: "bytes list \<Rightarrow> attrs option" where
  "dec_attrs bss = those (map dec_kv bss)"

definition dec_request :: "(bytes \<Rightarrow> 'a option) \<Rightarrow> bytes \<Rightarrow> 'a otlp_request option" where
  "dec_request dec bs =
     (case parse_fields bs of None \<Rightarrow> None
      | Some req \<Rightarrow>
          (case parse_fields (get_len 1 req) of None \<Rightarrow> None
           | Some rx \<Rightarrow>
               (case (parse_fields (get_len 1 rx), parse_fields (get_len 2 rx)) of
                  (Some res, Some sx) \<Rightarrow>
                    (case (dec_attrs (get_all 1 res), parse_fields (get_len 1 sx), those (map dec (get_all 2 sx))) of
                       (Some ra, Some sc, Some items) \<Rightarrow>
                         Some \<lparr> rq_resource = ra, rq_scope = get_str 1 sc, rq_items = items \<rparr>
                     | _ \<Rightarrow> None)
                | _ \<Rightarrow> None)))"

lemma get_all_simps [simp]:
  "get_all t [] = []"
  "get_all t ((t', w) # fs) = (if t' = t then (case len_payload w of Some b \<Rightarrow> b # get_all t fs | None \<Rightarrow> get_all t fs) else get_all t fs)"
  "get_all t (fs @ gs) = get_all t fs @ get_all t gs"
  by (auto simp: get_all_def List.map_filter_def split: option.split)

lemma len_payload_simps [simp]:
  "len_payload (W_len b) = Some b" "len_payload (W_varint v) = None" "len_payload (W_64 v) = None" "len_payload (W_32 v) = None"
  by (simp_all add: len_payload_def)

lemma get_all_attrs [simp]:
  "get_all t (attrs_wire t as) = map (\<lambda>kv. fields_bytes (kv_wire kv)) as"
  "t \<noteq> t' \<Longrightarrow> get_all t (attrs_wire t' as) = []"
  by (induction as) auto

lemma get_all_items [simp]: "get_all t (map (\<lambda>x. (t, W_len (f x))) xs) = map f xs"
  by (induction xs) auto

lemma wire_ok_attrs [simp]: "list_all wire_ok (attrs_wire t as)"
  by (induction as) auto

lemma wire_ok_items [simp]: "list_all wire_ok (map (\<lambda>x. (t, W_len (f x))) xs)"
  by (induction xs) auto

lemma wire_ok_sing [simp]: "list_all wire_ok (sing_wire t l v)"
proof -
  have "unat v < 2 ^ 64" using unat_less [of v] by simp
  moreover have "unat (ucast v :: u32) < 2 ^ 32" using unat_less [of "ucast v :: u32"] by simp
  ultimately show ?thesis by (cases l) (simp_all add: sing_wire_def)
qed

lemma map_of_attrs [simp]: "t \<noteq> t' \<Longrightarrow> map_of (attrs_wire t' as) t = None"
  by (induction as) auto

lemma map_of_sing: "map_of (sing_wire t' l v) t = (if t = t' \<and> v \<noteq> 0 then Some (int_wire l v) else None)"
  by (auto simp: sing_wire_def)

lemma dec_any_wire [simp]: "dec_any (fields_bytes (any_wire v)) = Some v"
  by (cases v) (simp_all add: dec_any_def parse_fields_bytes del: fields_bytes_simps)

lemma dec_kv_wire [simp]: "dec_kv (fields_bytes (kv_wire kv)) = Some kv"
  unfolding dec_kv_def
  by (subst parse_fields_bytes) (simp_all add: kv_wire_def get_str_def get_len_def)

lemma those_map: "(\<And>x. x \<in> set xs \<Longrightarrow> f (g x) = Some x) \<Longrightarrow> those (map f (map g xs)) = Some xs"
  by (induction xs) auto

lemma dec_attrs_wire [simp]: "dec_attrs (map (\<lambda>kv. fields_bytes (kv_wire kv)) as) = Some as"
  unfolding dec_attrs_def by (rule those_map) simp

text \<open>The wire form of a request, and that it is decoded to the request.\<close>

definition request_wire :: "('a \<Rightarrow> (nat \<times> wire) list) \<Rightarrow> 'a otlp_request \<Rightarrow> (nat \<times> wire) list" where
  "request_wire item rq =
     [(1, W_len (fields_bytes
        [(1, W_len (fields_bytes (attrs_wire 1 (rq_resource rq)))),
         (2, W_len (fields_bytes
            ((1, W_len (fields_bytes [(1, W_len (str_bytes (rq_scope rq)))]))
             # map (\<lambda>x. (2, W_len (fields_bytes (item x)))) (rq_items rq))))]))]"

lemma dec_request_wire:
  assumes "\<And>x. x \<in> set (rq_items rq) \<Longrightarrow> dec (fields_bytes (item x)) = Some x"
  shows "dec_request dec (fields_bytes (request_wire item rq)) = Some rq"
proof -
  let ?sc = "[(1, W_len (str_bytes (rq_scope rq)))]"
  let ?sx = "(1, W_len (fields_bytes ?sc)) # map (\<lambda>x. (2, W_len (fields_bytes (item x)))) (rq_items rq)"
  let ?res = "attrs_wire 1 (rq_resource rq)"
  let ?rx = "[(1, W_len (fields_bytes ?res)), (2, W_len (fields_bytes ?sx))]"
  have p: "parse_fields (fields_bytes ?sc) = Some ?sc" "parse_fields (fields_bytes ?sx) = Some ?sx"
    "parse_fields (fields_bytes ?res) = Some ?res" "parse_fields (fields_bytes ?rx) = Some ?rx"
    "parse_fields (fields_bytes (request_wire item rq)) = Some (request_wire item rq)"
    by (rule parse_fields_bytes; simp add: request_wire_def)+
  have i: "those (map dec (map (\<lambda>x. fields_bytes (item x)) (rq_items rq))) = Some (rq_items rq)"
    by (rule those_map) (rule assms)
  have g: "get_len 1 (request_wire item rq) = fields_bytes ?rx" "get_len 1 ?rx = fields_bytes ?res"
    "get_len 2 ?rx = fields_bytes ?sx" "get_len 1 ?sx = fields_bytes ?sc" "get_str 1 ?sc = rq_scope rq"
    by (simp_all add: get_len_def get_str_def request_wire_def del: fields_bytes_simps)
  have a: "get_all 1 ?res = map (\<lambda>kv. fields_bytes (kv_wire kv)) (rq_resource rq)"
    "get_all 2 ?sx = map (\<lambda>x. fields_bytes (item x)) (rq_items rq)" by simp_all
  show ?thesis unfolding dec_request_def p(5) option.case g(1) p(4) g(2,3) p(2,3) prod.case a g(4) p(1) i g(5)
    by (simp del: fields_bytes_simps)
qed

text \<open>The envelope: one resource, one scope, and a callback that writes the items.\<close>

definition otlp_envelope :: "otlp_proc \<Rightarrow> otlp_resource \<Rightarrow> string option \<Rightarrow> 'a list \<Rightarrow> 'a otlp_request" where
  "otlp_envelope pr r scope items =
     \<lparr> rq_resource = resource_attrs pr r, rq_scope = str_or ''spinel-ebpf'' scope, rq_items = items \<rparr>"

definition pb_run :: "nat \<Rightarrow> encoder \<Rightarrow> bytes option" where
  "pb_run cap e = map_option os_state (e (pb_ostream_from_buffer cap))"

lemma pb_run_emits:
  assumes "emits e fs" "length (fields_bytes fs) < 2 ^ 64"
  shows "pb_run cap e = (if length (fields_bytes fs) \<le> cap then Some (fields_bytes fs) else None)"
  using assms writesD [of e "fields_bytes fs" "pb_ostream_from_buffer cap"]
  by (simp add: emits_def pb_run_def has_room_def appended_def pb_ostream_from_buffer_def)

end
