(* ===== verification/Otlp_Msg.thy ===== *)
theory Otlp_Msg
  imports Otlp_Pb
begin

text \<open>
  Log records and spans as OTLP protobuf (\<open>src/runtime/otlp/otlp_logs.c\<close>, the encoding half of
  \<open>otlp_traces.c\<close> and the generated descriptors they use), down to the bytes of the request.

  Each builder is translated callback by callback; beside it stands the value the request means,
  and the properties say that a protobuf reader recovers exactly that value from the bytes.  A C
  string that may be null is a \<open>string option\<close>.
\<close>

subsection \<open>Generated messages\<close>

definition ExportLogsServiceRequest_FIELDLIST :: "pb_cb \<Rightarrow> pb_field list" where
  "ExportLogsServiceRequest_FIELDLIST resource_logs = [(fld 1 LT_SUBMESSAGE, Repeated, Callback resource_logs)]"

definition ResourceLogs_FIELDLIST :: "bool \<Rightarrow> pb_field list \<Rightarrow> pb_cb \<Rightarrow> pb_field list" where
  "ResourceLogs_FIELDLIST has_resource resource scope_logs =
     [(fld 1 LT_SUBMESSAGE, Optional has_resource, Static (Pb_msg (pb_encode resource))),
      (fld 2 LT_SUBMESSAGE, Repeated, Callback scope_logs),
      (fld 3 LT_STRING, Singular, Callback None)]"

definition ScopeLogs_FIELDLIST :: "bool \<Rightarrow> pb_field list \<Rightarrow> pb_cb \<Rightarrow> pb_field list" where
  "ScopeLogs_FIELDLIST has_scope scope log_records =
     [(fld 1 LT_SUBMESSAGE, Optional has_scope, Static (Pb_msg (pb_encode scope))),
      (fld 2 LT_SUBMESSAGE, Repeated, Callback log_records),
      (fld 3 LT_STRING, Singular, Callback None)]"

record LogRecord =
  lr_time_unix_nano :: u64
  lr_severity_number :: u32
  lr_severity_text :: pb_cb
  lr_has_body :: bool
  lr_body :: AnyValue
  lr_observed_time_unix_nano :: u64
  lr_event_name :: pb_cb

definition LogRecord_FIELDLIST :: "LogRecord \<Rightarrow> pb_field list" where
  "LogRecord_FIELDLIST lr =
     [(fld 1 LT_FIXED64, Singular, Static (Pb_int (lr_time_unix_nano lr))),
      (fld 2 LT_UVARINT, Singular, Static (Pb_int (ucast (lr_severity_number lr)))),
      (fld 3 LT_STRING, Singular, Callback (lr_severity_text lr)),
      (fld 5 LT_SUBMESSAGE, Optional (lr_has_body lr), Static (Pb_msg (pb_encode (AnyValue_FIELDLIST (lr_body lr))))),
      (fld 6 LT_SUBMESSAGE, Repeated, Callback None),
      (fld 7 LT_UVARINT, Singular, Static (Pb_int 0)),
      (fld 8 LT_FIXED32, Singular, Static (Pb_int 0)),
      (fld 9 LT_BYTES, Singular, Callback None),
      (fld 10 LT_BYTES, Singular, Callback None),
      (fld 11 LT_FIXED64, Singular, Static (Pb_int (lr_observed_time_unix_nano lr))),
      (fld 12 LT_STRING, Singular, Callback (lr_event_name lr))]"

definition ExportTraceServiceRequest_FIELDLIST :: "pb_cb \<Rightarrow> pb_field list" where
  "ExportTraceServiceRequest_FIELDLIST resource_spans = [(fld 1 LT_SUBMESSAGE, Repeated, Callback resource_spans)]"

definition ResourceSpans_FIELDLIST :: "bool \<Rightarrow> pb_field list \<Rightarrow> pb_cb \<Rightarrow> pb_field list" where
  "ResourceSpans_FIELDLIST has_resource resource scope_spans =
     [(fld 1 LT_SUBMESSAGE, Optional has_resource, Static (Pb_msg (pb_encode resource))),
      (fld 2 LT_SUBMESSAGE, Repeated, Callback scope_spans),
      (fld 3 LT_STRING, Singular, Callback None)]"

definition ScopeSpans_FIELDLIST :: "bool \<Rightarrow> pb_field list \<Rightarrow> pb_cb \<Rightarrow> pb_field list" where
  "ScopeSpans_FIELDLIST has_scope scope spans =
     [(fld 1 LT_SUBMESSAGE, Optional has_scope, Static (Pb_msg (pb_encode scope))),
      (fld 2 LT_SUBMESSAGE, Repeated, Callback spans),
      (fld 3 LT_STRING, Singular, Callback None)]"

definition Status_FIELDLIST :: "u32 \<Rightarrow> pb_field list" where
  "Status_FIELDLIST code =
     [(fld 2 LT_STRING, Singular, Callback None),
      (fld 3 LT_UVARINT, Singular, Static (Pb_int (ucast code)))]"

record Span =
  sp_trace_id :: pb_cb
  sp_span_id :: pb_cb
  sp_parent_span_id :: pb_cb
  sp_name :: pb_cb
  sp_kind :: u32
  sp_start_time_unix_nano :: u64
  sp_end_time_unix_nano :: u64
  sp_attributes :: pb_cb
  sp_has_status :: bool
  sp_status_code :: u32

definition Span_init_zero :: Span where
  "Span_init_zero = \<lparr> sp_trace_id = None, sp_span_id = None, sp_parent_span_id = None, sp_name = None, sp_kind = 0,
     sp_start_time_unix_nano = 0, sp_end_time_unix_nano = 0, sp_attributes = None, sp_has_status = False,
     sp_status_code = 0 \<rparr>"

definition Span_FIELDLIST :: "Span \<Rightarrow> pb_field list" where
  "Span_FIELDLIST sp =
     [(fld 1 LT_BYTES, Singular, Callback (sp_trace_id sp)),
      (fld 2 LT_BYTES, Singular, Callback (sp_span_id sp)),
      (fld 3 LT_STRING, Singular, Callback None),
      (fld 4 LT_BYTES, Singular, Callback (sp_parent_span_id sp)),
      (fld 5 LT_STRING, Singular, Callback (sp_name sp)),
      (fld 6 LT_UVARINT, Singular, Static (Pb_int (ucast (sp_kind sp)))),
      (fld 7 LT_FIXED64, Singular, Static (Pb_int (sp_start_time_unix_nano sp))),
      (fld 8 LT_FIXED64, Singular, Static (Pb_int (sp_end_time_unix_nano sp))),
      (fld 9 LT_SUBMESSAGE, Repeated, Callback (sp_attributes sp)),
      (fld 10 LT_UVARINT, Singular, Static (Pb_int 0)),
      (fld 11 LT_SUBMESSAGE, Repeated, Callback None),
      (fld 12 LT_UVARINT, Singular, Static (Pb_int 0)),
      (fld 13 LT_SUBMESSAGE, Repeated, Callback None),
      (fld 14 LT_UVARINT, Singular, Static (Pb_int 0)),
      (fld 15 LT_SUBMESSAGE, Optional (sp_has_status sp), Static (Pb_msg (pb_encode (Status_FIELDLIST (sp_status_code sp))))),
      (fld 16 LT_FIXED32, Singular, Static (Pb_int 0))]"

subsection \<open>Log records\<close>

record otlp_log_record =
  lg_time :: u64
  lg_severity :: u32
  lg_body_is_str :: bool
  lg_body_str :: "string option"
  lg_body_int :: u64
  lg_event_name :: "string option"

definition enc_log_record :: "otlp_log_record \<Rightarrow> LogRecord" where
  "enc_log_record r =
     \<lparr> lr_time_unix_nano = lg_time r,
       lr_severity_number = (if lg_severity r \<noteq> 0 then lg_severity r else 9),
       lr_severity_text = Some (otlp_enc_string ''INFO''),
       lr_has_body = True,
       lr_body =
         (if lg_body_is_str r
          then \<lparr> av_which = AnyValue_string_value_tag,
                 av_string_value = Some (otlp_enc_string (str_or [] (lg_body_str r))), av_int_value = 0 \<rparr>
          else \<lparr> av_which = AnyValue_int_value_tag, av_string_value = None, av_int_value = lg_body_int r \<rparr>),
       lr_observed_time_unix_nano = lg_time r,
       lr_event_name = map_option otlp_enc_string (nonempty (lg_event_name r)) \<rparr>"

definition enc_log_records :: "otlp_log_record list \<Rightarrow> pb_iter \<Rightarrow> encoder" where
  "enc_log_records recs it =
     enc_all (map (\<lambda>r. and_then (pb_encode_tag_for_field it)
       (pb_encode_submessage (pb_encode (LogRecord_FIELDLIST (enc_log_record r))))) recs)"

definition otlp_logs_build :: "nat \<Rightarrow> otlp_proc \<Rightarrow> otlp_resource \<Rightarrow> string option \<Rightarrow> otlp_log_record list \<Rightarrow> bytes option" where
  "otlp_logs_build cap pr rctx scope_name recs =
     (let res = Resource_FIELDLIST (Some (otlp_enc_resource_attrs pr rctx));
          scope = InstrumentationScope_FIELDLIST (Some (otlp_enc_string (str_or ''spinel-ebpf'' scope_name)));
          sl = ScopeLogs_FIELDLIST True scope (Some (enc_log_records recs));
          rl = ResourceLogs_FIELDLIST True res (Some (otlp_enc_one_sub sl));
          req = ExportLogsServiceRequest_FIELDLIST (Some (otlp_enc_one_sub rl))
      in pb_run cap (pb_encode req))"

subsection \<open>Spans\<close>

record otlp_span =
  os_trace_id :: bytes
  os_span_id :: bytes
  os_parent_span_id :: bytes
  os_has_parent :: bool
  os_method_idx :: int
  os_start :: u64
  os_end :: u64

record otlp_method_meta =
  mm_idx :: int
  mm_method :: "string option"
  mm_file :: "string option"
  mm_line :: int

record otlp_http_span =
  hs_trace_id :: bytes
  hs_span_id :: bytes
  hs_parent_span_id :: bytes
  hs_has_parent :: bool
  hs_start :: u64
  hs_end :: u64
  hs_name :: "string option"
  hs_http_method :: "string option"
  hs_url_path :: "string option"
  hs_status_code :: int
  hs_server_address :: "string option"
  hs_server_port :: int
  hs_client_address :: "string option"
  hs_url_scheme :: "string option"
  hs_route :: "string option"
  hs_tenant :: "string option"
  hs_tcp_established :: int
  hs_tcp_state_changes :: int

record otlp_generic_span =
  gs_trace_id :: bytes
  gs_span_id :: bytes
  gs_parent_span_id :: bytes
  gs_has_parent :: bool
  gs_start :: u64
  gs_end :: u64
  gs_name :: "string option"
  gs_kind :: u32
  gs_is_error :: bool
  gs_attrs :: "otlp_kv list"

definition SPAN_KIND_INTERNAL :: u32 where "SPAN_KIND_INTERNAL = 1"
definition SPAN_KIND_SERVER :: u32 where "SPAN_KIND_SERVER = 2"
definition STATUS_CODE_ERROR :: u32 where "STATUS_CODE_ERROR = 2"

definition find_meta :: "otlp_method_meta list \<Rightarrow> int \<Rightarrow> otlp_method_meta option" where
  "find_meta metas idx = find (\<lambda>m. mm_idx m = idx) metas"

definition enc_span_attrs :: "otlp_method_meta option \<Rightarrow> pb_iter \<Rightarrow> encoder" where
  "enc_span_attrs m it =
     (case m of
        None \<Rightarrow> enc_done
      | Some mm \<Rightarrow>
          enc_all [otlp_put_kv_str ''code.function'' (str_or [] (mm_method mm)) it,
                   put_kv_opt ''code.filepath'' (mm_file mm) it,
                   put_kv_if (mm_line mm > 0) ''code.lineno'' (of_int (mm_line mm)) it])"

definition enc_span :: "otlp_method_meta list \<Rightarrow> otlp_span \<Rightarrow> Span" where
  "enc_span metas s =
     (let m = find_meta metas (os_method_idx s) in
      Span_init_zero \<lparr>
        sp_trace_id := Some (otlp_enc_bytes (os_trace_id s)),
        sp_span_id := Some (otlp_enc_bytes (os_span_id s)),
        sp_parent_span_id := (if os_has_parent s then Some (otlp_enc_bytes (os_parent_span_id s)) else None),
        sp_name := Some (otlp_enc_string (case m of Some mm \<Rightarrow> str_or ''?'' (mm_method mm) | None \<Rightarrow> ''?'')),
        sp_kind := SPAN_KIND_INTERNAL,
        sp_start_time_unix_nano := os_start s,
        sp_end_time_unix_nano := os_end s,
        sp_attributes := Some (enc_span_attrs m) \<rparr>)"

definition put_span :: "Span \<Rightarrow> pb_iter \<Rightarrow> encoder" where
  "put_span sp it = and_then (pb_encode_tag_for_field it) (pb_encode_submessage (pb_encode (Span_FIELDLIST sp)))"

definition enc_spans :: "otlp_span list \<Rightarrow> otlp_method_meta list \<Rightarrow> pb_iter \<Rightarrow> encoder" where
  "enc_spans spans metas it = enc_all (map (\<lambda>s. put_span (enc_span metas s) it) spans)"

definition otlp_traces_build :: "nat \<Rightarrow> otlp_proc \<Rightarrow> otlp_resource \<Rightarrow> string option \<Rightarrow> otlp_span list \<Rightarrow>
    otlp_method_meta list \<Rightarrow> bytes option" where
  "otlp_traces_build cap pr rctx scope_name spans metas =
     (let res = Resource_FIELDLIST (Some (otlp_enc_resource_attrs pr rctx));
          scope = InstrumentationScope_FIELDLIST (Some (otlp_enc_string (str_or ''spinel-ebpf'' scope_name)));
          ss = ScopeSpans_FIELDLIST True scope (Some (enc_spans spans metas));
          rs = ResourceSpans_FIELDLIST True res (Some (otlp_enc_one_sub ss));
          req = ExportTraceServiceRequest_FIELDLIST (Some (otlp_enc_one_sub rs))
      in pb_run cap (pb_encode req))"

definition enc_http_attrs :: "otlp_http_span \<Rightarrow> pb_iter \<Rightarrow> encoder" where
  "enc_http_attrs s it =
     enc_all [put_kv_opt ''http.request.method'' (hs_http_method s) it,
              put_kv_opt ''url.path'' (hs_url_path s) it,
              put_kv_if (hs_status_code s > 0) ''http.response.status_code'' (of_int (hs_status_code s)) it,
              put_kv_opt ''server.address'' (hs_server_address s) it,
              put_kv_if (hs_server_port s > 0) ''server.port'' (of_int (hs_server_port s)) it,
              put_kv_opt ''client.address'' (hs_client_address s) it,
              put_kv_opt ''url.scheme'' (hs_url_scheme s) it,
              put_kv_opt ''http.route'' (hs_route s) it,
              put_kv_opt ''tenant'' (hs_tenant s) it,
              put_kv_if (hs_tcp_established s \<ge> 0) ''net.tcp.established'' (of_int (hs_tcp_established s)) it,
              put_kv_if (hs_tcp_state_changes s \<ge> 0) ''net.tcp.state_changes'' (of_int (hs_tcp_state_changes s)) it]"

definition enc_http_span :: "otlp_http_span \<Rightarrow> Span" where
  "enc_http_span s =
     Span_init_zero \<lparr>
       sp_trace_id := Some (otlp_enc_bytes (hs_trace_id s)),
       sp_span_id := Some (otlp_enc_bytes (hs_span_id s)),
       sp_parent_span_id := (if hs_has_parent s then Some (otlp_enc_bytes (hs_parent_span_id s)) else None),
       sp_name := Some (otlp_enc_string (str_or [] (hs_name s))),
       sp_kind := SPAN_KIND_SERVER,
       sp_start_time_unix_nano := hs_start s,
       sp_end_time_unix_nano := hs_end s,
       sp_attributes := Some (enc_http_attrs s),
       sp_has_status := (hs_status_code s \<ge> 500),
       sp_status_code := (if hs_status_code s \<ge> 500 then STATUS_CODE_ERROR else 0) \<rparr>"

definition otlp_traces_http_build :: "nat \<Rightarrow> otlp_proc \<Rightarrow> otlp_resource \<Rightarrow> string option \<Rightarrow> otlp_http_span \<Rightarrow> bytes option" where
  "otlp_traces_http_build cap pr rctx scope_name span =
     (let res = Resource_FIELDLIST (Some (otlp_enc_resource_attrs pr rctx));
          scope = InstrumentationScope_FIELDLIST (Some (otlp_enc_string (str_or ''spinel-ebpf'' scope_name)));
          ss = ScopeSpans_FIELDLIST True scope (Some (put_span (enc_http_span span)));
          rs = ResourceSpans_FIELDLIST True res (Some (otlp_enc_one_sub ss));
          req = ExportTraceServiceRequest_FIELDLIST (Some (otlp_enc_one_sub rs))
      in pb_run cap (pb_encode req))"

definition enc_generic_attrs :: "otlp_kv list \<Rightarrow> pb_iter \<Rightarrow> encoder" where
  "enc_generic_attrs kvs it =
     enc_all (map (\<lambda>kv. if kv_key kv = [] \<or> kv_val kv = [] then enc_done
                        else otlp_put_kv_str (kv_key kv) (kv_val kv) it) kvs)"

definition enc_generic_span_one :: "otlp_generic_span \<Rightarrow> Span" where
  "enc_generic_span_one s =
     Span_init_zero \<lparr>
       sp_trace_id := Some (otlp_enc_bytes (gs_trace_id s)),
       sp_span_id := Some (otlp_enc_bytes (gs_span_id s)),
       sp_parent_span_id := (if gs_has_parent s then Some (otlp_enc_bytes (gs_parent_span_id s)) else None),
       sp_name := Some (otlp_enc_string (str_or [] (gs_name s))),
       sp_kind := (if gs_kind s \<noteq> 0 then gs_kind s else SPAN_KIND_INTERNAL),
       sp_start_time_unix_nano := gs_start s,
       sp_end_time_unix_nano := gs_end s,
       sp_attributes := Some (enc_generic_attrs (gs_attrs s)),
       sp_has_status := gs_is_error s,
       sp_status_code := (if gs_is_error s then STATUS_CODE_ERROR else 0) \<rparr>"

definition enc_generic_spans :: "otlp_generic_span list \<Rightarrow> pb_iter \<Rightarrow> encoder" where
  "enc_generic_spans spans it = enc_all (map (\<lambda>s. put_span (enc_generic_span_one s) it) spans)"

definition otlp_traces_generic_build_multi :: "nat \<Rightarrow> otlp_proc \<Rightarrow> otlp_resource \<Rightarrow> string option \<Rightarrow>
    otlp_generic_span list \<Rightarrow> bytes option" where
  "otlp_traces_generic_build_multi cap pr rctx scope_name spans =
     (let res = Resource_FIELDLIST (Some (otlp_enc_resource_attrs pr rctx));
          scope = InstrumentationScope_FIELDLIST (Some (otlp_enc_string (str_or ''spinel-ebpf'' scope_name)));
          ss = ScopeSpans_FIELDLIST True scope (Some (enc_generic_spans spans));
          rs = ResourceSpans_FIELDLIST True res (Some (otlp_enc_one_sub ss));
          req = ExportTraceServiceRequest_FIELDLIST (Some (otlp_enc_one_sub rs))
      in pb_run cap (pb_encode req))"

definition otlp_traces_generic_build :: "nat \<Rightarrow> otlp_proc \<Rightarrow> otlp_resource \<Rightarrow> string option \<Rightarrow>
    otlp_generic_span \<Rightarrow> bytes option" where
  "otlp_traces_generic_build cap pr rctx scope_name span =
     otlp_traces_generic_build_multi cap pr rctx scope_name [span]"

subsection \<open>What the requests mean\<close>

record log_msg =
  lm_time :: u64
  lm_observed :: u64
  lm_severity :: u32
  lm_severity_text :: string
  lm_body :: any_value
  lm_event_name :: string

record span_msg =
  sm_trace_id :: bytes
  sm_span_id :: bytes
  sm_parent :: "bytes option"
  sm_name :: string
  sm_kind :: u32
  sm_start :: u64
  sm_end :: u64
  sm_attrs :: attrs
  sm_error :: bool

definition log_value :: "otlp_log_record \<Rightarrow> log_msg" where
  "log_value r =
     \<lparr> lm_time = lg_time r, lm_observed = lg_time r,
       lm_severity = (if lg_severity r \<noteq> 0 then lg_severity r else 9), lm_severity_text = ''INFO'',
       lm_body = (if lg_body_is_str r then String_value (str_or [] (lg_body_str r)) else Int_value (lg_body_int r)),
       lm_event_name = str_or [] (nonempty (lg_event_name r)) \<rparr>"

definition code_attrs :: "string \<Rightarrow> string option \<Rightarrow> int \<Rightarrow> attrs" where
  "code_attrs fn file line =
     (''code.function'', String_value fn) # opt_attr ''code.filepath'' file
     @ if_attr (line > 0) ''code.lineno'' (of_int line)"

definition meta_attrs :: "otlp_method_meta option \<Rightarrow> attrs" where
  "meta_attrs m = (case m of None \<Rightarrow> [] | Some mm \<Rightarrow> code_attrs (str_or [] (mm_method mm)) (mm_file mm) (mm_line mm))"

definition span_value :: "otlp_method_meta list \<Rightarrow> otlp_span \<Rightarrow> span_msg" where
  "span_value metas s =
     (let m = find_meta metas (os_method_idx s) in
      \<lparr> sm_trace_id = os_trace_id s, sm_span_id = os_span_id s,
        sm_parent = (if os_has_parent s then Some (os_parent_span_id s) else None),
        sm_name = (case m of Some mm \<Rightarrow> str_or ''?'' (mm_method mm) | None \<Rightarrow> ''?''),
        sm_kind = 1, sm_start = os_start s, sm_end = os_end s, sm_attrs = meta_attrs m, sm_error = False \<rparr>)"

definition http_attrs :: "otlp_http_span \<Rightarrow> attrs" where
  "http_attrs s =
     opt_attr ''http.request.method'' (hs_http_method s) @ opt_attr ''url.path'' (hs_url_path s)
     @ if_attr (hs_status_code s > 0) ''http.response.status_code'' (of_int (hs_status_code s))
     @ opt_attr ''server.address'' (hs_server_address s)
     @ if_attr (hs_server_port s > 0) ''server.port'' (of_int (hs_server_port s))
     @ opt_attr ''client.address'' (hs_client_address s) @ opt_attr ''url.scheme'' (hs_url_scheme s)
     @ opt_attr ''http.route'' (hs_route s) @ opt_attr ''tenant'' (hs_tenant s)
     @ if_attr (hs_tcp_established s \<ge> 0) ''net.tcp.established'' (of_int (hs_tcp_established s))
     @ if_attr (hs_tcp_state_changes s \<ge> 0) ''net.tcp.state_changes'' (of_int (hs_tcp_state_changes s))"

definition http_value :: "otlp_http_span \<Rightarrow> span_msg" where
  "http_value s =
     \<lparr> sm_trace_id = hs_trace_id s, sm_span_id = hs_span_id s,
       sm_parent = (if hs_has_parent s then Some (hs_parent_span_id s) else None),
       sm_name = str_or [] (hs_name s), sm_kind = 2, sm_start = hs_start s, sm_end = hs_end s,
       sm_attrs = http_attrs s, sm_error = (hs_status_code s \<ge> 500) \<rparr>"

definition generic_value :: "otlp_generic_span \<Rightarrow> span_msg" where
  "generic_value s =
     \<lparr> sm_trace_id = gs_trace_id s, sm_span_id = gs_span_id s,
       sm_parent = (if gs_has_parent s then Some (gs_parent_span_id s) else None),
       sm_name = str_or [] (gs_name s), sm_kind = (if gs_kind s \<noteq> 0 then gs_kind s else 1),
       sm_start = gs_start s, sm_end = gs_end s,
       sm_attrs = map (\<lambda>kv. (kv_key kv, String_value (kv_val kv)))
                    (filter (\<lambda>kv. kv_key kv \<noteq> [] \<and> kv_val kv \<noteq> []) (gs_attrs s)),
       sm_error = gs_is_error s \<rparr>"

subsection \<open>Wire forms\<close>

definition log_wire :: "log_msg \<Rightarrow> (nat \<times> wire) list" where
  "log_wire m =
     sing_wire 1 LT_FIXED64 (lm_time m) @ sing_wire 2 LT_UVARINT (ucast (lm_severity m))
     @ [(3, W_len (str_bytes (lm_severity_text m))), (5, W_len (fields_bytes (any_wire (lm_body m))))]
     @ sing_wire 11 LT_FIXED64 (lm_observed m)
     @ (if lm_event_name m = [] then [] else [(12, W_len (str_bytes (lm_event_name m)))])"

definition span_wire :: "span_msg \<Rightarrow> (nat \<times> wire) list" where
  "span_wire m =
     [(1, W_len (sm_trace_id m)), (2, W_len (sm_span_id m))]
     @ (case sm_parent m of Some p \<Rightarrow> [(4, W_len p)] | None \<Rightarrow> [])
     @ [(5, W_len (str_bytes (sm_name m)))]
     @ sing_wire 6 LT_UVARINT (ucast (sm_kind m)) @ sing_wire 7 LT_FIXED64 (sm_start m) @ sing_wire 8 LT_FIXED64 (sm_end m)
     @ attrs_wire 9 (sm_attrs m)
     @ (if sm_error m then [(15, W_len (fields_bytes [(3, W_varint 2)]))] else [])"

lemma emits_any_str [emits_intros]:
  "emits (pb_encode (AnyValue_FIELDLIST \<lparr> av_which = AnyValue_string_value_tag,
     av_string_value = Some (otlp_enc_string s), av_int_value = 0 \<rparr>)) (any_wire (String_value s))"
  unfolding AnyValue_FIELDLIST_def AnyValue.select_convs
  by (rule emits_eq, (rule emits_intros | simp add: AnyValue_string_value_tag_def)+)

lemma emits_any_int [emits_intros]:
  "emits (pb_encode (AnyValue_FIELDLIST \<lparr> av_which = AnyValue_int_value_tag,
     av_string_value = None, av_int_value = n \<rparr>)) (any_wire (Int_value n))"
  unfolding AnyValue_FIELDLIST_def AnyValue.select_convs
  by (rule emits_eq, (rule emits_intros | simp add: AnyValue_int_value_tag_def)+)

lemma emits_body [emits_intros]:
  "emits (pb_encode (AnyValue_FIELDLIST (if b
      then \<lparr> av_which = AnyValue_string_value_tag, av_string_value = Some (otlp_enc_string s), av_int_value = 0 \<rparr>
      else \<lparr> av_which = AnyValue_int_value_tag, av_string_value = None, av_int_value = n \<rparr>)))
    (any_wire (if b then String_value s else Int_value n))"
  using emits_any_str emits_any_int by simp

lemma emits_string_opt [emits_intros]:
  "emits (encode_callback_field (fld t LT_STRING) (map_option otlp_enc_string v))
     (case v of None \<Rightarrow> [] | Some s \<Rightarrow> [(unat t, W_len (str_bytes s))])"
  by (cases v) (auto intro: emits_intros)

lemma emits_bytes_if [emits_intros]:
  "emits (encode_callback_field (fld t LT_BYTES) (if c then Some (otlp_enc_bytes b) else None))
     (if c then [(unat t, W_len b)] else [])"
  by (auto intro: emits_intros)

lemma emits_log [emits_intros]: "emits (pb_encode (LogRecord_FIELDLIST (enc_log_record r))) (log_wire (log_value r))"
  unfolding LogRecord_FIELDLIST_def enc_log_record_def LogRecord.select_convs
  by (rule emits_eq, (rule emits_intros
      | simp add: log_wire_def log_value_def nonempty_def str_or_def split: option.split)+)

lemma emits_put_sub:
  "emits (pb_encode m) ws \<Longrightarrow>
   emits (and_then (pb_encode_tag_for_field (fld t LT_SUBMESSAGE)) (pb_encode_submessage (pb_encode m))) [(unat t, W_len (fields_bytes ws))]"
  using emits_tagged_sub [of "pb_encode m" ws "fld t LT_SUBMESSAGE"] by simp

lemma concat_map_single: "concat (map (\<lambda>x. [f x]) xs) = map f xs"
  by (induction xs) auto

lemma emits_log_records [emits_intros]:
  "emits (enc_log_records recs (fld t LT_SUBMESSAGE)) (map (\<lambda>m. (unat t, W_len (fields_bytes (log_wire m)))) (map log_value recs))"
  unfolding enc_log_records_def
  by (rule emits_eq, rule emits_all_map [where g = "\<lambda>r. [(unat t, W_len (fields_bytes (log_wire (log_value r))))]"],
      rule emits_put_sub, rule emits_log, simp add: concat_map_single)

lemma emits_status [emits_intros]: "emits (pb_encode (Status_FIELDLIST code)) (sing_wire 3 LT_UVARINT (ucast code))"
  unfolding Status_FIELDLIST_def by (rule emits_eq, (rule emits_intros | simp)+)

text \<open>A span whose attribute callback writes the attributes.\<close>

lemma emits_span:
  assumes "\<And>t. emits (f (fld t LT_SUBMESSAGE)) (attrs_wire (unat t) (sm_attrs m))"
  shows "emits (pb_encode (Span_FIELDLIST (Span_init_zero \<lparr>
      sp_trace_id := Some (otlp_enc_bytes (sm_trace_id m)), sp_span_id := Some (otlp_enc_bytes (sm_span_id m)),
      sp_parent_span_id := map_option otlp_enc_bytes (sm_parent m), sp_name := Some (otlp_enc_string (sm_name m)),
      sp_kind := sm_kind m, sp_start_time_unix_nano := sm_start m, sp_end_time_unix_nano := sm_end m,
      sp_attributes := Some f, sp_has_status := sm_error m, sp_status_code := (if sm_error m then STATUS_CODE_ERROR else 0) \<rparr>)))
    (span_wire m)"
proof -
  have p: "emits (encode_callback_field (fld t LT_BYTES) (map_option otlp_enc_bytes v))
      (case v of None \<Rightarrow> [] | Some b \<Rightarrow> [(unat t, W_len b)])" for t v
    by (cases v) (auto intro: emits_intros)
  show ?thesis
    unfolding Span_FIELDLIST_def Span_init_zero_def Span.select_convs Span.update_convs
    by (rule emits_eq, (rule emits_intros p assms
        | simp add: span_wire_def STATUS_CODE_ERROR_def sing_wire_def split: option.split)+)
qed

lemma emits_span_attrs: "emits (enc_span_attrs m (fld t LT_SUBMESSAGE)) (attrs_wire (unat t) (meta_attrs m))"
proof (cases m)
  case (Some mm)
  show ?thesis unfolding enc_span_attrs_def Some option.case
    by (rule emits_eq, (rule emits_intros | simp add: meta_attrs_def code_attrs_def)+)
qed (auto simp: enc_span_attrs_def meta_attrs_def)

lemma emits_http_attrs: "emits (enc_http_attrs s (fld t LT_SUBMESSAGE)) (attrs_wire (unat t) (http_attrs s))"
  unfolding enc_http_attrs_def by (rule emits_eq, (rule emits_intros | simp add: http_attrs_def)+)

lemma emits_generic_attrs: "emits (enc_generic_attrs kvs (fld t LT_SUBMESSAGE)) (attrs_wire (unat t)
    (map (\<lambda>kv. (kv_key kv, String_value (kv_val kv))) (filter (\<lambda>kv. kv_key kv \<noteq> [] \<and> kv_val kv \<noteq> []) kvs)))"
proof (induction kvs)
  case (Cons kv kvs)
  then show ?case
    using emits_then [OF emits_kv_str [of "kv_key kv" "kv_val kv" t] Cons] emits_then [OF emits_done Cons]
    by (auto simp: enc_generic_attrs_def)
qed (auto simp: enc_generic_attrs_def)

lemma emits_span_struct: "emits (pb_encode (Span_FIELDLIST (enc_span metas s))) (span_wire (span_value metas s))"
  using emits_span [of "enc_span_attrs (find_meta metas (os_method_idx s))" "span_value metas s"] emits_span_attrs
  by (simp add: enc_span_def span_value_def Let_def SPAN_KIND_INTERNAL_def Span_init_zero_def split: option.splits if_splits)

lemma emits_http_struct: "emits (pb_encode (Span_FIELDLIST (enc_http_span s))) (span_wire (http_value s))"
  using emits_span [of "enc_http_attrs s" "http_value s"] emits_http_attrs
  by (simp add: enc_http_span_def http_value_def SPAN_KIND_SERVER_def Span_init_zero_def split: if_splits)

lemma emits_generic_struct: "emits (pb_encode (Span_FIELDLIST (enc_generic_span_one s))) (span_wire (generic_value s))"
  using emits_span [of "enc_generic_attrs (gs_attrs s)" "generic_value s"] emits_generic_attrs
  by (simp add: enc_generic_span_one_def generic_value_def SPAN_KIND_INTERNAL_def Span_init_zero_def split: if_splits)

lemma emits_put_spans:
  assumes "\<And>x. emits (pb_encode (Span_FIELDLIST (f x))) (span_wire (v x))"
  shows "emits (enc_all (map (\<lambda>x. put_span (f x) (fld t LT_SUBMESSAGE)) xs))
    (map (\<lambda>m. (unat t, W_len (fields_bytes (span_wire m)))) (map v xs))"
  by (rule emits_eq, rule emits_all_map [where g = "\<lambda>x. [(unat t, W_len (fields_bytes (span_wire (v x))))]"],
      unfold put_span_def, rule emits_put_sub, rule assms, simp add: concat_map_single)

lemma emits_spans [emits_intros]:
  "emits (enc_spans spans metas (fld t LT_SUBMESSAGE)) (map (\<lambda>m. (unat t, W_len (fields_bytes (span_wire m)))) (map (span_value metas) spans))"
  "emits (enc_generic_spans gs (fld t LT_SUBMESSAGE)) (map (\<lambda>m. (unat t, W_len (fields_bytes (span_wire m)))) (map generic_value gs))"
  "emits (put_span (enc_http_span h) (fld t LT_SUBMESSAGE)) (map (\<lambda>m. (unat t, W_len (fields_bytes (span_wire m)))) [http_value h])"
  unfolding enc_spans_def enc_generic_spans_def
  using emits_put_spans [of "enc_span metas", OF emits_span_struct] emits_put_spans [of enc_generic_span_one, OF emits_generic_struct]
    emits_put_sub [OF emits_http_struct [of h], of t] by (simp_all add: put_span_def)

text \<open>The envelopes: whatever the item callback writes ends up as the items of the request.\<close>

lemma emits_scope [emits_intros]:
  "emits (pb_encode (InstrumentationScope_FIELDLIST (Some (otlp_enc_string n)))) [(1, W_len (str_bytes n))]"
  unfolding InstrumentationScope_FIELDLIST_def by (rule emits_eq, (rule emits_intros | simp)+)

lemma emits_resource_msg [emits_intros]:
  "emits (pb_encode (Resource_FIELDLIST (Some (otlp_enc_resource_attrs pr r)))) (attrs_wire 1 (resource_attrs pr r))"
  unfolding Resource_FIELDLIST_def by (rule emits_eq, (rule emits_intros | simp)+)

lemma emits_logs_request:
  assumes "\<And>t. emits (f (fld t LT_SUBMESSAGE)) (map (\<lambda>x. (unat t, W_len (fields_bytes (item x)))) items)"
  shows "emits (pb_encode (ExportLogsServiceRequest_FIELDLIST (Some (otlp_enc_one_sub (ResourceLogs_FIELDLIST True
      (Resource_FIELDLIST (Some (otlp_enc_resource_attrs pr r)))
      (Some (otlp_enc_one_sub (ScopeLogs_FIELDLIST True (InstrumentationScope_FIELDLIST (Some (otlp_enc_string n))) (Some f)))))))))
    (request_wire item \<lparr> rq_resource = resource_attrs pr r, rq_scope = n, rq_items = items \<rparr>)"
  unfolding ExportLogsServiceRequest_FIELDLIST_def ResourceLogs_FIELDLIST_def ScopeLogs_FIELDLIST_def
  by (rule emits_eq, (rule emits_intros assms | simp add: request_wire_def)+)

lemma emits_traces_request:
  assumes "\<And>t. emits (f (fld t LT_SUBMESSAGE)) (map (\<lambda>x. (unat t, W_len (fields_bytes (item x)))) items)"
  shows "emits (pb_encode (ExportTraceServiceRequest_FIELDLIST (Some (otlp_enc_one_sub (ResourceSpans_FIELDLIST True
      (Resource_FIELDLIST (Some (otlp_enc_resource_attrs pr r)))
      (Some (otlp_enc_one_sub (ScopeSpans_FIELDLIST True (InstrumentationScope_FIELDLIST (Some (otlp_enc_string n))) (Some f)))))))))
    (request_wire item \<lparr> rq_resource = resource_attrs pr r, rq_scope = n, rq_items = items \<rparr>)"
  unfolding ExportTraceServiceRequest_FIELDLIST_def ResourceSpans_FIELDLIST_def ScopeSpans_FIELDLIST_def
  by (rule emits_eq, (rule emits_intros assms | simp add: request_wire_def)+)

subsection \<open>Decoding log records and spans\<close>

definition dec_log :: "bytes \<Rightarrow> log_msg option" where
  "dec_log bs =
     (case parse_fields bs of None \<Rightarrow> None
      | Some fs \<Rightarrow>
          map_option (\<lambda>body.
            \<lparr> lm_time = get_int 1 fs, lm_observed = get_int 11 fs, lm_severity = ucast (get_int 2 fs),
              lm_severity_text = get_str 3 fs, lm_body = body, lm_event_name = get_str 12 fs \<rparr>)
            (dec_any (get_len 5 fs)))"

definition dec_span :: "bytes \<Rightarrow> span_msg option" where
  "dec_span bs =
     (case parse_fields bs of None \<Rightarrow> None
      | Some fs \<Rightarrow>
          map_option (\<lambda>as.
            \<lparr> sm_trace_id = get_len 1 fs, sm_span_id = get_len 2 fs,
              sm_parent = (case map_of fs 4 of Some (W_len p) \<Rightarrow> Some p | _ \<Rightarrow> None),
              sm_name = get_str 5 fs, sm_kind = ucast (get_int 6 fs), sm_start = get_int 7 fs, sm_end = get_int 8 fs,
              sm_attrs = as,
              sm_error = (case parse_fields (get_len 15 fs) of Some st \<Rightarrow> get_int 3 st = 2 | None \<Rightarrow> False) \<rparr>)
            (dec_attrs (get_all 9 fs)))"

lemma get_all_sing [simp]: "get_all t (sing_wire t' l v) = []"
  by (cases l) (simp_all add: sing_wire_def)

lemma ucast_ucast_u32 [simp]: "ucast (ucast (v :: u32) :: u64) = v"
  using unat_less_take_bit [of v 64] unat_less [of v]
  by (simp add: word_unat_eq_iff unsigned_ucast_eq take_bit_nat_def)

lemma ucast_u32_zero [simp]: "(ucast (v :: u32) = (0 :: u64)) = (v = 0)"
  by (metis ucast_ucast_u32 unsigned_0)

lemma dec_log_wire: "dec_log (fields_bytes (log_wire m)) = Some m"
proof -
  have "list_all wire_ok (log_wire m)" by (simp add: log_wire_def)
  then have p: "parse_fields (fields_bytes (log_wire m)) = Some (log_wire m)" by (rule parse_fields_bytes)
  show ?thesis unfolding dec_log_def p option.case
    by (cases m) (simp add: log_wire_def get_int_def get_str_def get_len_def map_of_sing map_add_def
        del: fields_bytes_simps split: option.split)
qed

lemma dec_span_wire: "dec_span (fields_bytes (span_wire m)) = Some m"
proof -
  have "list_all wire_ok (span_wire m)" by (simp add: span_wire_def split: option.split)
  then have p: "parse_fields (fields_bytes (span_wire m)) = Some (span_wire m)" by (rule parse_fields_bytes)
  have q: "parse_fields (fields_bytes [(3, W_varint 2)]) = Some [(3, W_varint 2)]" "parse_fields [] = Some []"
    by (rule parse_fields_bytes, simp, simp add: parse_fields.simps)
  show ?thesis unfolding dec_span_def p option.case
    by (cases m) (simp add: span_wire_def get_int_def get_str_def get_len_def map_of_sing map_add_def q
        del: fields_bytes_simps split: option.split)
qed

lemma logs_build_wire:
  fixes pr r scope recs
  defines "rq \<equiv> otlp_envelope pr r scope (map log_value recs)"
  assumes "length (fields_bytes (request_wire log_wire rq)) < 2 ^ 64"
  shows "otlp_logs_build cap pr r scope recs =
    (if length (fields_bytes (request_wire log_wire rq)) \<le> cap then Some (fields_bytes (request_wire log_wire rq)) else None)"
  using pb_run_emits [OF emits_logs_request [OF emits_log_records]] assms
  by (simp add: otlp_logs_build_def otlp_envelope_def Let_def del: map_map)

lemma traces_build_wire:
  fixes pr r scope
  defines "rq \<equiv> \<lambda>ms. otlp_envelope pr r scope ms"
  assumes "length (fields_bytes (request_wire span_wire (rq ms))) < 2 ^ 64"
  shows "ms = map (span_value metas) spans \<Longrightarrow> otlp_traces_build cap pr r scope spans metas =
      (if length (fields_bytes (request_wire span_wire (rq ms))) \<le> cap then Some (fields_bytes (request_wire span_wire (rq ms))) else None)"
    and "ms = [http_value h] \<Longrightarrow> otlp_traces_http_build cap pr r scope h =
      (if length (fields_bytes (request_wire span_wire (rq ms))) \<le> cap then Some (fields_bytes (request_wire span_wire (rq ms))) else None)"
    and "ms = map generic_value gs \<Longrightarrow> otlp_traces_generic_build_multi cap pr r scope gs =
      (if length (fields_bytes (request_wire span_wire (rq ms))) \<le> cap then Some (fields_bytes (request_wire span_wire (rq ms))) else None)"
  using pb_run_emits [OF emits_traces_request [OF emits_spans(1)]] pb_run_emits [OF emits_traces_request [OF emits_spans(2)]]
    pb_run_emits [OF emits_traces_request [OF emits_spans(3)]] assms
  by (simp_all add: otlp_traces_build_def otlp_traces_http_build_def otlp_traces_generic_build_multi_def otlp_envelope_def Let_def
      del: map_map list.map)

subsection \<open>Properties\<close>

text \<open>C13: the protobuf log request.  Building succeeds exactly when the encoding fits the buffer, and
  a protobuf reader then recovers the resource attributes, the scope and every log record (times,
  severity with its default, body, event name), in order.\<close>

theorem logs_request_roundtrip:
  assumes "rq = otlp_envelope pr r scope (map log_value recs)"
    and "bs = fields_bytes (request_wire log_wire rq)" "length bs < 2 ^ 64"
  shows "otlp_logs_build cap pr r scope recs = (if length bs \<le> cap then Some bs else None)
    \<and> dec_request dec_log bs = Some rq"
  using assms logs_build_wire [of pr r scope recs cap] dec_request_wire [of rq dec_log log_wire] dec_log_wire by simp

definition demo_proc :: otlp_proc where
  "demo_proc = \<lparr> op_instance_env = Some ''i1'', op_hostname = None, op_pid = 1, op_resource_attributes = Some ''team=x'' \<rparr>"

definition demo_resource :: otlp_resource where
  "demo_resource = \<lparr> res_name = Some ''svc'', res_version = None \<rparr>"

definition demo_log :: otlp_log_record where
  "demo_log = \<lparr> lg_time = 5, lg_severity = 0, lg_body_is_str = False, lg_body_str = None, lg_body_int = 300,
     lg_event_name = Some ''amp.emit'' \<rparr>"

lemma demo_log_size:
  "length (fields_bytes (request_wire log_wire (otlp_envelope demo_proc demo_resource None [log_value demo_log]))) < 300"
  by code_simp

theorem logs_request_roundtrip_witness:
  "\<exists>bs. otlp_logs_build 4096 demo_proc demo_resource None [demo_log] = Some bs
     \<and> dec_request dec_log bs = Some (otlp_envelope demo_proc demo_resource None [log_value demo_log])"
  using logs_request_roundtrip [OF refl refl, of demo_proc demo_resource None "[demo_log]" 4096] demo_log_size by simp

text \<open>C34: the protobuf trace requests.  The same for the three span builders (method spans, the HTTP
  server span, generic spans): ids, parent, name, kind, times, attributes and error status of every
  span are recovered, and the single-span build is the multi-span build of one span.\<close>

theorem traces_request_roundtrip:
  assumes "rq = otlp_envelope pr r scope ms"
    and "bs = fields_bytes (request_wire span_wire rq)" "length bs < 2 ^ 64"
  shows "dec_request dec_span bs = Some rq
    \<and> (ms = map (span_value metas) spans \<longrightarrow>
         otlp_traces_build cap pr r scope spans metas = (if length bs \<le> cap then Some bs else None))
    \<and> (ms = [http_value h] \<longrightarrow>
         otlp_traces_http_build cap pr r scope h = (if length bs \<le> cap then Some bs else None))
    \<and> (ms = map generic_value gs \<longrightarrow>
         otlp_traces_generic_build_multi cap pr r scope gs = (if length bs \<le> cap then Some bs else None))
    \<and> otlp_traces_generic_build cap pr r scope g = otlp_traces_generic_build_multi cap pr r scope [g]"
proof -
  have "dec_request dec_span bs = Some rq"
    unfolding assms(2) by (rule dec_request_wire) (rule dec_span_wire)
  moreover note traces_build_wire [of pr r scope ms, folded assms(1), folded assms(2), OF assms(3)]
  ultimately show ?thesis by (simp add: otlp_traces_generic_build_def)
qed

definition demo_hspan :: otlp_http_span where
  "demo_hspan = \<lparr> hs_trace_id = [1], hs_span_id = [2], hs_parent_span_id = [3], hs_has_parent = True, hs_start = 5, hs_end = 6,
     hs_name = Some ''GET /'', hs_http_method = Some ''GET'', hs_url_path = None, hs_status_code = 503,
     hs_server_address = None, hs_server_port = 80, hs_client_address = None, hs_url_scheme = Some [], hs_route = None,
     hs_tenant = None, hs_tcp_established = -1, hs_tcp_state_changes = 0 \<rparr>"

lemma demo_span_size:
  "length (fields_bytes (request_wire span_wire (otlp_envelope demo_proc demo_resource None [http_value demo_hspan]))) < 400"
  by code_simp

theorem traces_request_roundtrip_witness:
  "\<exists>bs. otlp_traces_http_build 4096 demo_proc demo_resource None demo_hspan = Some bs
     \<and> dec_request dec_span bs = Some (otlp_envelope demo_proc demo_resource None [http_value demo_hspan])"
  using traces_request_roundtrip [OF refl refl, of demo_proc demo_resource None "[http_value demo_hspan]" "[]" "[]" 4096 demo_hspan]
    demo_span_size by simp

end
