(* ===== verification/Otlp_Traces.thy ===== *)
theory Otlp_Traces
  imports Otlp_Msg "HOL-Library.Multiset"
begin

text \<open>
  Trace and span identifiers, W3C trace context, correlation windows and the assembly of
  enter/exit events into spans (\<open>src/runtime/otlp/otlp_traces.c\<close>).

  The per-thread stack of the source is a list with the innermost pending call first; its depth is
  the length of the list.
\<close>

unbundle bit_operations_syntax

subsection \<open>Identifiers\<close>

definition splitmix64_mix :: "u64 \<Rightarrow> u64" where
  "splitmix64_mix z0 =
     (let z1 = (z0 XOR drop_bit 30 z0) * 0xBF58476D1CE4E5B9;
          z2 = (z1 XOR drop_bit 27 z1) * 0x94D049BB133111EB
      in z2 XOR drop_bit 31 z2)"

definition splitmix64 :: "u64 \<Rightarrow> u64 \<times> u64" where
  "splitmix64 s = (let s' = s + 0x9E3779B97F4A7C15 in (s', splitmix64_mix s'))"

definition put_u64_be :: "u64 \<Rightarrow> bytes" where
  "put_u64_be v = enc_be 8 (unat v)"

definition otlp_span_new_root :: "otlp_generic_span \<Rightarrow> u64 \<Rightarrow> otlp_generic_span \<times> u64" where
  "otlp_span_new_root s seed =
     (let (s1, a) = splitmix64 seed; (s2, b) = splitmix64 s1; (s3, c) = splitmix64 s2
      in (s \<lparr> gs_trace_id := put_u64_be a @ put_u64_be b, gs_span_id := put_u64_be c,
              gs_has_parent := False, gs_parent_span_id := replicate 8 0 \<rparr>, s3))"

definition otlp_span_new_child :: "otlp_generic_span \<Rightarrow> otlp_generic_span \<Rightarrow> u64 \<Rightarrow> otlp_generic_span \<times> u64" where
  "otlp_span_new_child child parent seed =
     (let (s1, a) = splitmix64 seed
      in (child \<lparr> gs_trace_id := gs_trace_id parent, gs_parent_span_id := gs_span_id parent,
                  gs_has_parent := True, gs_span_id := put_u64_be a \<rparr>, s1))"

subsection \<open>W3C trace context\<close>

definition hexval :: "char \<Rightarrow> int" where
  "hexval c =
     (let n = of_char c :: nat in
      if 48 \<le> n \<and> n \<le> 57 then int n - 48
      else if 97 \<le> n \<and> n \<le> 102 then int n - 97 + 10
      else if 65 \<le> n \<and> n \<le> 70 then int n - 65 + 10
      else -1)"

fun hex_bytes :: "string \<Rightarrow> nat \<Rightarrow> bytes option" where
  "hex_bytes s 0 = Some []"
| "hex_bytes (a # b # s) (Suc n) =
     (if hexval a < 0 \<or> hexval b < 0 then None
      else map_option (\<lambda>bs. of_int (hexval a * 16 + hexval b) # bs) (hex_bytes s n))"
| "hex_bytes s (Suc n) = None"

definition parse_hex :: "string \<Rightarrow> nat \<Rightarrow> bytes option" where
  "parse_hex s n =
     (case hex_bytes s n of None \<Rightarrow> None | Some bs \<Rightarrow> if \<exists>b\<in>set bs. b \<noteq> 0 then Some bs else None)"

definition traceparent_ids :: "string \<Rightarrow> (bytes \<times> bytes) option" where
  "traceparent_ids tp =
     (if length tp \<ge> 55 \<and> tp ! 2 = CHR ''-'' \<and> tp ! 35 = CHR ''-'' \<and> tp ! 52 = CHR ''-''
      then (case parse_hex (drop 3 tp) 16 of
              None \<Rightarrow> None
            | Some tid \<Rightarrow> (case parse_hex (drop 36 tp) 8 of None \<Rightarrow> None | Some pid \<Rightarrow> Some (tid, pid)))
      else None)"

definition otlp_span_root_from_traceparent :: "otlp_generic_span \<Rightarrow> string option \<Rightarrow> u64 \<Rightarrow>
    bool \<times> otlp_generic_span \<times> u64" where
  "otlp_span_root_from_traceparent s tp seed =
     (case (case tp of None \<Rightarrow> None | Some t \<Rightarrow> traceparent_ids t) of
        Some (tid, pid) \<Rightarrow>
          (let (s1, a) = splitmix64 seed
           in (True, s \<lparr> gs_trace_id := tid, gs_parent_span_id := pid, gs_has_parent := True,
                         gs_span_id := put_u64_be a \<rparr>, s1))
      | None \<Rightarrow> (False, otlp_span_new_root s seed))"

definition otlp_child_in_window :: "u32 \<Rightarrow> u64 \<Rightarrow> u32 \<Rightarrow> u64 \<Rightarrow> u64 \<Rightarrow> bool" where
  "otlp_child_in_window child_tgid child_ktime parent_tgid parent_start parent_dur =
     (if parent_start = 0 then False
      else if child_tgid \<noteq> parent_tgid then False
      else child_ktime \<ge> parent_start \<and> child_ktime \<le> parent_start + parent_dur)"

subsection \<open>Assembling events into spans\<close>

definition OTLP_TRACE_MAX_TIDS :: nat where "OTLP_TRACE_MAX_TIDS = 64"
definition OTLP_TRACE_MAX_DEPTH :: nat where "OTLP_TRACE_MAX_DEPTH = 64"

record otlp_span_event =
  ev_kind :: int
  ev_idx :: int
  ev_ktime :: u64
  ev_tid :: u64

record pending =
  pd_span_id :: bytes
  pd_parent :: bytes
  pd_has_parent :: bool
  pd_trace_id :: bytes
  pd_start :: u64
  pd_idx :: int

record tidslot =
  ts_tid :: u64
  ts_trace_id :: bytes
  ts_stack :: "pending list"

record assembly =
  as_slots :: "tidslot list"
  as_rng :: u64
  as_out :: "otlp_span list"

definition slot_of :: "u64 \<Rightarrow> tidslot list \<Rightarrow> tidslot option" where
  "slot_of tid slots = find (\<lambda>s. ts_tid s = tid) slots"

fun slot_put :: "tidslot \<Rightarrow> tidslot list \<Rightarrow> tidslot list" where
  "slot_put s [] = []"
| "slot_put s (x # xs) = (if ts_tid x = ts_tid s then s # xs else x # slot_put s xs)"

definition draw_id :: "assembly \<Rightarrow> bytes \<times> assembly" where
  "draw_id st = (let (r, v) = splitmix64 (as_rng st) in (put_u64_be v, st \<lparr> as_rng := r \<rparr>))"

definition handle_enter :: "u64 \<Rightarrow> otlp_span_event \<Rightarrow> tidslot \<Rightarrow> assembly \<Rightarrow> assembly" where
  "handle_enter unix_ns e s st =
     (if length (ts_stack s) \<ge> OTLP_TRACE_MAX_DEPTH then st
      else
        let (s1, st1) =
              (if ts_stack s = [] then
                 let (a, sta) = draw_id st; (b, stb) = draw_id sta in (s \<lparr> ts_trace_id := a @ b \<rparr>, stb)
               else (s, st));
            (sid, st2) = draw_id st1;
            p = \<lparr> pd_span_id = sid,
                  pd_parent = (if ts_stack s1 = [] then [] else pd_span_id (hd (ts_stack s1))),
                  pd_has_parent = (ts_stack s1 \<noteq> []),
                  pd_trace_id = ts_trace_id s1, pd_start = unix_ns, pd_idx = ev_idx e \<rparr>
        in st2 \<lparr> as_slots := slot_put (s1 \<lparr> ts_stack := p # ts_stack s1 \<rparr>) (as_slots st2) \<rparr>)"

definition pending_span :: "u64 \<Rightarrow> pending \<Rightarrow> otlp_span" where
  "pending_span unix_ns p =
     \<lparr> os_trace_id = pd_trace_id p, os_span_id = pd_span_id p,
       os_parent_span_id = (if pd_has_parent p then pd_parent p else replicate 8 0),
       os_has_parent = pd_has_parent p, os_method_idx = pd_idx p,
       os_start = pd_start p, os_end = unix_ns \<rparr>"

definition handle_exit :: "u64 \<Rightarrow> nat \<Rightarrow> tidslot \<Rightarrow> assembly \<Rightarrow> assembly" where
  "handle_exit unix_ns max_out s st =
     (case ts_stack s of
        [] \<Rightarrow> st
      | p # ps \<Rightarrow>
          (let st1 = st \<lparr> as_slots := slot_put (s \<lparr> ts_stack := ps \<rparr>) (as_slots st) \<rparr>
           in if length (as_out st1) \<ge> max_out then st1
              else st1 \<lparr> as_out := as_out st1 @ [pending_span unix_ns p] \<rparr>))"

definition assemble_event :: "u64 \<Rightarrow> nat \<Rightarrow> assembly \<Rightarrow> otlp_span_event \<Rightarrow> assembly" where
  "assemble_event off_ns max_out st e =
     (let fresh = \<lparr> ts_tid = ev_tid e, ts_trace_id = replicate 16 0, ts_stack = [] \<rparr>;
          unix_ns = ev_ktime e + off_ns;
          handle = (\<lambda>s st'. if ev_kind e = 0 then handle_enter unix_ns e s st'
                            else handle_exit unix_ns max_out s st')
      in case slot_of (ev_tid e) (as_slots st) of
           Some s \<Rightarrow> handle s st
         | None \<Rightarrow> if length (as_slots st) \<ge> OTLP_TRACE_MAX_TIDS then st
                   else handle fresh (st \<lparr> as_slots := as_slots st @ [fresh] \<rparr>))"

definition otlp_traces_assemble :: "otlp_span_event list \<Rightarrow> u64 \<Rightarrow> u64 \<Rightarrow> nat \<Rightarrow> otlp_span list" where
  "otlp_traces_assemble ev off_ns seed max_out =
     as_out (foldl (assemble_event off_ns max_out) \<lparr> as_slots = [], as_rng = seed, as_out = [] \<rparr> ev)"

subsection \<open>Identifiers do not repeat\<close>

lemma xorshift_inj:
  fixes a b :: u64
  assumes "0 < k" "a XOR drop_bit k a = b XOR drop_bit k b"
  shows "a = b"
proof -
  have eq: "(bit a n \<noteq> bit a (n + k)) = (bit b n \<noteq> bit b (n + k))" if "n < 64" for n
  proof -
    have "bit (a XOR drop_bit k a) n = bit (b XOR drop_bit k b) n" using assms(2) by simp
    then show ?thesis using that by (simp add: bit_simps add.commute)
  qed
  have "bit a n = bit b n" for n
  proof (induction "64 - n" arbitrary: n rule: less_induct)
    case less
    show ?case
    proof (cases "n < 64")
      case True
      then have "bit a (n + k) = bit b (n + k)" using less [of "n + k"] assms(1) by simp
      then show ?thesis using eq [OF True] by blast
    next
      case False
      then show ?thesis using bit_imp_le_length [of a n] bit_imp_le_length [of b n] by auto
    qed
  qed
  then show ?thesis by (simp add: bit_eq_iff)
qed

lemma mult_inj:
  fixes a b c c' :: u64
  assumes "c * c' = 1" "a * c = b * c"
  shows "a = b"
proof -
  have "a * (c * c') = b * (c * c')" using assms(2) by (simp only: mult.assoc [symmetric])
  then show ?thesis using assms(1) by simp
qed

lemma splitmix64_mix_inj:
  assumes "splitmix64_mix a = splitmix64_mix b"
  shows "a = b"
proof -
  let ?f = "\<lambda>z. (z XOR drop_bit 30 z) * (0xBF58476D1CE4E5B9 :: u64)"
  let ?g = "\<lambda>z. (z XOR drop_bit 27 z) * (0x94D049BB133111EB :: u64)"
  have inv1: "(0xBF58476D1CE4E5B9 :: u64) * 0x96DE1B173F119089 = 1"
    and inv2: "(0x94D049BB133111EB :: u64) * 0x319642B2D24D8EC3 = 1" by simp_all
  have "?g (?f a) XOR drop_bit 31 (?g (?f a)) = ?g (?f b) XOR drop_bit 31 (?g (?f b))"
    using assms unfolding splitmix64_mix_def Let_def .
  then have "?g (?f a) = ?g (?f b)" by (rule xorshift_inj [rotated]) simp
  then have "?f a XOR drop_bit 27 (?f a) = ?f b XOR drop_bit 27 (?f b)" by (rule mult_inj [OF inv2])
  then have "?f a = ?f b" by (rule xorshift_inj [rotated]) simp
  then have "a XOR drop_bit 30 a = b XOR drop_bit 30 b" by (rule mult_inj [OF inv1])
  then show "a = b" by (rule xorshift_inj [rotated]) simp
qed

lemma put_u64_be_inj: "put_u64_be a = put_u64_be b \<Longrightarrow> a = b"
proof -
  assume "put_u64_be a = put_u64_be b"
  then have "dec_be (enc_be 8 (unat a)) = dec_be (enc_be 8 (unat b))" by (simp add: put_u64_be_def)
  moreover have "unat a < 256 ^ 8" "unat b < 256 ^ 8" using unat_less [of a] unat_less [of b] by simp_all
  ultimately show "a = b" by (simp add: dec_enc_be word_unat_eq_iff)
qed

text \<open>The state after \<open>d\<close> draws, and the identifier the \<open>d\<close>-th draw returns.\<close>

definition rng_at :: "u64 \<Rightarrow> nat \<Rightarrow> u64" where
  "rng_at seed d = seed + of_nat d * 0x9E3779B97F4A7C15"

definition id_at :: "u64 \<Rightarrow> nat \<Rightarrow> bytes" where
  "id_at seed d = put_u64_be (splitmix64_mix (rng_at seed d))"

lemma rng_at_inj:
  assumes "rng_at seed d = rng_at seed d'" "d < 2 ^ 64" "d' < 2 ^ 64"
  shows "d = d'"
proof -
  have inv: "(0x9E3779B97F4A7C15 :: u64) * 0xF1DE83E19937733D = 1" by simp
  have "of_nat d * (0x9E3779B97F4A7C15 :: u64) = of_nat d' * 0x9E3779B97F4A7C15"
    using assms(1) by (simp add: rng_at_def)
  then have "(of_nat d :: u64) = of_nat d'" by (rule mult_inj [OF inv])
  then have "unat (of_nat d :: u64) = unat (of_nat d' :: u64)" by simp
  then show ?thesis using assms(2,3) by (simp add: unat_of_nat)
qed

lemma splitmix64_at: "splitmix64 (rng_at seed d) = (rng_at seed (Suc d), splitmix64_mix (rng_at seed (Suc d)))"
proof -
  have "rng_at seed d + 0x9E3779B97F4A7C15 = rng_at seed (Suc d)"
    by (simp add: rng_at_def distrib_right)
  then show ?thesis by (simp add: splitmix64_def Let_def)
qed

lemma draw_id_at: "as_rng st = rng_at seed d \<Longrightarrow> draw_id st = (id_at seed (Suc d), st \<lparr> as_rng := rng_at seed (Suc d) \<rparr>)"
  by (simp add: draw_id_def splitmix64_at id_at_def)

lemma id_at_inj: "id_at seed d = id_at seed d' \<Longrightarrow> d < 2 ^ 64 \<Longrightarrow> d' < 2 ^ 64 \<Longrightarrow> d = d'"
  unfolding id_at_def by (meson put_u64_be_inj splitmix64_mix_inj rng_at_inj)

lemma distinct_sub:
  assumes "mset xs \<subseteq># mset ys" "distinct ys"
  shows "distinct xs"
proof -
  have "count (mset xs) a = (if a \<in> set xs then 1 else 0)" for a
  proof (cases "a \<in> set xs")
    case True
    have "count (mset xs) a \<le> count (mset ys) a" using assms(1) by (rule mset_subset_eq_count)
    moreover have "count (mset ys) a \<le> 1" using assms(2) by (simp add: distinct_count_atmost_1)
    moreover have "count (mset xs) a > 0" using True by (simp add: count_greater_zero_iff del: count_mset)
    ultimately have "count (mset xs) a = 1" by linarith
    then show ?thesis using True by (simp only: if_True)
  next
    case False
    then show ?thesis by (simp add: count_eq_zero_iff del: count_mset)
  qed
  then show ?thesis unfolding distinct_count_atmost_1 by blast
qed

text \<open>The identifiers of all pending and finished spans.\<close>

definition slot_ids :: "tidslot \<Rightarrow> bytes list" where
  "slot_ids s = map pd_span_id (ts_stack s)"

definition live_ids :: "assembly \<Rightarrow> bytes list" where
  "live_ids st = concat (map slot_ids (as_slots st)) @ map os_span_id (as_out st)"

lemma slot_of_tid: "slot_of tid slots = Some s \<Longrightarrow> ts_tid s = tid"
  by (auto simp: slot_of_def find_Some_iff)

lemma slot_of_append: "slot_of tid slots = None \<Longrightarrow> ts_tid s = tid \<Longrightarrow> slot_of tid (slots @ [s]) = Some s"
  by (induction slots) (auto simp: slot_of_def split: if_splits)

lemma slot_put_ids:
  "slot_of (ts_tid s') slots = Some s \<Longrightarrow>
   mset (concat (map slot_ids (slot_put s' slots))) + mset (slot_ids s)
     = mset (concat (map slot_ids slots)) + mset (slot_ids s')"
  by (induction slots) (auto simp: slot_of_def split: if_splits)

definition asm_inv :: "u64 \<Rightarrow> nat \<Rightarrow> assembly \<Rightarrow> bool" where
  "asm_inv seed n st \<longleftrightarrow>
     (\<exists>d. d \<le> 3 * n \<and> as_rng st = rng_at seed d \<and> distinct (live_ids st) \<and> set (live_ids st) \<subseteq> id_at seed ` {1..d})"

lemma asm_inv_sub:
  assumes "asm_inv seed n st" "mset (live_ids st') \<subseteq># mset (live_ids st)" "as_rng st' = as_rng st"
  shows "asm_inv seed (Suc n) st'"
proof -
  obtain d where d: "d \<le> 3 * n" "as_rng st = rng_at seed d" "distinct (live_ids st)"
    "set (live_ids st) \<subseteq> id_at seed ` {1..d}" using assms(1) by (auto simp: asm_inv_def)
  have "set (live_ids st') \<subseteq> set (live_ids st)" using set_mset_mono [OF assms(2)] by simp
  then show ?thesis using d assms(3) distinct_sub [OF assms(2)]
    unfolding asm_inv_def by (intro exI [of _ d]) auto
qed

lemma asm_inv_draw:
  assumes "d \<le> 3 * n" "distinct (live_ids st)" "set (live_ids st) \<subseteq> id_at seed ` {1..d}"
    and "d < d'" "d' \<le> 3 * Suc n" "3 * Suc n < 2 ^ 64"
    and "mset (live_ids st') = add_mset (id_at seed d') (mset (live_ids st))" "as_rng st' = rng_at seed d'"
  shows "asm_inv seed (Suc n) st'"
proof -
  have new: "id_at seed d' \<notin> set (live_ids st)"
  proof
    assume "id_at seed d' \<in> set (live_ids st)"
    then obtain k where "k \<le> d" "id_at seed d' = id_at seed k" using subsetD [OF assms(3)] by fastforce
    then show False using id_at_inj [of seed d' k] assms(4-6) by simp
  qed
  have m: "mset (live_ids st') = mset (id_at seed d' # live_ids st)" using assms(7) by simp
  have "distinct (live_ids st')" unfolding mset_eq_imp_distinct_iff [OF m] using new assms(2) by simp
  moreover have "id_at seed ` {1..d} \<subseteq> id_at seed ` {1..d'}" using assms(4) by (intro image_mono) auto
  then have "set (live_ids st') \<subseteq> id_at seed ` {1..d'}"
    unfolding mset_eq_setD [OF m] using assms(3,4) by auto
  ultimately show ?thesis unfolding asm_inv_def using assms(5,8) by blast
qed

lemma handle_exit_inv:
  assumes "asm_inv seed n st" "slot_of (ts_tid s) (as_slots st) = Some s"
  shows "asm_inv seed (Suc n) (handle_exit u max_out s st)"
proof (cases "ts_stack s")
  case Nil
  then show ?thesis using asm_inv_sub [OF assms(1)] by (simp add: handle_exit_def)
next
  case (Cons p ps)
  have h: "mset (concat (map slot_ids (as_slots st))) =
      add_mset (pd_span_id p) (mset (concat (map slot_ids (slot_put (s \<lparr> ts_stack := ps \<rparr>) (as_slots st)))))"
    using slot_put_ids [of "s \<lparr> ts_stack := ps \<rparr>" "as_slots st" s] assms(2) Cons by (simp add: slot_ids_def)
  have "mset (live_ids (handle_exit u max_out s st)) \<subseteq># mset (live_ids st)"
    using Cons h by (simp add: handle_exit_def live_ids_def pending_span_def Let_def)
  then show ?thesis using asm_inv_sub [OF assms(1)] Cons by (simp add: handle_exit_def Let_def)
qed

lemma handle_enter_inv:
  assumes "asm_inv seed n st" "slot_of (ts_tid s) (as_slots st) = Some s" "3 * Suc n < 2 ^ 64"
  shows "asm_inv seed (Suc n) (handle_enter u e s st)"
proof (cases "length (ts_stack s) \<ge> OTLP_TRACE_MAX_DEPTH")
  case True
  then show ?thesis using asm_inv_sub [OF assms(1)] by (simp add: handle_enter_def)
next
  case False
  obtain d where d: "d \<le> 3 * n" "as_rng st = rng_at seed d" "distinct (live_ids st)"
    "set (live_ids st) \<subseteq> id_at seed ` {1..d}" using assms(1) by (auto simp: asm_inv_def)
  define d' where "d' = (if ts_stack s = [] then d + 3 else d + 1)"
  obtain s1 p where r: "handle_enter u e s st =
      st \<lparr> as_rng := rng_at seed d', as_slots := slot_put (s1 \<lparr> ts_stack := p # ts_stack s \<rparr>) (as_slots st) \<rparr>"
    and s1: "ts_tid s1 = ts_tid s" "pd_span_id p = id_at seed d'"
  proof (cases "ts_stack s = []")
    case True
    then show ?thesis using that False d(2)
      by (simp add: handle_enter_def draw_id_at [of _ seed] Let_def d'_def eval_nat_numeral)
  next
    case F: False
    then show ?thesis using that False d(2)
      by (simp add: handle_enter_def draw_id_at [of _ seed] Let_def d'_def)
  qed
  have "mset (live_ids (handle_enter u e s st)) = add_mset (id_at seed d') (mset (live_ids st))"
    using slot_put_ids [of "s1 \<lparr> ts_stack := p # ts_stack s \<rparr>" "as_slots st" s] assms(2) s1
    by (simp add: r live_ids_def slot_ids_def)
  then show ?thesis
    using d assms(3) r by (intro asm_inv_draw [of d n st seed d']) (simp_all add: d'_def)
qed

lemma assemble_event_inv:
  assumes "asm_inv seed n st" "3 * Suc n < 2 ^ 64"
  shows "asm_inv seed (Suc n) (assemble_event off max_out st e)"
proof (cases "slot_of (ev_tid e) (as_slots st)")
  case (Some s)
  then have "slot_of (ts_tid s) (as_slots st) = Some s" using slot_of_tid by fastforce
  then show ?thesis using Some assms handle_enter_inv handle_exit_inv
    by (simp add: assemble_event_def Let_def)
next
  case None
  let ?f = "\<lparr> ts_tid = ev_tid e, ts_trace_id = replicate 16 0, ts_stack = [] \<rparr>"
  let ?st = "st \<lparr> as_slots := as_slots st @ [?f] \<rparr>"
  have "live_ids ?st = live_ids st" by (simp add: live_ids_def slot_ids_def)
  then have "asm_inv seed n ?st" using assms(1) by (simp add: asm_inv_def)
  moreover have "slot_of (ts_tid ?f) (as_slots ?st) = Some ?f"
    using slot_of_append [OF None, of ?f] by simp
  moreover have "asm_inv seed (Suc n) st" using asm_inv_sub [OF assms(1)] by simp
  ultimately show ?thesis using None assms(2) handle_enter_inv [of seed n ?st ?f] handle_exit_inv [of seed n ?st ?f]
    by (simp add: assemble_event_def Let_def)
qed

lemma assemble_inv:
  "3 * length ev < 2 ^ 64 \<Longrightarrow>
   asm_inv seed (length ev) (foldl (assemble_event off max_out) \<lparr> as_slots = [], as_rng = seed, as_out = [] \<rparr> ev)"
proof (induction ev rule: rev_induct)
  case Nil
  then show ?case by (simp add: asm_inv_def live_ids_def rng_at_def)
next
  case (snoc e ev)
  then show ?case using assemble_event_inv by simp
qed

subsection \<open>Call trees\<close>

text \<open>A completed call: method index, enter time, the calls made inside it, exit time.  The spans of a
  call tree, defined by recursion over the tree: a call's span comes after those of the calls inside
  it, which have it as their parent; all calls under one outermost call share its trace id.\<close>

datatype call = Call int u64 "call list" u64

fun ev_call :: "u64 \<Rightarrow> call \<Rightarrow> otlp_span_event list"
  and ev_calls :: "u64 \<Rightarrow> call list \<Rightarrow> otlp_span_event list" where
  "ev_call tid (Call i a cs b) =
     \<lparr> ev_kind = 0, ev_idx = i, ev_ktime = a, ev_tid = tid \<rparr> # ev_calls tid cs
     @ [\<lparr> ev_kind = 1, ev_idx = i, ev_ktime = b, ev_tid = tid \<rparr>]"
| "ev_calls tid [] = []"
| "ev_calls tid (c # cs) = ev_call tid c @ ev_calls tid cs"

fun call_depth :: "call \<Rightarrow> nat" and calls_depth :: "call list \<Rightarrow> nat" where
  "call_depth (Call i a cs b) = Suc (calls_depth cs)"
| "calls_depth [] = 0"
| "calls_depth (c # cs) = max (call_depth c) (calls_depth cs)"

fun call_count :: "call \<Rightarrow> nat" and calls_count :: "call list \<Rightarrow> nat" where
  "call_count (Call i a cs b) = Suc (calls_count cs)"
| "calls_count [] = 0"
| "calls_count (c # cs) = call_count c + calls_count cs"

definition mk_span :: "bytes \<Rightarrow> bytes \<Rightarrow> bytes option \<Rightarrow> int \<Rightarrow> u64 \<Rightarrow> u64 \<Rightarrow> otlp_span" where
  "mk_span tr sid par i t0 t1 =
     \<lparr> os_trace_id = tr, os_span_id = sid,
       os_parent_span_id = (case par of Some p \<Rightarrow> p | None \<Rightarrow> replicate 8 0),
       os_has_parent = (par \<noteq> None), os_method_idx = i, os_start = t0, os_end = t1 \<rparr>"

fun span_call :: "u64 \<Rightarrow> bytes \<Rightarrow> bytes option \<Rightarrow> call \<Rightarrow> u64 \<Rightarrow> otlp_span list \<times> u64"
  and span_calls :: "u64 \<Rightarrow> bytes \<Rightarrow> bytes option \<Rightarrow> call list \<Rightarrow> u64 \<Rightarrow> otlp_span list \<times> u64" where
  "span_call off tr par (Call i a cs b) r =
     (let (r1, v) = splitmix64 r;
          (ss, r2) = span_calls off tr (Some (put_u64_be v)) cs r1
      in (ss @ [mk_span tr (put_u64_be v) par i (a + off) (b + off)], r2))"
| "span_calls off tr par [] r = ([], r)"
| "span_calls off tr par (c # cs) r =
     (let (s1, r1) = span_call off tr par c r; (s2, r2) = span_calls off tr par cs r1 in (s1 @ s2, r2))"

fun forest_spans :: "u64 \<Rightarrow> call list \<Rightarrow> u64 \<Rightarrow> otlp_span list" where
  "forest_spans off [] r = []"
| "forest_spans off (c # cs) r =
     (let (r1, a) = splitmix64 r; (r2, b) = splitmix64 r1;
          (ss, r3) = span_call off (put_u64_be a @ put_u64_be b) None c r2
      in ss @ forest_spans off cs r3)"

lemma slot_put_put [simp]: "ts_tid s = ts_tid s' \<Longrightarrow> slot_put s (slot_put s' slots) = slot_put s slots"
  by (induction slots) auto

lemma slot_put_same: "slot_of (ts_tid s) slots = Some s \<Longrightarrow> slot_put s slots = slots"
  by (induction slots) (auto simp: slot_of_def split: if_splits)

lemma slot_of_put: "slot_of (ts_tid s) slots \<noteq> None \<Longrightarrow> slot_of (ts_tid s) (slot_put s slots) = Some s"
  by (induction slots) (auto simp: slot_of_def split: if_splits)

lemma span_length:
  "length (fst (span_call off tr par c r)) = call_count c"
  "length (fst (span_calls off tr par cs r)) = calls_count cs"
  by (induction c and cs arbitrary: par r and par r rule: call_count_calls_count.induct)
    (simp_all add: split_beta Let_def)

text \<open>A call made inside another one: the slot is back where it was, the spans are appended.\<close>

lemma assemble_call:
  fixes off :: u64 and mx :: nat and tid :: u64
  defines "run \<equiv> foldl (assemble_event off mx)"
  shows "slot_of tid (as_slots st) = Some s \<Longrightarrow> ts_stack s = p # ps \<Longrightarrow>
      length (ts_stack s) + call_depth c \<le> OTLP_TRACE_MAX_DEPTH \<Longrightarrow> length (as_out st) + call_count c \<le> mx \<Longrightarrow>
      run st (ev_call tid c) =
        st \<lparr> as_rng := snd (span_call off (ts_trace_id s) (Some (pd_span_id p)) c (as_rng st)),
             as_out := as_out st @ fst (span_call off (ts_trace_id s) (Some (pd_span_id p)) c (as_rng st)) \<rparr>"
    and "slot_of tid (as_slots st) = Some s \<Longrightarrow> ts_stack s = p # ps \<Longrightarrow>
      length (ts_stack s) + calls_depth cs \<le> OTLP_TRACE_MAX_DEPTH \<Longrightarrow> length (as_out st) + calls_count cs \<le> mx \<Longrightarrow>
      run st (ev_calls tid cs) =
        st \<lparr> as_rng := snd (span_calls off (ts_trace_id s) (Some (pd_span_id p)) cs (as_rng st)),
             as_out := as_out st @ fst (span_calls off (ts_trace_id s) (Some (pd_span_id p)) cs (as_rng st)) \<rparr>"
proof (induction c and cs arbitrary: st s p ps and st s p ps rule: call_count_calls_count.induct)
  case (1 i a cs b)
  have tid: "ts_tid s = tid" using slot_of_tid 1(2) by blast
  obtain r1 v where v: "splitmix64 (as_rng st) = (r1, v)" by (meson surj_pair)
  let ?p = "\<lparr> pd_span_id = put_u64_be v, pd_parent = pd_span_id p, pd_has_parent = True,
              pd_trace_id = ts_trace_id s, pd_start = a + off, pd_idx = i \<rparr>"
  let ?s = "s \<lparr> ts_stack := ?p # ts_stack s \<rparr>"
  let ?st = "st \<lparr> as_rng := r1, as_slots := slot_put ?s (as_slots st) \<rparr>"
  have enter: "assemble_event off mx st \<lparr> ev_kind = 0, ev_idx = i, ev_ktime = a, ev_tid = tid \<rparr> = ?st"
    using 1(2-4) v by (simp add: assemble_event_def handle_enter_def draw_id_def)
  have look: "slot_of tid (as_slots ?st) = Some ?s"
    using slot_of_put [of ?s "as_slots st"] 1(2) tid by simp
  obtain ss r2 where ss: "span_calls off (ts_trace_id s) (Some (put_u64_be v)) cs r1 = (ss, r2)"
    by (meson surj_pair)
  have len: "length ss = calls_count cs"
    using span_length(2) [of off "ts_trace_id s" "Some (put_u64_be v)" cs r1] ss by simp
  have body: "run ?st (ev_calls tid cs) = ?st \<lparr> as_rng := r2, as_out := as_out st @ ss \<rparr>"
    using 1(1) [OF look] 1(3-5) ss by simp
  have "assemble_event off mx (?st \<lparr> as_rng := r2, as_out := as_out st @ ss \<rparr>)
          \<lparr> ev_kind = 1, ev_idx = i, ev_ktime = b, ev_tid = tid \<rparr>
      = st \<lparr> as_rng := r2,
             as_out := as_out st @ ss @ [mk_span (ts_trace_id s) (put_u64_be v) (Some (pd_span_id p)) i (a + off) (b + off)] \<rparr>"
    using look 1(2,5) len slot_put_same [of s "as_slots st"] tid
    by (simp add: assemble_event_def handle_exit_def pending_span_def mk_span_def)
  then show ?case using enter body v ss unfolding run_def by simp
next
  case 2
  then show ?case by (simp add: run_def)
next
  case (3 c cs)
  let ?sc = "span_call off (ts_trace_id s) (Some (pd_span_id p)) c (as_rng st)"
  have "run st (ev_call tid c) = st \<lparr> as_rng := snd ?sc, as_out := as_out st @ fst ?sc \<rparr>"
    using 3(1) [OF 3(3,4)] 3(5,6) by simp
  moreover have "run (st \<lparr> as_rng := snd ?sc, as_out := as_out st @ fst ?sc \<rparr>) (ev_calls tid cs) =
      st \<lparr> as_rng := snd (span_calls off (ts_trace_id s) (Some (pd_span_id p)) cs (snd ?sc)),
           as_out := as_out st @ fst ?sc @ fst (span_calls off (ts_trace_id s) (Some (pd_span_id p)) cs (snd ?sc)) \<rparr>"
    using 3(2) [of "st \<lparr> as_rng := snd ?sc, as_out := as_out st @ fst ?sc \<rparr>" s p ps] 3(3-6)
      span_length(1) [of off "ts_trace_id s" "Some (pd_span_id p)" c "as_rng st"] by simp
  ultimately show ?case unfolding run_def by (simp add: split_beta Let_def)
qed

lemma assemble_root:
  assumes slot: "slot_of tid (as_slots st) = Some s" "ts_stack s = []"
    and room: "call_depth c \<le> OTLP_TRACE_MAX_DEPTH" "length (as_out st) + call_count c \<le> mx"
    and ids: "splitmix64 (as_rng st) = (r1, x)" "splitmix64 r1 = (r2, y)"
    and tr: "tr = put_u64_be x @ put_u64_be y" and sp: "span_call off tr None c r2 = (ss, r3)"
  shows "foldl (assemble_event off mx) st (ev_call tid c) =
    st \<lparr> as_rng := r3, as_slots := slot_put (s \<lparr> ts_trace_id := tr \<rparr>) (as_slots st), as_out := as_out st @ ss \<rparr>"
proof (cases c)
  case (Call i a cs b)
  have tid: "ts_tid s = tid" using slot_of_tid slot(1) by blast
  obtain q v where v: "splitmix64 r2 = (q, v)" by (meson surj_pair)
  let ?p = "\<lparr> pd_span_id = put_u64_be v, pd_parent = [], pd_has_parent = False,
              pd_trace_id = tr, pd_start = a + off, pd_idx = i \<rparr>"
  let ?s = "s \<lparr> ts_trace_id := tr, ts_stack := [?p] \<rparr>"
  let ?st = "st \<lparr> as_rng := q, as_slots := slot_put ?s (as_slots st) \<rparr>"
  obtain bs r where bs: "span_calls off tr (Some (put_u64_be v)) cs q = (bs, r)" by (meson surj_pair)
  then have ss: "ss = bs @ [mk_span tr (put_u64_be v) None i (a + off) (b + off)]" "r3 = r"
    using sp v Call by simp_all
  have len: "length bs = calls_count cs"
    using span_length(2) [of off tr "Some (put_u64_be v)" cs q] bs by simp
  have enter: "assemble_event off mx st \<lparr> ev_kind = 0, ev_idx = i, ev_ktime = a, ev_tid = tid \<rparr> = ?st"
    using slot ids v tr by (simp add: assemble_event_def handle_enter_def draw_id_def OTLP_TRACE_MAX_DEPTH_def)
  have look: "slot_of tid (as_slots ?st) = Some ?s"
    using slot_of_put [of ?s "as_slots st"] slot(1) tid by simp
  have body: "foldl (assemble_event off mx) ?st (ev_calls tid cs) = ?st \<lparr> as_rng := r, as_out := as_out st @ bs \<rparr>"
    using assemble_call(2) [OF look, of ?p "[]" cs mx off] room bs Call by simp
  have bk: "s \<lparr> ts_trace_id := tr, ts_stack := [] \<rparr> = s \<lparr> ts_trace_id := tr \<rparr>" using slot(2) by (cases s) simp
  have "assemble_event off mx (?st \<lparr> as_rng := r, as_out := as_out st @ bs \<rparr>)
          \<lparr> ev_kind = 1, ev_idx = i, ev_ktime = b, ev_tid = tid \<rparr>
      = st \<lparr> as_rng := r, as_slots := slot_put (s \<lparr> ts_trace_id := tr \<rparr>) (as_slots st), as_out := as_out st @ ss \<rparr>"
    using look room(2) len tid bk Call unfolding ss
    by (simp add: assemble_event_def handle_exit_def pending_span_def mk_span_def)
  then show ?thesis using enter body ss(2) Call by simp
qed

lemma assemble_forest:
  assumes "slot_of tid (as_slots st) = Some s" "ts_stack s = []"
    and "calls_depth cs \<le> OTLP_TRACE_MAX_DEPTH" "length (as_out st) + calls_count cs \<le> mx"
  shows "as_out (foldl (assemble_event off mx) st (ev_calls tid cs)) = as_out st @ forest_spans off cs (as_rng st)"
  using assms
proof (induction cs arbitrary: st s)
  case (Cons c cs)
  obtain r1 x where x: "splitmix64 (as_rng st) = (r1, x)" by (meson surj_pair)
  obtain r2 y where y: "splitmix64 r1 = (r2, y)" by (meson surj_pair)
  define tr where "tr = put_u64_be x @ put_u64_be y"
  obtain ss r3 where sp: "span_call off tr None c r2 = (ss, r3)" by (meson surj_pair)
  have "ts_tid s = tid" using slot_of_tid Cons.prems(1) by blast
  then have look: "slot_of tid (slot_put (s \<lparr> ts_trace_id := tr \<rparr>) (as_slots st)) = Some (s \<lparr> ts_trace_id := tr \<rparr>)"
    using slot_of_put [of "s \<lparr> ts_trace_id := tr \<rparr>" "as_slots st"] Cons.prems(1) by simp
  have len: "length ss = call_count c" using span_length(1) [of off tr None c r2] sp by simp
  let ?st = "st \<lparr> as_rng := r3, as_slots := slot_put (s \<lparr> ts_trace_id := tr \<rparr>) (as_slots st), as_out := as_out st @ ss \<rparr>"
  have "foldl (assemble_event off mx) st (ev_call tid c) = ?st"
    using Cons.prems x y tr_def sp by (intro assemble_root) simp_all
  moreover have "as_out (foldl (assemble_event off mx) ?st (ev_calls tid cs)) = as_out ?st @ forest_spans off cs r3"
    using Cons.IH [of ?st "s \<lparr> ts_trace_id := tr \<rparr>"] Cons.prems look len by simp
  ultimately show ?case using x y sp by (simp add: tr_def Let_def)
qed simp

lemma assemble_fresh:
  fixes st :: assembly
  assumes "as_slots st = []"
  shows "assemble_event off mx st e =
    assemble_event off mx (st \<lparr> as_slots := [\<lparr> ts_tid = ev_tid e, ts_trace_id = replicate 16 0, ts_stack = [] \<rparr>] \<rparr>) e"
  using assms by (simp add: assemble_event_def slot_of_def OTLP_TRACE_MAX_TIDS_def Let_def)

text \<open>Printing of identifiers in lower-case hexadecimal.\<close>

definition hex_digit :: "nat \<Rightarrow> char" where
  "hex_digit n = (if n < 10 then char_of (48 + n) else char_of (87 + n))"

definition hex_of :: "bytes \<Rightarrow> string" where
  "hex_of bs = concat (map (\<lambda>b. [hex_digit (unat b div 16), hex_digit (unat b mod 16)]) bs)"

lemma hexval_digit: "n < 16 \<Longrightarrow> hexval (hex_digit n) = int n"
  by (auto simp: hexval_def hex_digit_def Let_def)

lemma hex_bytes_of: "hex_bytes (hex_of bs @ r) (length bs) = Some bs"
proof (induction bs)
  case (Cons b bs)
  have "unat b < 256" using unat_less [of b] by simp
  then have "unat b div 16 < 16" "unat b mod 16 < 16" by simp_all
  moreover have "int (unat b div 16) * 16 + int (unat b mod 16) = int (unat b)"
    by (simp add: zdiv_int zmod_int)
  then have "of_int (int (unat b div 16) * 16 + int (unat b mod 16)) = b" by simp
  ultimately show ?case using Cons by (simp add: hex_of_def hexval_digit)
qed (simp add: hex_of_def)

lemma length_hex_of [simp]: "length (hex_of bs) = 2 * length bs"
  by (induction bs) (simp_all add: hex_of_def)

lemma parse_hex_of: "\<exists>b\<in>set bs. b \<noteq> 0 \<Longrightarrow> parse_hex (hex_of bs @ r) (length bs) = Some bs"
  by (simp add: parse_hex_def hex_bytes_of)

subsection \<open>Properties\<close>

text \<open>C8: assembling the events of one thread reconstructs its call tree.  For any sequence of nested
  calls of depth at most 64, the spans are those of the recursive definition: every call has exactly
  one span with its own enter and exit times, whose parent is the enclosing call, and the calls under
  one outermost call share one trace id.\<close>

theorem assemble_call_tree:
  assumes "calls_depth cs \<le> OTLP_TRACE_MAX_DEPTH" "calls_count cs \<le> max_out"
  shows "otlp_traces_assemble (ev_calls tid cs) off seed max_out = forest_spans off cs seed"
proof (cases cs)
  case Nil
  then show ?thesis by (simp add: otlp_traces_assemble_def)
next
  case (Cons c cs')
  let ?st = "\<lparr> as_slots = [], as_rng = seed, as_out = [] \<rparr>"
  let ?f = "\<lparr> ts_tid = tid, ts_trace_id = replicate 16 0, ts_stack = [] \<rparr>"
  obtain e es where e: "ev_calls tid cs = e # es" "ev_tid e = tid" using Cons by (cases c) auto
  have "foldl (assemble_event off max_out) ?st (ev_calls tid cs)
      = foldl (assemble_event off max_out) (?st \<lparr> as_slots := [?f] \<rparr>) (ev_calls tid cs)"
    using assemble_fresh [of ?st off max_out e] e by simp
  then show ?thesis
    using assemble_forest [of tid "?st \<lparr> as_slots := [?f] \<rparr>" ?f cs max_out off] assms
    by (simp add: otlp_traces_assemble_def slot_of_def)
qed

theorem assemble_call_tree_witness:
  "map (\<lambda>s. (os_method_idx s, os_has_parent s, os_start s, os_end s))
     (otlp_traces_assemble (ev_calls 9 [Call 0 1 [Call 1 2 [] 3, Call 2 4 [] 5] 6]) 100 7 1000)
   = [(1, True, 102, 103), (2, True, 104, 105), (0, False, 101, 106)]"
  by (subst assemble_call_tree) (simp_all add: OTLP_TRACE_MAX_DEPTH_def mk_span_def split_beta Let_def)

text \<open>C31: span ids do not repeat.  Whatever the events and however the threads interleave, the spans
  of one assembly have pairwise distinct span ids, since the generator is a bijection of a counter
  with an odd increment.\<close>

theorem assemble_ids_distinct:
  assumes "3 * length ev < 2 ^ 64"
  shows "distinct (map os_span_id (otlp_traces_assemble ev off seed max_out))"
  using assemble_inv [OF assms, of seed off max_out]
  by (auto simp: asm_inv_def live_ids_def otlp_traces_assemble_def)

theorem assemble_ids_distinct_witness:
  "distinct (map os_span_id (otlp_traces_assemble (ev_calls 9 [Call 0 1 [Call 1 2 [] 3] 6]) 0 7 1000))"
  by (rule assemble_ids_distinct) simp

text \<open>C32: beyond 64 nested calls the times are attributed to the wrong call.  When a thread's stack is
  full, entering and leaving one more call finishes the span of the innermost recorded call, with the
  exit time of the call that was not recorded, although that call is still running.\<close>

theorem assemble_depth_overflow:
  assumes "slot_of tid (as_slots st) = Some s" "ts_stack s = p # ps" "length (ts_stack s) = OTLP_TRACE_MAX_DEPTH"
    and "length (as_out st) < max_out"
  shows "as_out (foldl (assemble_event off max_out) st (ev_call tid (Call i a [] b))) =
    as_out st @ [pending_span (b + off) p]"
  using assms by (simp add: assemble_event_def handle_enter_def handle_exit_def)

definition demo_full :: tidslot where
  "demo_full = \<lparr> ts_tid = 9, ts_trace_id = [], ts_stack = replicate 64
     \<lparr> pd_span_id = [1], pd_parent = [], pd_has_parent = False, pd_trace_id = [], pd_start = 1, pd_idx = 5 \<rparr> \<rparr>"

theorem assemble_depth_overflow_witness:
  "map (\<lambda>s. (os_method_idx s, os_end s)) (as_out (foldl (assemble_event 0 10)
     \<lparr> as_slots = [demo_full], as_rng = 0, as_out = [] \<rparr> (ev_call 9 (Call 77 2 [] 3)))) = [(5, 3)]"
  using assemble_depth_overflow [of 9 "\<lparr> as_slots = [demo_full], as_rng = 0, as_out = [] \<rparr>" demo_full
      "hd (ts_stack demo_full)" "tl (ts_stack demo_full)" 10 0 77 2 3]
  by (simp add: demo_full_def slot_of_def OTLP_TRACE_MAX_DEPTH_def pending_span_def numeral_eq_Suc)

text \<open>C33: W3C trace context is adopted.  A well-formed \<open>traceparent\<close> with nonzero ids gives a span of
  that trace whose parent is the sender's span, with a fresh id of its own.\<close>

theorem traceparent_adopted:
  assumes "length vv = 2" "length tid = 16" "length pid = 8" "length ff \<ge> 2"
    and "\<exists>b\<in>set tid. b \<noteq> 0" "\<exists>b\<in>set pid. b \<noteq> 0"
  shows "otlp_span_root_from_traceparent s (Some (vv @ ''-'' @ hex_of tid @ ''-'' @ hex_of pid @ ''-'' @ ff)) seed =
    (True, s \<lparr> gs_trace_id := tid, gs_parent_span_id := pid, gs_has_parent := True,
               gs_span_id := put_u64_be (snd (splitmix64 seed)) \<rparr>, fst (splitmix64 seed))"
proof -
  let ?t = "vv @ ''-'' @ hex_of tid @ ''-'' @ hex_of pid @ ''-'' @ ff"
  have "length ?t \<ge> 55" using assms by simp
  moreover have "?t ! 2 = CHR ''-''" "?t ! 35 = CHR ''-''" "?t ! 52 = CHR ''-''"
    using assms by (simp_all add: nth_append)
  moreover have "drop 3 ?t = hex_of tid @ ''-'' @ hex_of pid @ ''-'' @ ff"
    "drop 36 ?t = hex_of pid @ ''-'' @ ff"
    using assms by simp_all
  ultimately have "traceparent_ids ?t = Some (tid, pid)"
    using parse_hex_of [OF assms(5)] parse_hex_of [OF assms(6)] assms(2,3) by (simp add: traceparent_ids_def)
  then show ?thesis by (simp add: otlp_span_root_from_traceparent_def split_beta)
qed

definition demo_gspan :: otlp_generic_span where
  "demo_gspan = \<lparr> gs_trace_id = [], gs_span_id = [], gs_parent_span_id = [], gs_has_parent = False, gs_start = 0,
     gs_end = 0, gs_name = None, gs_kind = 0, gs_is_error = False, gs_attrs = [] \<rparr>"

theorem traceparent_adopted_witness:
  "fst (otlp_span_root_from_traceparent demo_gspan
     (Some (''00'' @ ''-'' @ hex_of (replicate 16 0xAB) @ ''-'' @ hex_of (replicate 8 1) @ ''-'' @ ''01'')) 5)"
  by (subst traceparent_adopted) simp_all

end
