(* ===== verification/Otlp_Hist.thy ===== *)
theory Otlp_Hist
  imports Prelude
begin

text \<open>
  Latency histograms: the kernel side that counts a value in its log2 slot
  (\<open>src/codegen_c/templates/histogram.template.c\<close>, \<open>hist_linear.template.c\<close>), and the folding of
  the 64 slots into the data points that are exported (\<open>otlp_metrics.h\<close>, \<open>otlp_metrics.c\<close>).

  A double that holds a natural number is modelled by that number; every operation that can leave
  the 53-bit significand is followed by \<open>rnd53\<close>, rounding to nearest, ties to even.
\<close>

subsection \<open>Doubles that hold naturals\<close>

fun ilog2 :: "nat \<Rightarrow> nat" where
  "ilog2 n = (if n < 2 then 0 else Suc (ilog2 (n div 2)))"

declare ilog2.simps [simp del]

definition rnd53 :: "nat \<Rightarrow> nat" where
  "rnd53 n =
     (if n < 2 ^ 53 then n
      else let k = ilog2 n - 52; q = n div 2 ^ k; r = n mod 2 ^ k; half = 2 ^ (k - 1) in
        (if r > half \<or> r = half \<and> odd q then q + 1 else q) * 2 ^ k)"

text \<open>The IEEE 754 bit pattern of a natural with at most 53 significant bits.\<close>

definition double_bits :: "nat \<Rightarrow> u64" where
  "double_bits n =
     (if n = 0 then 0
      else let e = ilog2 n in of_nat ((1023 + e) * 2 ^ 52 + (n * 2 ^ 52 div 2 ^ e - 2 ^ 52)))"

lemma ilog2_bounds: "0 < n \<Longrightarrow> 2 ^ ilog2 n \<le> n \<and> n < 2 ^ Suc (ilog2 n)"
proof (induction n rule: ilog2.induct)
  case (1 n)
  show ?case
  proof (cases "n < 2")
    case True
    then show ?thesis using 1(2) by (subst (1 2) ilog2.simps) simp
  next
    case False
    have "0 < n div 2" using False by simp
    then have "2 ^ ilog2 (n div 2) \<le> n div 2 \<and> n div 2 < 2 ^ Suc (ilog2 (n div 2))" using 1(1) False by blast
    then show ?thesis using False by (subst (1 2) ilog2.simps) auto
  qed
qed

lemma ilog2_eqI: "2 ^ e \<le> n \<Longrightarrow> n < 2 ^ Suc e \<Longrightarrow> ilog2 n = e"
proof -
  assume a: "2 ^ e \<le> n" "n < 2 ^ Suc e"
  then have "0 < n" using zero_less_power [of "2 :: nat" e] by linarith
  then have "2 ^ ilog2 n \<le> n" "n < 2 ^ Suc (ilog2 n)" using ilog2_bounds by blast+
  then have "2 ^ ilog2 n < (2 :: nat) ^ Suc e" "2 ^ e < (2 :: nat) ^ Suc (ilog2 n)" using a by linarith+
  then have "ilog2 n < Suc e" "e < Suc (ilog2 n)" by (simp_all only: power_strict_increasing_iff [of 2] one_less_numeral_iff semiring_norm)
  then show ?thesis by simp
qed

lemma rnd53_exact [simp]: "n < 2 ^ 53 \<Longrightarrow> rnd53 n = n"
  by (simp add: rnd53_def)

lemma rnd53_large: "2 ^ 53 \<le> n \<Longrightarrow> 2 ^ 53 \<le> rnd53 n"
proof -
  assume n: "2 ^ 53 \<le> n"
  let ?k = "ilog2 n - 52"
  have b: "2 ^ ilog2 n \<le> n \<and> n < 2 ^ Suc (ilog2 n)"
    using n by (intro ilog2_bounds) (rule less_le_trans [OF _ n], simp)
  then have "(2 :: nat) ^ 53 < 2 ^ Suc (ilog2 n)" using n by linarith
  then have e: "53 \<le> ilog2 n" by (simp only: power_strict_increasing_iff [of 2] one_less_numeral_iff semiring_norm)
  then have s: "ilog2 n = 52 + ?k" by simp
  have "(2 :: nat) ^ ilog2 n = 2 ^ 52 * 2 ^ ?k" by (subst s) (simp only: power_add)
  then have "2 ^ 52 * 2 ^ ?k \<le> n" using b by simp
  then have "2 ^ 52 \<le> n div 2 ^ ?k" by (subst less_eq_div_iff_mult_less_eq) simp_all
  then have "2 ^ 52 * 2 ^ ?k \<le> (n div 2 ^ ?k) * 2 ^ ?k" by (rule mult_right_mono) simp
  moreover have "(2 :: nat) ^ 53 \<le> 2 ^ 52 * 2 ^ ?k"
  proof -
    have "(2 :: nat) ^ 53 \<le> 2 ^ (52 + ?k)" using e by (intro power_increasing) simp_all
    then show ?thesis by (simp only: power_add)
  qed
  ultimately have "2 ^ 53 \<le> (n div 2 ^ ?k) * 2 ^ ?k" by (rule le_trans [rotated])
  also have "\<dots> \<le> rnd53 n" using n by (simp only: rnd53_def Let_def not_less [symmetric] if_False) simp
  finally show ?thesis .
qed

subsection \<open>The kernel histogram\<close>

definition hist_step :: "nat \<Rightarrow> int \<times> int \<Rightarrow> int \<times> int" where
  "hist_step k vr = (let (v, r) = vr in if v \<ge> 2 ^ k then (v div 2 ^ k, r + int k) else (v, r))"

definition spnl_hist_log2 :: "int \<Rightarrow> int" where
  "spnl_hist_log2 v =
     (if v \<le> 1 then 0
      else let r = snd (fold hist_step [32, 16, 8, 4, 2, 1] (v, 0)) in if r > 63 then 63 else r)"

text \<open>The array map \<open>bpf_hist\<close> is the list of its 64 counters.\<close>

definition HISTOGRAM_SLOTS :: nat where "HISTOGRAM_SLOTS = 64"

definition spnl_hist_observe :: "int \<Rightarrow> u64 list \<Rightarrow> u64 list" where
  "spnl_hist_observe v h =
     (let slot = of_int (spnl_hist_log2 v) :: u32 in
      if slot \<ge> 64 then h else h[unat slot := h ! unat slot + 1])"

definition spnl_hist_observe_linear :: "int \<Rightarrow> u64 list \<Rightarrow> u64 list" where
  "spnl_hist_observe_linear slot_arg h =
     (if slot_arg < 0 then h
      else let s0 = of_int slot_arg :: u32; slot = (if s0 \<ge> 256 then 255 else s0)
           in h[unat slot := h ! unat slot + 1])"

text \<open>The slot of a value: its binary logarithm, 0 for everything up to 1.\<close>

definition log2_slot :: "int \<Rightarrow> nat" where
  "log2_slot v = (if v \<le> 1 then 0 else ilog2 (nat v))"

lemma hist_step_inv:
  assumes "1 \<le> v" "v < 2 ^ (k + k)"
  shows "1 \<le> fst (hist_step k (v, r)) \<and> fst (hist_step k (v, r)) < 2 ^ k
    \<and> int (ilog2 (nat (fst (hist_step k (v, r))))) + snd (hist_step k (v, r)) = int (ilog2 (nat v)) + r"
proof (cases "v \<ge> 2 ^ k")
  case True
  let ?q = "v div 2 ^ k"
  have q1: "1 \<le> ?q" using True by (simp add: pos_imp_zdiv_pos_iff int_one_le_iff_zero_less)
  have q2: "?q < 2 ^ k"
  proof (rule ccontr)
    assume "\<not> ?q < 2 ^ k"
    then have "2 ^ k * 2 ^ k \<le> ?q * 2 ^ k" by (intro mult_right_mono) simp_all
    also have "\<dots> \<le> v"
    proof -
      have "0 \<le> v mod 2 ^ k" by simp
      then show ?thesis using div_mult_mod_eq [of v "2 ^ k"] by linarith
    qed
    finally show False using assms(2) by (simp add: power_add)
  qed
  let ?e = "ilog2 (nat ?q)"
  have "0 < nat ?q" using q1 by simp
  then have b: "2 ^ ?e \<le> nat ?q" "nat ?q < 2 ^ Suc ?e" using ilog2_bounds by blast+
  have nq: "nat ?q = nat v div 2 ^ k" using assms(1) by (simp add: nat_div_distrib nat_power_eq)
  have "2 ^ (?e + k) \<le> nat v"
    using b(1) unfolding nq by (simp add: power_add less_eq_div_iff_mult_less_eq)
  moreover have "nat v < 2 ^ Suc (?e + k)"
    using b(2) unfolding nq by (simp add: power_add div_less_iff_less_mult algebra_simps)
  ultimately have "ilog2 (nat v) = ?e + k" by (rule ilog2_eqI)
  then show ?thesis using True q1 q2 by (simp add: hist_step_def)
qed (use assms in \<open>auto simp: hist_step_def\<close>)

lemma hist_log2_slot: "v < 2 ^ 64 \<Longrightarrow> spnl_hist_log2 v = int (log2_slot v)"
proof (cases "v \<le> 1")
  case False
  assume v: "v < 2 ^ 64"
  define s1 where "s1 = hist_step 32 (v, 0)"
  define s2 where "s2 = hist_step 16 s1"
  define s3 where "s3 = hist_step 8 s2"
  define s4 where "s4 = hist_step 4 s3"
  define s5 where "s5 = hist_step 2 s4"
  define s6 where "s6 = hist_step 1 s5"
  let ?I = "\<lambda>s k. 1 \<le> fst s \<and> fst s < 2 ^ k \<and> int (ilog2 (nat (fst s))) + snd s = int (ilog2 (nat v))"
  have st: "?I (hist_step k s) k" if "?I s (k + k)" for s k
    using that hist_step_inv [of "fst s" k "snd s"] by simp
  have i1: "?I s1 32" unfolding s1_def by (rule st) (use False v in simp)
  have i2: "?I s2 16" unfolding s2_def by (rule st) (use i1 in simp)
  have i3: "?I s3 8" unfolding s3_def by (rule st) (use i2 in simp)
  have i4: "?I s4 4" unfolding s4_def by (rule st) (use i3 in simp)
  have i5: "?I s5 2" unfolding s5_def by (rule st) (use i4 in simp)
  have i6: "?I s6 1" unfolding s6_def by (rule st) (use i5 in simp)
  then have "fst s6 = 1" by simp
  then have r: "snd s6 = int (ilog2 (nat v))" using i6 by (simp add: ilog2.simps)
  have "0 < nat v" using False by simp
  then have "2 ^ ilog2 (nat v) \<le> nat v" using ilog2_bounds by blast
  moreover have "nat v < 2 ^ 64" using v by simp
  ultimately have "(2 :: nat) ^ ilog2 (nat v) < 2 ^ 64" by linarith
  then have "ilog2 (nat v) < 64" by (simp only: power_strict_increasing_iff [of 2] one_less_numeral_iff semiring_norm)
  then show ?thesis using False r
    by (simp add: spnl_hist_log2_def log2_slot_def s1_def s2_def s3_def s4_def s5_def s6_def)
qed (simp add: spnl_hist_log2_def log2_slot_def)

lemma log2_slot_less: "v < 2 ^ n \<Longrightarrow> 0 < n \<Longrightarrow> log2_slot v < n"
proof (cases "v \<le> 1")
  case False
  assume "v < 2 ^ n"
  then have "int (nat v) < int (2 ^ n)" using False by simp
  then have "nat v < 2 ^ n" by (simp only: of_nat_less_iff)
  moreover have "2 ^ ilog2 (nat v) \<le> nat v" using False ilog2_bounds [of "nat v"] by simp
  ultimately have "(2 :: nat) ^ ilog2 (nat v) < 2 ^ n" by linarith
  then show ?thesis using False by (simp add: log2_slot_def)
qed (simp add: log2_slot_def)

lemma log2_slot_range: "2 \<le> v \<Longrightarrow> 2 ^ log2_slot v \<le> v \<and> v < 2 ^ Suc (log2_slot v)"
proof -
  assume v: "2 \<le> v"
  then have b: "2 ^ ilog2 (nat v) \<le> nat v" "nat v < 2 ^ Suc (ilog2 (nat v))" using ilog2_bounds [of "nat v"] by simp_all
  have "int (2 ^ ilog2 (nat v)) \<le> int (nat v)" using b(1) by (simp only: of_nat_le_iff)
  moreover have "int (nat v) < int (2 ^ Suc (ilog2 (nat v)))" using b(2) by (simp only: of_nat_less_iff)
  ultimately show ?thesis using v by (simp add: log2_slot_def)
qed

lemma log2_slot_max [simp]: "log2_slot (max 1 v) = log2_slot v"
  by (simp add: log2_slot_def max_def)

lemma log2_slot_range_max: "2 ^ log2_slot v \<le> max 1 v \<and> max 1 v < 2 ^ Suc (log2_slot v)"
  using log2_slot_range [of v] by (cases "2 \<le> v") (auto simp: log2_slot_def)

lemma observe_slot:
  assumes "v < 2 ^ 64"
  shows "spnl_hist_observe v h = h[log2_slot v := h ! log2_slot v + 1]"
proof -
  have l: "log2_slot v < 64" using log2_slot_less [OF assms] by simp
  then have u: "unat (of_int (spnl_hist_log2 v) :: u32) = log2_slot v"
    using hist_log2_slot [OF assms] by (simp add: unat_of_nat)
  then have "\<not> (of_int (spnl_hist_log2 v) :: u32) \<ge> 64" using l by (simp add: word_le_nat_alt)
  then show ?thesis using u by (simp add: spnl_hist_observe_def Let_def)
qed

text \<open>The histogram of a list of observations.\<close>

definition slot_count :: "int list \<Rightarrow> nat \<Rightarrow> nat" where
  "slot_count vs s = length (filter (\<lambda>v. log2_slot v = s) vs)"

lemma observe_all_slots:
  assumes "\<And>v. v \<in> set vs \<Longrightarrow> v < 2 ^ 64"
  shows "fold spnl_hist_observe vs (replicate HISTOGRAM_SLOTS 0) =
    map (\<lambda>s. of_nat (slot_count vs s)) [0..<HISTOGRAM_SLOTS]"
  using assms
proof (induction vs rule: rev_induct)
  case Nil
  then show ?case by (simp add: slot_count_def map_replicate_const)
next
  case (snoc v vs)
  have l: "log2_slot v < 64" using log2_slot_less [of v 64] snoc.prems by simp
  have "fold spnl_hist_observe (vs @ [v]) (replicate HISTOGRAM_SLOTS 0) =
      (map (\<lambda>s. of_nat (slot_count vs s)) [0..<HISTOGRAM_SLOTS])[log2_slot v := of_nat (slot_count vs (log2_slot v)) + 1]"
    using snoc l by (simp add: observe_slot HISTOGRAM_SLOTS_def del: upt_Suc)
  also have "\<dots> = map (\<lambda>s. of_nat (slot_count (vs @ [v]) s)) [0..<HISTOGRAM_SLOTS]"
    using l by (intro nth_equalityI) (auto simp: nth_list_update slot_count_def HISTOGRAM_SLOTS_def)
  finally show ?case .
qed

subsection \<open>Folding slots into explicit buckets\<close>

definition OTLP_HIST_SLOTS :: nat where "OTLP_HIST_SLOTS = 64"

definition otlp_log2_ns_bounds :: "nat list" where
  "otlp_log2_ns_bounds =
     [1, 3, 7, 15, 31, 63, 127, 255, 511, 1023, 2047, 4095, 8191, 16383, 32767, 65535, 131071, 262143, 524287,
      1048575, 2097151, 4194303, 8388607, 16777215, 33554431, 67108863, 134217727, 536870911, 2147483647,
      8589934591, 34359738367]"

definition OTLP_LOG2_NBOUNDS :: nat where "OTLP_LOG2_NBOUNDS = 31"
definition OTLP_LOG2_NBUCKETS :: nat where "OTLP_LOG2_NBUCKETS = OTLP_LOG2_NBOUNDS + 1"

fun first_ge :: "nat list \<Rightarrow> nat \<Rightarrow> nat" where
  "first_ge [] edge = 0"
| "first_ge (b # bs) edge = (if b \<ge> edge then 0 else Suc (first_ge bs edge))"

definition slot_midpoint :: "nat \<Rightarrow> nat" where
  "slot_midpoint s = (if s = 0 then 1 else 3 * 2 ^ (s - 1))"

definition slot_edge :: "nat \<Rightarrow> nat" where
  "slot_edge s = rnd53 (2 ^ s * 2 - 1)"

definition fold_slot :: "u64 list \<Rightarrow> nat \<Rightarrow> u64 list \<times> u64 \<times> nat \<Rightarrow> u64 list \<times> u64 \<times> nat" where
  "fold_slot slots s acc =
     (let (out, total, sum) = acc; c = slots ! s in
      if c = 0 then acc
      else let j = first_ge otlp_log2_ns_bounds (slot_edge s) in
        (out[j := out ! j + c], total + c, rnd53 (sum + rnd53 (rnd53 (unat c) * slot_midpoint s))))"

definition otlp_log2_fold :: "u64 list \<Rightarrow> u64 list \<times> u64 \<times> nat" where
  "otlp_log2_fold slots = fold (fold_slot slots) [0..<OTLP_HIST_SLOTS] (replicate OTLP_LOG2_NBUCKETS 0, 0, 0)"

text \<open>Bucket \<open>j\<close> of an explicit-bucket histogram holds the values above bound \<open>j - 1\<close> and up to
  bound \<open>j\<close>; the last one has no upper bound.\<close>

definition in_bucket :: "nat list \<Rightarrow> nat \<Rightarrow> int \<Rightarrow> bool" where
  "in_bucket bounds j v \<longleftrightarrow>
     (j = 0 \<or> int (bounds ! (j - 1)) < v) \<and> (j = length bounds \<or> v \<le> int (bounds ! j))"

lemma first_ge_le: "first_ge bs x \<le> length bs"
  by (induction bs) auto

lemma first_ge_cong: "(\<And>b. b \<in> set bs \<Longrightarrow> (b \<ge> x) = (b \<ge> y)) \<Longrightarrow> first_ge bs x = first_ge bs y"
  by (induction bs) auto

lemma first_ge_bucket:
  assumes "sorted bs" "j \<le> length bs"
  shows "first_ge bs x = j \<longleftrightarrow> (j = 0 \<or> bs ! (j - 1) < x) \<and> (j = length bs \<or> x \<le> bs ! j)"
  using assms
proof (induction bs arbitrary: j)
  case (Cons b bs)
  show ?case
  proof (cases j)
    case 0
    then show ?thesis by auto
  next
    case (Suc k)
    have ih: "first_ge bs x = k \<longleftrightarrow> (k = 0 \<or> bs ! (k - 1) < x) \<and> (k = length bs \<or> x \<le> bs ! k)"
      using Cons.IH [of k] Cons.prems Suc by simp
    show ?thesis
    proof (cases k)
      case 0
      then show ?thesis using ih Suc by auto
    next
      case (Suc n)
      then have "b \<le> bs ! n" using Cons.prems \<open>j = Suc k\<close> by simp
      then show ?thesis using ih Suc \<open>j = Suc k\<close> by auto
    qed
  qed
qed simp

lemma bounds_sorted: "sorted otlp_log2_ns_bounds"
  by (simp add: otlp_log2_ns_bounds_def)

lemma length_bounds [simp]: "length otlp_log2_ns_bounds = OTLP_LOG2_NBOUNDS"
  by (simp add: otlp_log2_ns_bounds_def OTLP_LOG2_NBOUNDS_def)

lemma bounds_shape: "b \<in> set otlp_log2_ns_bounds \<Longrightarrow> \<exists>m. 0 < m \<and> m \<le> 35 \<and> b = 2 ^ m - 1"
proof -
  have e: "otlp_log2_ns_bounds = map (\<lambda>m. 2 ^ m - 1) ([1..<28] @ [29, 31, 33, 35])"
    unfolding otlp_log2_ns_bounds_def by (simp add: upt_rec)
  assume "b \<in> set otlp_log2_ns_bounds"
  from this [unfolded e set_map] obtain m where "b = 2 ^ m - 1" "m \<in> set ([1..<28] @ [29, 31, 33, 35])" by (rule imageE)
  then show ?thesis by (intro exI [of _ m]) auto
qed

text \<open>Every bound is one less than a power of two, so a slot lies wholly inside one bucket; the
  rounding of the upper edge of the slots from 53 on does not move it across a bound.\<close>

lemma bound_edge:
  assumes "b \<in> set otlp_log2_ns_bounds"
  shows "b \<ge> slot_edge s \<longleftrightarrow> b \<ge> 2 ^ Suc s - 1"
proof (cases "2 ^ Suc s - 1 < (2 :: nat) ^ 53")
  case True
  then show ?thesis by (simp add: slot_edge_def mult.commute)
next
  case False
  obtain m where m: "m \<le> 35" "b = 2 ^ m - 1" using bounds_shape [OF assms] by blast
  have "(2 :: nat) ^ m \<le> 2 ^ 35" using m(1) by (intro power_increasing) simp_all
  then have b: "b < 2 ^ 53" using m(2) by simp
  have "2 ^ 53 \<le> rnd53 (2 ^ Suc s - 1)" by (rule rnd53_large) (use False in linarith)
  then have "2 ^ 53 \<le> slot_edge s" by (simp add: slot_edge_def mult.commute)
  then show ?thesis using b False by linarith
qed

lemma bound_slot:
  assumes "b \<in> set otlp_log2_ns_bounds" "1 \<le> v"
  shows "int b \<ge> v \<longleftrightarrow> b \<ge> 2 ^ Suc (log2_slot v) - 1"
proof (cases "v = 1")
  case True
  then show ?thesis using bounds_shape [OF assms(1)] by (auto simp: log2_slot_def le_diff_conv2)
next
  case False
  let ?s = "log2_slot v"
  have r: "2 ^ ?s \<le> v" "v < 2 ^ Suc ?s" using log2_slot_range [of v] assms(2) False by simp_all
  obtain m where m: "b = 2 ^ m - 1" using bounds_shape [OF assms(1)] by blast
  have ib: "int b = 2 ^ m - 1" by (simp add: m of_nat_diff)
  have "int b \<ge> v \<longleftrightarrow> ?s < m"
  proof
    assume "int b \<ge> v"
    then have "(2 :: int) ^ ?s < 2 ^ m" using r ib by linarith
    then show "?s < m" by simp
  next
    assume "?s < m"
    then have "(2 :: int) ^ Suc ?s \<le> 2 ^ m" by (intro power_increasing) simp_all
    then show "int b \<ge> v" using r ib by linarith
  qed
  moreover have "b \<ge> 2 ^ Suc ?s - 1 \<longleftrightarrow> (2 :: nat) ^ Suc ?s \<le> 2 ^ m" using m by (auto simp: le_diff_conv)
  moreover have "(2 :: nat) ^ Suc ?s \<le> 2 ^ m \<longleftrightarrow> Suc ?s \<le> m" by (rule power_increasing_iff) simp
  ultimately show ?thesis by (simp add: Suc_le_eq)
qed

lemma clamp_less: "1 \<le> b \<Longrightarrow> (b < nat (max 1 v)) = (int b < v)" "1 \<le> b \<Longrightarrow> (nat (max 1 v) \<le> b) = (v \<le> int b)"
  by (auto simp: max_def)

lemma slot_bucket:
  assumes "j \<le> OTLP_LOG2_NBOUNDS"
  shows "first_ge otlp_log2_ns_bounds (slot_edge (log2_slot v)) = j \<longleftrightarrow> in_bucket otlp_log2_ns_bounds j v"
proof -
  let ?B = otlp_log2_ns_bounds
  let ?v = "nat (max 1 v)"
  have sl: "log2_slot (int ?v) = log2_slot v" by (auto simp: log2_slot_def max_def)
  have "first_ge ?B (slot_edge (log2_slot v)) = first_ge ?B ?v"
  proof (rule first_ge_cong)
    fix b
    assume b: "b \<in> set ?B"
    have "(b \<ge> ?v) = (int b \<ge> int ?v)" by (simp only: of_nat_le_iff)
    also have "\<dots> = (b \<ge> 2 ^ Suc (log2_slot v) - 1)" using bound_slot [OF b, of "int ?v"] sl by simp
    finally show "(b \<ge> slot_edge (log2_slot v)) = (b \<ge> ?v)" using bound_edge [OF b] by simp
  qed
  moreover have "first_ge ?B ?v = j \<longleftrightarrow> (j = 0 \<or> ?B ! (j - 1) < ?v) \<and> (j = length ?B \<or> ?v \<le> ?B ! j)"
    by (rule first_ge_bucket) (use assms bounds_sorted in simp_all)
  moreover have p: "1 \<le> ?B ! i" if "i < length ?B" for i
  proof -
    have "?B ! i \<in> set ?B" using that by simp
    then obtain m where "0 < m" "?B ! i = 2 ^ m - 1" using bounds_shape by blast
    moreover from this(1) have "(2 :: nat) ^ 1 \<le> 2 ^ m" by (intro power_increasing) simp_all
    ultimately show ?thesis by simp
  qed
  moreover have "?B ! (j - 1) < ?v \<longleftrightarrow> int (?B ! (j - 1)) < v" if "j \<noteq> 0"
    using clamp_less(1) [OF p [of "j - 1"]] that assms by simp
  moreover have "?v \<le> ?B ! j \<longleftrightarrow> v \<le> int (?B ! j)" if "j \<noteq> length ?B"
    using clamp_less(2) [OF p [of j]] that assms by simp
  ultimately show ?thesis by (auto simp: in_bucket_def)
qed

subsection \<open>What the fold computes\<close>

definition slots_of :: "int list \<Rightarrow> u64 list" where
  "slots_of vs = map (\<lambda>s. of_nat (slot_count vs s)) [0..<OTLP_HIST_SLOTS]"

definition bucket_count :: "int list \<Rightarrow> nat \<Rightarrow> nat \<Rightarrow> nat" where
  "bucket_count vs n j =
     length (filter (\<lambda>v. log2_slot v < n \<and> first_ge otlp_log2_ns_bounds (slot_edge (log2_slot v)) = j) vs)"

lemma length_filter_split: "(\<And>v. P v = (Q v \<or> R v)) \<Longrightarrow> (\<And>v. \<not> (Q v \<and> R v)) \<Longrightarrow>
    length (filter P vs) = length (filter Q vs) + length (filter R vs)"
  by (induction vs) auto

lemma bucket_count_Suc:
  "bucket_count vs (Suc n) j = bucket_count vs n j
     + (if first_ge otlp_log2_ns_bounds (slot_edge n) = j then slot_count vs n else 0)"
proof -
  let ?R = "\<lambda>v. log2_slot v = n \<and> first_ge otlp_log2_ns_bounds (slot_edge n) = j"
  have "bucket_count vs (Suc n) j = bucket_count vs n j + length (filter ?R vs)"
    unfolding bucket_count_def by (rule length_filter_split) (auto simp: less_Suc_eq)
  moreover have "length (filter ?R vs) = (if first_ge otlp_log2_ns_bounds (slot_edge n) = j then slot_count vs n else 0)"
    by (auto simp: slot_count_def)
  ultimately show ?thesis by simp
qed

lemma fold_slots_counts:
  assumes "n \<le> OTLP_HIST_SLOTS"
    and "fold (fold_slot (slots_of vs)) [0..<n] (replicate OTLP_LOG2_NBUCKETS 0, 0, 0) = (out, tot, sm)"
  shows "length out = OTLP_LOG2_NBUCKETS
    \<and> (\<forall>j < OTLP_LOG2_NBUCKETS. out ! j = of_nat (bucket_count vs n j))
    \<and> tot = of_nat (length (filter (\<lambda>v. log2_slot v < n) vs))"
  using assms
proof (induction n arbitrary: out tot sm)
  case 0
  then show ?case by (auto simp: bucket_count_def)
next
  case (Suc n)
  obtain o' t' s' where f: "fold (fold_slot (slots_of vs)) [0..<n] (replicate OTLP_LOG2_NBUCKETS 0, 0, 0) = (o', t', s')"
    by (cases "fold (fold_slot (slots_of vs)) [0..<n] (replicate OTLP_LOG2_NBUCKETS 0, 0, 0)") auto
  have ih: "length o' = OTLP_LOG2_NBUCKETS" "\<forall>j < OTLP_LOG2_NBUCKETS. o' ! j = of_nat (bucket_count vs n j)"
    "t' = of_nat (length (filter (\<lambda>v. log2_slot v < n) vs))"
    using Suc.IH [OF _ f] Suc.prems(1) by simp_all
  let ?c = "of_nat (slot_count vs n) :: u64"
  let ?j = "first_ge otlp_log2_ns_bounds (slot_edge n)"
  have c: "slots_of vs ! n = ?c" using Suc.prems(1) by (simp add: slots_of_def)
  have j: "?j < OTLP_LOG2_NBUCKETS" using first_ge_le [of otlp_log2_ns_bounds] by (simp add: OTLP_LOG2_NBUCKETS_def less_Suc_eq_le)
  have step: "fold_slot (slots_of vs) n (o', t', s') = (out, tot, sm)" using Suc.prems(2) f by simp
  then have o: "out = o'[?j := o' ! ?j + ?c] \<and> tot = t' + ?c"
    using c by (cases "?c = 0") (auto simp: fold_slot_def Let_def)
  have "length (filter (\<lambda>v. log2_slot v < Suc n) vs) = length (filter (\<lambda>v. log2_slot v < n) vs) + slot_count vs n"
    unfolding slot_count_def by (rule length_filter_split) auto
  then show ?case using o ih j by (auto simp: nth_list_update bucket_count_Suc)
qed

lemma log2_fold_counts:
  assumes "otlp_log2_fold (slots_of vs) = (bc, tot, sm)" "\<And>v. v \<in> set vs \<Longrightarrow> v < 2 ^ 64"
  shows "length bc = OTLP_LOG2_NBUCKETS" "tot = of_nat (length vs)"
    "j < OTLP_LOG2_NBUCKETS \<Longrightarrow> bc ! j = of_nat (length (filter (in_bucket otlp_log2_ns_bounds j) vs))"
proof -
  have f: "length bc = OTLP_LOG2_NBUCKETS \<and> (\<forall>j < OTLP_LOG2_NBUCKETS. bc ! j = of_nat (bucket_count vs OTLP_HIST_SLOTS j))
    \<and> tot = of_nat (length (filter (\<lambda>v. log2_slot v < OTLP_HIST_SLOTS) vs))"
    using fold_slots_counts [of OTLP_HIST_SLOTS vs] assms(1) by (simp add: otlp_log2_fold_def)
  have s: "log2_slot v < OTLP_HIST_SLOTS" if "v \<in> set vs" for v
    using log2_slot_less [of v 64] assms(2) [OF that] by (simp add: OTLP_HIST_SLOTS_def)
  show "length bc = OTLP_LOG2_NBUCKETS" using f by blast
  show "tot = of_nat (length vs)" using f s by (simp add: filter_True)
  assume j: "j < OTLP_LOG2_NBUCKETS"
  have "filter (\<lambda>v. log2_slot v < OTLP_HIST_SLOTS \<and> first_ge otlp_log2_ns_bounds (slot_edge (log2_slot v)) = j) vs
      = filter (in_bucket otlp_log2_ns_bounds j) vs"
    using s slot_bucket j by (intro filter_cong) (auto simp: OTLP_LOG2_NBUCKETS_def less_Suc_eq_le)
  then show "bc ! j = of_nat (length (filter (in_bucket otlp_log2_ns_bounds j) vs))"
    using f j by (simp add: bucket_count_def)
qed

definition mid_sum :: "nat \<Rightarrow> int list \<Rightarrow> nat" where
  "mid_sum n vs = sum_list (map (\<lambda>v. if log2_slot v < n then slot_midpoint (log2_slot v) else 0) vs)"

lemma mid_sum_Suc: "mid_sum (Suc n) vs = mid_sum n vs + slot_count vs n * slot_midpoint n"
  by (induction vs) (auto simp: mid_sum_def slot_count_def less_Suc_eq)

lemma mid_sum_mono: "n \<le> m \<Longrightarrow> mid_sum n vs \<le> mid_sum m vs"
  unfolding mid_sum_def by (rule sum_list_mono) auto

lemma slot_midpoint_pos: "0 < slot_midpoint s"
  by (simp add: slot_midpoint_def)

text \<open>One accumulation step of the sum is exact while the sum stays below \<open>2 ^ 53\<close>.\<close>

lemma sum_step_exact:
  assumes "mid_sum (Suc n) vs < 2 ^ 53"
  shows "rnd53 (mid_sum n vs + rnd53 (rnd53 (slot_count vs n) * slot_midpoint n)) = mid_sum (Suc n) vs"
proof -
  have m: "mid_sum n vs + slot_count vs n * slot_midpoint n < 2 ^ 53" using assms by (simp only: mid_sum_Suc)
  moreover have "slot_count vs n * 1 \<le> slot_count vs n * slot_midpoint n"
    using slot_midpoint_pos [of n] by (intro mult_le_mono) simp_all
  ultimately have "slot_count vs n < 2 ^ 53" "slot_count vs n * slot_midpoint n < 2 ^ 53" by linarith+
  then show ?thesis using m by (simp add: mid_sum_Suc)
qed

lemma slot_count_u64:
  assumes "length vs < 2 ^ 64"
  shows "unat (of_nat (slot_count vs n) :: u64) = slot_count vs n"
proof -
  have "slot_count vs n \<le> length vs" by (simp add: slot_count_def)
  then have "slot_count vs n < 2 ^ 64" using assms by linarith
  then show ?thesis by (simp add: unat_of_nat)
qed

lemma fold_slots_sum:
  assumes "n \<le> OTLP_HIST_SLOTS" "mid_sum n vs < 2 ^ 53" "length vs < 2 ^ 64" "snd (snd acc) = 0"
  shows "snd (snd (fold (fold_slot (slots_of vs)) [0..<n] acc)) = mid_sum n vs"
  using assms(1,2)
proof (induction n)
  case 0
  then show ?case using assms(4) by (simp add: mid_sum_def)
next
  case (Suc n)
  obtain o' t' s' where f: "fold (fold_slot (slots_of vs)) [0..<n] acc = (o', t', s')"
    by (cases "fold (fold_slot (slots_of vs)) [0..<n] acc") auto
  have "mid_sum n vs < 2 ^ 53" using Suc.prems(2) mid_sum_mono [of n "Suc n" vs] by simp
  then have s': "s' = mid_sum n vs" using Suc f by simp
  have c: "slots_of vs ! n = of_nat (slot_count vs n)" using Suc.prems(1) by (simp add: slots_of_def)
  have z: "(of_nat (slot_count vs n) :: u64) = 0 \<longleftrightarrow> slot_count vs n = 0"
    using slot_count_u64 [OF assms(3), of n] by auto
  have "snd (snd (fold_slot (slots_of vs) n (o', t', s'))) = mid_sum (Suc n) vs"
  proof (cases "slot_count vs n = 0")
    case True
    then show ?thesis using c s' by (simp add: fold_slot_def mid_sum_Suc)
  next
    case False
    then have "snd (snd (fold_slot (slots_of vs) n (o', t', s'))) =
        rnd53 (s' + rnd53 (rnd53 (slot_count vs n) * slot_midpoint n))"
      using c z slot_count_u64 [OF assms(3), of n] by (simp add: fold_slot_def Let_def)
    then show ?thesis unfolding s' using sum_step_exact [OF Suc.prems(2)] by simp
  qed
  then show ?case using f by simp
qed

lemma midpoint_bounds:
  assumes "1 \<le> v"
  shows "3 * v \<le> 4 * int (slot_midpoint (log2_slot v))" "2 * int (slot_midpoint (log2_slot v)) \<le> 3 * v"
proof -
  show "3 * v \<le> 4 * int (slot_midpoint (log2_slot v))" "2 * int (slot_midpoint (log2_slot v)) \<le> 3 * v"
  proof (atomize (full), cases "v = 1")
    case False
    then have r: "2 ^ log2_slot v \<le> v" "v < 2 ^ Suc (log2_slot v)" using log2_slot_range [of v] assms by simp_all
    then have "log2_slot v \<noteq> 0" using assms False by (cases "log2_slot v") auto
    then obtain k where k: "log2_slot v = Suc k" by (cases "log2_slot v") auto
    then show "3 * v \<le> 4 * int (slot_midpoint (log2_slot v)) \<and> 2 * int (slot_midpoint (log2_slot v)) \<le> 3 * v"
      using r by (simp add: slot_midpoint_def)
  qed (simp add: log2_slot_def slot_midpoint_def)
qed

lemma mid_sum_bounds:
  assumes "\<forall>v \<in> set vs. 1 \<le> v \<and> v < 2 ^ 64"
  shows "3 * sum_list vs \<le> 4 * int (mid_sum OTLP_HIST_SLOTS vs) \<and> 2 * int (mid_sum OTLP_HIST_SLOTS vs) \<le> 3 * sum_list vs"
  using assms
proof (induction vs)
  case (Cons v vs)
  then have "log2_slot v < OTLP_HIST_SLOTS" using log2_slot_less [of v 64] by (simp add: OTLP_HIST_SLOTS_def)
  then have "mid_sum OTLP_HIST_SLOTS (v # vs) = slot_midpoint (log2_slot v) + mid_sum OTLP_HIST_SLOTS vs"
    by (simp add: mid_sum_def)
  moreover have "1 \<le> v" using Cons.prems by simp
  ultimately show ?case using midpoint_bounds [of v] Cons by auto
qed (simp add: mid_sum_def)

lemma mid_sum_max: "mid_sum n (map (max 1) vs) = mid_sum n vs"
  unfolding mid_sum_def map_map comp_def log2_slot_max ..

subsection \<open>The exponential form\<close>

definition exp_slot :: "u64 list \<Rightarrow> nat \<Rightarrow> int \<times> int \<times> u64 \<times> nat \<Rightarrow> int \<times> int \<times> u64 \<times> nat" where
  "exp_slot buckets s acc =
     (let (first, last, total, sum) = acc; cnt = buckets ! s in
      if cnt = 0 then acc
      else (if first < 0 then int s else first, int s, total + cnt,
            rnd53 (sum + rnd53 (rnd53 (unat cnt) * slot_midpoint s))))"

definition exp_scan :: "u64 list \<Rightarrow> int \<times> int \<times> u64 \<times> nat" where
  "exp_scan buckets = fold (exp_slot buckets) [0..<OTLP_HIST_SLOTS] (-1, -1, 0, 0)"

text \<open>The positive buckets of the data point: an offset and the counts from the first to the last slot
  in use.\<close>

definition exp_positive :: "u64 list \<Rightarrow> (nat \<times> u64 list) option" where
  "exp_positive buckets =
     (let (first, last, total, sum) = exp_scan buckets in
      if first \<ge> 0 then Some (nat first, take (nat (last - first + 1)) (drop (nat first) buckets)) else None)"

definition exp_span :: "u64 list \<Rightarrow> nat \<Rightarrow> int \<Rightarrow> int \<Rightarrow> bool" where
  "exp_span b n f l \<longleftrightarrow> 0 \<le> f \<and> f \<le> l \<and> l < int n \<and> b ! nat f \<noteq> 0 \<and> b ! nat l \<noteq> 0
     \<and> (\<forall>i < n. int i < f \<or> l < int i \<longrightarrow> b ! i = 0)"

lemma exp_span_Suc:
  "exp_span b n f l \<Longrightarrow> b ! n = 0 \<Longrightarrow> exp_span b (Suc n) f l"
  "exp_span b n f l \<Longrightarrow> b ! n \<noteq> 0 \<Longrightarrow> exp_span b (Suc n) f (int n)"
  "\<forall>i < n. b ! i = 0 \<Longrightarrow> b ! n \<noteq> 0 \<Longrightarrow> exp_span b (Suc n) (int n) (int n)"
  unfolding exp_span_def by (auto simp: less_Suc_eq)

lemma exp_scan_inv:
  "fold (exp_slot b) [0..<n] (-1, -1, 0, 0) = (f, l, t, s) \<Longrightarrow>
   (\<forall>i < n. b ! i = 0) \<and> f = -1 \<and> l = -1 \<or> exp_span b n f l"
proof (induction n arbitrary: f l t s)
  case (Suc n)
  obtain f' l' t' s' where e: "fold (exp_slot b) [0..<n] (-1, -1, 0, 0) = (f', l', t', s')"
    by (cases "fold (exp_slot b) [0..<n] (-1, -1, 0, 0)") auto
  have "exp_slot b n (f', l', t', s') = (f, l, t, s)" using Suc.prems e by simp
  then have x: "if b ! n = 0 then f = f' \<and> l = l' else f = (if f' < 0 then int n else f') \<and> l = int n"
    by (auto simp: exp_slot_def Let_def split: if_splits)
  from Suc.IH [OF e] show ?case
  proof
    assume a: "(\<forall>i < n. b ! i = 0) \<and> f' = -1 \<and> l' = -1"
    show ?thesis using a x exp_span_Suc(3) [of n b] by (cases "b ! n = 0") (auto simp: less_Suc_eq)
  next
    assume a: "exp_span b n f' l'"
    then have "0 \<le> f'" by (simp add: exp_span_def)
    then show ?thesis using x exp_span_Suc(1,2) [OF a] by (cases "b ! n = 0") auto
  qed
qed simp

lemma exp_positive_range:
  assumes "length b = OTLP_HIST_SLOTS" "\<exists>i < OTLP_HIST_SLOTS. b ! i \<noteq> 0"
  shows "\<exists>f cs. exp_positive b = Some (f, cs) \<and> f + length cs \<le> OTLP_HIST_SLOTS
    \<and> (\<forall>i < length cs. cs ! i = b ! (f + i))
    \<and> (\<forall>i < OTLP_HIST_SLOTS. i < f \<or> f + length cs \<le> i \<longrightarrow> b ! i = 0)"
proof -
  obtain f l t s where e: "exp_scan b = (f, l, t, s)" by (cases "exp_scan b") auto
  have r: "0 \<le> f" "f \<le> l" "l < int OTLP_HIST_SLOTS" "b ! nat f \<noteq> 0" "b ! nat l \<noteq> 0"
    "\<forall>i < OTLP_HIST_SLOTS. int i < f \<or> l < int i \<longrightarrow> b ! i = 0"
    using exp_scan_inv [OF e [unfolded exp_scan_def]] assms(2) unfolding exp_span_def by blast+
  let ?cs = "take (nat (l - f + 1)) (drop (nat f) b)"
  have len: "length ?cs = nat (l - f + 1)" using r assms(1) by (simp add: OTLP_HIST_SLOTS_def)
  have "nat f \<le> length b" using r assms(1) by simp
  then have nth: "?cs ! i = b ! (nat f + i)" if "i < length ?cs" for i using that by simp
  have "exp_positive b = Some (nat f, ?cs)" using e r(1) by (simp add: exp_positive_def)
  moreover have "nat f + length ?cs \<le> OTLP_HIST_SLOTS" using len r by linarith
  moreover have "b ! i = 0" if "i < OTLP_HIST_SLOTS" "i < nat f \<or> nat f + length ?cs \<le> i" for i
  proof -
    have "int i < f \<or> l < int i" using that(2) r(1,2) unfolding len by linarith
    then show ?thesis using r(6) that(1) by blast
  qed
  ultimately show ?thesis using nth by (intro exI [of _ "nat f"] exI [of _ ?cs]) blast
qed

lemma kernel_slots:
  assumes "\<forall>v \<in> set vs. v < 2 ^ 63"
  shows "fold spnl_hist_observe vs (replicate HISTOGRAM_SLOTS 0) = slots_of vs"
proof -
  have "v < 2 ^ 64" if "v \<in> set vs" for v using assms that by fastforce
  then show ?thesis using observe_all_slots [of vs] by (simp add: slots_of_def HISTOGRAM_SLOTS_def OTLP_HIST_SLOTS_def)
qed

subsection \<open>Properties\<close>

text \<open>C35: kernel slots and exported buckets agree.  Whatever values the kernel helper counted, bucket
  \<open>j\<close> of the exported explicit-bucket histogram holds exactly the number of values above bound
  \<open>j - 1\<close> and up to bound \<open>j\<close>, and the count is the number of observations: no slot is ever split,
  and the double rounding of the upper edges changes nothing.\<close>

theorem kernel_hist_buckets:
  assumes "\<forall>v \<in> set vs. v < 2 ^ 63" "length vs < 2 ^ 64"
    and "h = fold spnl_hist_observe vs (replicate HISTOGRAM_SLOTS 0)" "otlp_log2_fold h = (bc, tot, sm)"
  shows "(\<forall>j < OTLP_LOG2_NBUCKETS. unat (bc ! j) = length (filter (in_bucket otlp_log2_ns_bounds j) vs))
    \<and> unat tot = length vs"
proof -
  have f: "otlp_log2_fold (slots_of vs) = (bc, tot, sm)" using assms(3,4) kernel_slots [OF assms(1)] by simp
  have b: "v < 2 ^ 64" if "v \<in> set vs" for v using assms(1) that by fastforce
  have "length (filter P vs) < 2 ^ 64" for P using assms(2) length_filter_le [of P vs] by linarith
  then show ?thesis using log2_fold_counts [OF f b] assms(2) by (simp add: unat_of_nat)
qed

theorem kernel_hist_buckets_witness:
  "\<exists>bc tot sm. otlp_log2_fold (fold spnl_hist_observe [0, 1, 700, 300000000] (replicate HISTOGRAM_SLOTS 0)) = (bc, tot, sm)
     \<and> unat (bc ! 27) = 1 \<and> unat tot = 4"
proof -
  let ?vs = "[0, 1, 700, 300000000] :: int list"
  obtain bc tot sm where f: "otlp_log2_fold (fold spnl_hist_observe ?vs (replicate HISTOGRAM_SLOTS 0)) = (bc, tot, sm)"
    by (cases "otlp_log2_fold (fold spnl_hist_observe ?vs (replicate HISTOGRAM_SLOTS 0))") auto
  have "unat (bc ! 27) = length (filter (in_bucket otlp_log2_ns_bounds 27) ?vs) \<and> unat tot = length ?vs"
    using kernel_hist_buckets [OF _ _ refl f] by (simp add: OTLP_LOG2_NBUCKETS_def OTLP_LOG2_NBOUNDS_def)
  then show ?thesis using f by (auto simp: in_bucket_def otlp_log2_ns_bounds_def)
qed

text \<open>C36: the sum is an approximation within fixed factors.  The kernel keeps no sum; the exported one
  takes 1.5 times the lower end of each slot (1 for slot 0).  A value of 0 or below was counted in slot
  0, as a 1.  For values below \<open>2^63\<close> whose sum, so counted, is below \<open>2^54 / 3\<close>, which keeps every
  partial sum exact in a double, the exported sum is between 3/4 and 3/2 of the true one.\<close>

theorem kernel_hist_sum:
  assumes "\<forall>v \<in> set vs. v < 2 ^ 63" "length vs < 2 ^ 64" "3 * sum_list (map (max 1) vs) < 2 ^ 54"
    and "h = fold spnl_hist_observe vs (replicate HISTOGRAM_SLOTS 0)" "otlp_log2_fold h = (bc, tot, sm)"
  shows "3 * sum_list (map (max 1) vs) \<le> 4 * int sm \<and> 2 * int sm \<le> 3 * sum_list (map (max 1) vs)"
proof -
  have f: "otlp_log2_fold (slots_of vs) = (bc, tot, sm)" using assms(1,4,5) kernel_slots [of vs] by simp
  have "\<forall>v \<in> set (map (max 1) vs). 1 \<le> v \<and> v < 2 ^ 64" using assms(1) by fastforce
  note b = mid_sum_bounds [OF this, unfolded mid_sum_max]
  have "int (mid_sum OTLP_HIST_SLOTS vs) < int (2 ^ 53)" using b assms(3) by simp
  then have "mid_sum OTLP_HIST_SLOTS vs < 2 ^ 53" by (simp only: of_nat_less_iff)
  then have "sm = mid_sum OTLP_HIST_SLOTS vs"
    using fold_slots_sum [of OTLP_HIST_SLOTS vs "(replicate OTLP_LOG2_NBUCKETS 0, 0, 0)"] f assms(2)
    by (simp add: otlp_log2_fold_def)
  then show ?thesis using b by simp
qed

theorem kernel_hist_sum_witness:
  "\<exists>bc tot sm. otlp_log2_fold (fold spnl_hist_observe [900, 40, 0, -5] (replicate HISTOGRAM_SLOTS 0)) = (bc, tot, sm)
     \<and> 2826 \<le> 4 * int sm \<and> 2 * int sm \<le> 2826"
proof -
  let ?h = "fold spnl_hist_observe [900, 40, 0, -5] (replicate HISTOGRAM_SLOTS 0)"
  obtain bc tot sm where f: "otlp_log2_fold ?h = (bc, tot, sm)" by (cases "otlp_log2_fold ?h") auto
  show ?thesis using kernel_hist_sum [OF _ _ _ refl f] f by auto
qed

text \<open>C37: the exponential form.  For any nonempty list of values below \<open>2^63\<close>, with every value below 1
  counted as a 1, the offset and counts cover all observed values, and bucket \<open>i\<close> counts the values
  from \<open>2 ^ (offset + i)\<close> inclusive to \<open>2 ^ (offset + i + 1)\<close> exclusive.
  The message definition asks for the opposite ends to be open and closed, so a latency that is an
  exact power of two is reported one bucket too high.\<close>

theorem exphist_buckets:
  assumes "vs \<noteq> []" "\<forall>v \<in> set vs. v < 2 ^ 63" "length vs < 2 ^ 64"
    and "h = fold spnl_hist_observe vs (replicate HISTOGRAM_SLOTS 0)"
  shows "\<exists>f cs. exp_positive h = Some (f, cs) \<and> (\<forall>v \<in> set vs. 2 ^ f \<le> max 1 v \<and> max 1 v < 2 ^ (f + length cs))
    \<and> (\<forall>i < length cs. unat (cs ! i) = length (filter (\<lambda>v. 2 ^ (f + i) \<le> max 1 v \<and> max 1 v < 2 ^ (f + i + 1)) vs))"
proof -
  have h: "h = slots_of vs" using assms(2,4) kernel_slots [of vs] by simp
  have hn: "h ! i = of_nat (slot_count vs i)" if "i < OTLP_HIST_SLOTS" for i using that h by (simp add: slots_of_def)
  have sl: "log2_slot v = i \<longleftrightarrow> 2 ^ i \<le> max 1 v \<and> max 1 v < 2 ^ (i + 1)" for v i
  proof
    let ?u = "nat (max 1 v)"
    assume "2 ^ i \<le> max 1 v \<and> max 1 v < 2 ^ (i + 1)"
    then have "int (2 ^ i) \<le> int ?u" "int ?u < int (2 ^ Suc i)" by simp_all
    then have "2 ^ i \<le> ?u" "?u < 2 ^ Suc i" by (simp_all only: of_nat_le_iff of_nat_less_iff)
    then have "ilog2 ?u = i" by (rule ilog2_eqI)
    then show "log2_slot v = i" by (cases "v \<le> 1") (simp_all add: log2_slot_def max_absorb1 max_absorb2 ilog2.simps)
  qed (use log2_slot_range_max [of v] in auto)
  have used: "h ! log2_slot v \<noteq> 0 \<and> log2_slot v < OTLP_HIST_SLOTS" if "v \<in> set vs" for v
  proof -
    have l: "log2_slot v < OTLP_HIST_SLOTS" using that assms(2) log2_slot_less [of v 63] by (auto simp: OTLP_HIST_SLOTS_def)
    have "v \<in> set (filter (\<lambda>x. log2_slot x = log2_slot v) vs)" using that by simp
    then have "0 < slot_count vs (log2_slot v)" unfolding slot_count_def by (rule length_pos_if_in_set)
    then show ?thesis using l hn [OF l] slot_count_u64 [OF assms(3), of "log2_slot v"] by auto
  qed
  have "length h = OTLP_HIST_SLOTS" using h by (simp add: slots_of_def)
  moreover have "\<exists>i < OTLP_HIST_SLOTS. h ! i \<noteq> 0" using used [of "hd vs"] assms(1) by auto
  ultimately obtain f cs where e: "exp_positive h = Some (f, cs)" "f + length cs \<le> OTLP_HIST_SLOTS"
      "\<forall>i < length cs. cs ! i = h ! (f + i)"
      "\<forall>i < OTLP_HIST_SLOTS. i < f \<or> f + length cs \<le> i \<longrightarrow> h ! i = 0"
    using exp_positive_range by blast
  have "2 ^ f \<le> max 1 v \<and> max 1 v < 2 ^ (f + length cs)" if "v \<in> set vs" for v
  proof -
    have "f \<le> log2_slot v" "Suc (log2_slot v) \<le> f + length cs" using e(4) used [OF that] by (meson not_le not_less_eq_eq)+
    then have "(2 :: int) ^ f \<le> 2 ^ log2_slot v" "(2 :: int) ^ Suc (log2_slot v) \<le> 2 ^ (f + length cs)"
      by (simp_all only: power_increasing_iff one_less_numeral_iff semiring_norm)
    moreover have "2 ^ log2_slot v \<le> max 1 v" "max 1 v < 2 ^ Suc (log2_slot v)" using log2_slot_range_max [of v] by blast+
    ultimately show ?thesis by linarith
  qed
  moreover have "unat (cs ! i) = length (filter (\<lambda>v. 2 ^ (f + i) \<le> max 1 v \<and> max 1 v < 2 ^ (f + i + 1)) vs)" if "i < length cs" for i
  proof -
    have "filter (\<lambda>v. log2_slot v = f + i) vs = filter (\<lambda>v. 2 ^ (f + i) \<le> max 1 v \<and> max 1 v < 2 ^ (f + i + 1)) vs"
      using sl by (intro filter_cong) auto
    then show ?thesis using e(2,3) that hn [of "f + i"] slot_count_u64 [OF assms(3), of "f + i"]
      by (simp add: slot_count_def)
  qed
  ultimately show ?thesis using e(1) by blast
qed

theorem exphist_buckets_witness:
  "\<exists>f cs. exp_positive (fold spnl_hist_observe [1024, 0] (replicate HISTOGRAM_SLOTS 0)) = Some (f, cs)
     \<and> (2 :: int) ^ f \<le> 1 \<and> (1024 :: int) < 2 ^ (f + length cs)"
  using exphist_buckets [of "[1024, 0]", OF _ _ _ refl] by auto

end
