(* ===== verification/Otlp_Metrics.thy ===== *)
theory Otlp_Metrics
  imports Otlp_Msg Otlp_Hist
begin

text \<open>
  Metrics as OTLP protobuf (\<open>src/runtime/otlp/otlp_metrics.c\<close> and the descriptors of
  \<open>metrics.pb.h\<close>): the per-method counter and latency, and the generic gauge, sum, histogram and
  exponential histogram builders, one metric per request.

  A double is carried by its bit pattern.  The members of a C union share one value.
\<close>

subsection \<open>Generated messages\<close>

definition ExportMetricsServiceRequest_FIELDLIST :: "pb_cb \<Rightarrow> pb_field list" where
  "ExportMetricsServiceRequest_FIELDLIST resource_metrics = [(fld 1 LT_SUBMESSAGE, Repeated, Callback resource_metrics)]"

definition ResourceMetrics_FIELDLIST :: "bool \<Rightarrow> pb_field list \<Rightarrow> pb_cb \<Rightarrow> pb_field list" where
  "ResourceMetrics_FIELDLIST has_resource resource scope_metrics =
     [(fld 1 LT_SUBMESSAGE, Optional has_resource, Static (Pb_msg (pb_encode resource))),
      (fld 2 LT_SUBMESSAGE, Repeated, Callback scope_metrics),
      (fld 3 LT_STRING, Singular, Callback None)]"

definition ScopeMetrics_FIELDLIST :: "bool \<Rightarrow> pb_field list \<Rightarrow> pb_cb \<Rightarrow> pb_field list" where
  "ScopeMetrics_FIELDLIST has_scope scope metrics =
     [(fld 1 LT_SUBMESSAGE, Optional has_scope, Static (Pb_msg (pb_encode scope))),
      (fld 2 LT_SUBMESSAGE, Repeated, Callback metrics),
      (fld 3 LT_STRING, Singular, Callback None)]"

definition Gauge_FIELDLIST :: "pb_cb \<Rightarrow> pb_field list" where
  "Gauge_FIELDLIST data_points = [(fld 1 LT_SUBMESSAGE, Repeated, Callback data_points)]"

definition Sum_FIELDLIST :: "pb_cb \<Rightarrow> u32 \<Rightarrow> bool \<Rightarrow> pb_field list" where
  "Sum_FIELDLIST data_points aggregation_temporality is_monotonic =
     [(fld 1 LT_SUBMESSAGE, Repeated, Callback data_points),
      (fld 2 LT_UVARINT, Singular, Static (Pb_int (ucast aggregation_temporality))),
      (fld 3 LT_BOOL, Singular, Static (Pb_int (if is_monotonic then 1 else 0)))]"

definition Histogram_FIELDLIST :: "pb_cb \<Rightarrow> u32 \<Rightarrow> pb_field list" where
  "Histogram_FIELDLIST data_points aggregation_temporality =
     [(fld 1 LT_SUBMESSAGE, Repeated, Callback data_points),
      (fld 2 LT_UVARINT, Singular, Static (Pb_int (ucast aggregation_temporality)))]"

definition ExponentialHistogram_FIELDLIST :: "pb_cb \<Rightarrow> u32 \<Rightarrow> pb_field list" where
  "ExponentialHistogram_FIELDLIST data_points aggregation_temporality =
     [(fld 1 LT_SUBMESSAGE, Repeated, Callback data_points),
      (fld 2 LT_UVARINT, Singular, Static (Pb_int (ucast aggregation_temporality)))]"

record Metric =
  mc_name :: pb_cb
  mc_unit :: pb_cb
  mc_which_data :: u32
  mc_data :: "pb_field list"

definition Metric_FIELDLIST :: "Metric \<Rightarrow> pb_field list" where
  "Metric_FIELDLIST m =
     [(fld 1 LT_STRING, Singular, Callback (mc_name m)),
      (fld 2 LT_STRING, Singular, Callback None),
      (fld 3 LT_STRING, Singular, Callback (mc_unit m)),
      (fld 5 LT_SUBMESSAGE, Oneof (mc_which_data m), Static (Pb_msg (pb_encode (mc_data m)))),
      (fld 7 LT_SUBMESSAGE, Oneof (mc_which_data m), Static (Pb_msg (pb_encode (mc_data m)))),
      (fld 9 LT_SUBMESSAGE, Oneof (mc_which_data m), Static (Pb_msg (pb_encode (mc_data m)))),
      (fld 10 LT_SUBMESSAGE, Oneof (mc_which_data m), Static (Pb_msg (pb_encode (mc_data m)))),
      (fld 11 LT_SUBMESSAGE, Oneof (mc_which_data m), Static (Pb_msg (pb_encode (mc_data m)))),
      (fld 12 LT_SUBMESSAGE, Repeated, Callback None)]"

definition Metric_gauge_tag :: u32 where "Metric_gauge_tag = 5"
definition Metric_sum_tag :: u32 where "Metric_sum_tag = 7"
definition Metric_histogram_tag :: u32 where "Metric_histogram_tag = 9"
definition Metric_exponential_histogram_tag :: u32 where "Metric_exponential_histogram_tag = 10"
definition NumberDataPoint_as_int_tag :: u32 where "NumberDataPoint_as_int_tag = 6"
definition AGGREGATION_TEMPORALITY_CUMULATIVE :: u32 where "AGGREGATION_TEMPORALITY_CUMULATIVE = 2"

record NumberDataPoint =
  ndp_start :: u64
  ndp_time :: u64
  ndp_which_value :: u32
  ndp_value :: u64
  ndp_attributes :: pb_cb

definition NumberDataPoint_FIELDLIST :: "NumberDataPoint \<Rightarrow> pb_field list" where
  "NumberDataPoint_FIELDLIST dp =
     [(fld 2 LT_FIXED64, Singular, Static (Pb_int (ndp_start dp))),
      (fld 3 LT_FIXED64, Singular, Static (Pb_int (ndp_time dp))),
      (fld 4 LT_FIXED64, Oneof (ndp_which_value dp), Static (Pb_int (ndp_value dp))),
      (fld 5 LT_SUBMESSAGE, Repeated, Callback None),
      (fld 6 LT_FIXED64, Oneof (ndp_which_value dp), Static (Pb_int (ndp_value dp))),
      (fld 7 LT_SUBMESSAGE, Repeated, Callback (ndp_attributes dp)),
      (fld 8 LT_UVARINT, Singular, Static (Pb_int 0))]"

record HistogramDataPoint =
  hdp_start :: u64
  hdp_time :: u64
  hdp_count :: u64
  hdp_has_sum :: bool
  hdp_sum :: u64
  hdp_bucket_counts :: pb_cb
  hdp_explicit_bounds :: pb_cb
  hdp_attributes :: pb_cb

definition HistogramDataPoint_FIELDLIST :: "HistogramDataPoint \<Rightarrow> pb_field list" where
  "HistogramDataPoint_FIELDLIST dp =
     [(fld 2 LT_FIXED64, Singular, Static (Pb_int (hdp_start dp))),
      (fld 3 LT_FIXED64, Singular, Static (Pb_int (hdp_time dp))),
      (fld 4 LT_FIXED64, Singular, Static (Pb_int (hdp_count dp))),
      (fld 5 LT_FIXED64, Optional (hdp_has_sum dp), Static (Pb_int (hdp_sum dp))),
      (fld 6 LT_FIXED64, Repeated, Callback (hdp_bucket_counts dp)),
      (fld 7 LT_FIXED64, Repeated, Callback (hdp_explicit_bounds dp)),
      (fld 8 LT_SUBMESSAGE, Repeated, Callback None),
      (fld 9 LT_SUBMESSAGE, Repeated, Callback (hdp_attributes dp)),
      (fld 10 LT_UVARINT, Singular, Static (Pb_int 0)),
      (fld 11 LT_FIXED64, Optional False, Static (Pb_int 0)),
      (fld 12 LT_FIXED64, Optional False, Static (Pb_int 0))]"

definition Buckets_FIELDLIST :: "u64 \<Rightarrow> pb_cb \<Rightarrow> pb_field list" where
  "Buckets_FIELDLIST offset bucket_counts =
     [(fld 1 LT_SVARINT, Singular, Static (Pb_int offset)),
      (fld 2 LT_UVARINT, Repeated, Callback bucket_counts)]"

record ExponentialHistogramDataPoint =
  edp_attributes :: pb_cb
  edp_start :: u64
  edp_time :: u64
  edp_count :: u64
  edp_has_sum :: bool
  edp_sum :: u64
  edp_scale :: u64
  edp_zero_count :: u64
  edp_has_positive :: bool
  edp_positive :: "pb_field list"

definition ExponentialHistogramDataPoint_FIELDLIST :: "ExponentialHistogramDataPoint \<Rightarrow> pb_field list" where
  "ExponentialHistogramDataPoint_FIELDLIST dp =
     [(fld 1 LT_SUBMESSAGE, Repeated, Callback (edp_attributes dp)),
      (fld 2 LT_FIXED64, Singular, Static (Pb_int (edp_start dp))),
      (fld 3 LT_FIXED64, Singular, Static (Pb_int (edp_time dp))),
      (fld 4 LT_FIXED64, Singular, Static (Pb_int (edp_count dp))),
      (fld 5 LT_FIXED64, Optional (edp_has_sum dp), Static (Pb_int (edp_sum dp))),
      (fld 6 LT_SVARINT, Singular, Static (Pb_int (edp_scale dp))),
      (fld 7 LT_FIXED64, Singular, Static (Pb_int (edp_zero_count dp))),
      (fld 8 LT_SUBMESSAGE, Optional (edp_has_positive dp), Static (Pb_msg (pb_encode (edp_positive dp)))),
      (fld 9 LT_SUBMESSAGE, Optional False, Static (Pb_msg enc_done)),
      (fld 10 LT_UVARINT, Singular, Static (Pb_int 0)),
      (fld 11 LT_SUBMESSAGE, Repeated, Callback None),
      (fld 12 LT_FIXED64, Optional False, Static (Pb_int 0)),
      (fld 13 LT_FIXED64, Optional False, Static (Pb_int 0)),
      (fld 14 LT_FIXED64, Singular, Static (Pb_int 0))]"

subsection \<open>Measurements\<close>

record otlp_method_metric =
  mr_method :: string
  mr_file :: "string option"
  mr_line :: int
  mr_calls :: u64
  mr_buckets :: "u64 list"

record otlp_series =
  se_count :: u64
  se_buckets :: "u64 list"
  se_labels :: "otlp_kv list"

record otlp_hseries =
  hse_labels :: "otlp_kv list"
  hse_count :: u64
  hse_sum :: u64
  hse_bucket_counts :: "u64 list"

datatype otlp_hist_agg = OTLP_HIST_AGG_EXPLICIT | OTLP_HIST_AGG_EXPONENTIAL

text \<open>The value in effect once the variable has been read; \<open>None\<close> when the process refuses and exits.\<close>

definition otlp_hist_aggregation :: "otlp_hist_agg option \<Rightarrow> string option \<Rightarrow> otlp_hist_agg option" where
  "otlp_hist_aggregation cached env =
     (case cached of
        Some a \<Rightarrow> Some a
      | None \<Rightarrow>
          (case nonempty env of
             None \<Rightarrow> Some OTLP_HIST_AGG_EXPLICIT
           | Some v \<Rightarrow>
               if v = ''explicit_bucket_histogram'' then Some OTLP_HIST_AGG_EXPLICIT
               else if v = ''base2_exponential_bucket_histogram'' then Some OTLP_HIST_AGG_EXPONENTIAL
               else None))"

datatype otlp_method_part = OTLP_MPART_CALLS | OTLP_MPART_LATENCY_EXP | OTLP_MPART_LATENCY_HIST

subsection \<open>Callbacks\<close>

definition enc_code_attrs :: "otlp_method_metric \<Rightarrow> pb_iter \<Rightarrow> encoder" where
  "enc_code_attrs m it =
     enc_all [otlp_put_kv_str ''code.function'' (mr_method m) it,
              put_kv_opt ''code.filepath'' (mr_file m) it,
              put_kv_if (mr_line m > 0) ''code.lineno'' (of_int (mr_line m)) it]"

definition enc_bucket_counts :: "u64 list \<Rightarrow> pb_iter \<Rightarrow> encoder" where
  "enc_bucket_counts cs it = enc_all (map (\<lambda>c. and_then (pb_encode_tag_for_field it) (pb_encode_varint c)) cs)"

definition enc_explicit_bounds :: "u64 list \<Rightarrow> pb_iter \<Rightarrow> encoder" where
  "enc_explicit_bounds ds it = enc_all (map (\<lambda>d. and_then (pb_encode_tag_for_field it) (pb_encode_fixed64 d)) ds)"

definition enc_hist_bucket_counts :: "u64 list \<Rightarrow> pb_iter \<Rightarrow> encoder" where
  "enc_hist_bucket_counts cs it = enc_all (map (\<lambda>c. and_then (pb_encode_tag_for_field it) (pb_encode_fixed64 c)) cs)"

definition put_point :: "pb_field list \<Rightarrow> pb_iter \<Rightarrow> encoder" where
  "put_point dp it = and_then (pb_encode_tag_for_field it) (pb_encode_submessage (pb_encode dp))"

definition number_point :: "u64 \<Rightarrow> u64 \<Rightarrow> u64 \<Rightarrow> (pb_iter \<Rightarrow> encoder) \<Rightarrow> NumberDataPoint" where
  "number_point t start v attributes =
     \<lparr> ndp_start = start, ndp_time = t, ndp_which_value = NumberDataPoint_as_int_tag, ndp_value = v,
       ndp_attributes = Some attributes \<rparr>"

definition exp_point :: "u64 \<Rightarrow> u64 \<Rightarrow> u64 list \<Rightarrow> (pb_iter \<Rightarrow> encoder) \<Rightarrow> ExponentialHistogramDataPoint" where
  "exp_point t start buckets attributes =
     (let (first, last, total, sum) = exp_scan buckets in
      \<lparr> edp_attributes = Some attributes, edp_start = start, edp_time = t, edp_count = total,
        edp_has_sum = True, edp_sum = double_bits sum, edp_scale = 0, edp_zero_count = 0,
        edp_has_positive = (first \<ge> 0),
        edp_positive =
          (if first \<ge> 0
           then Buckets_FIELDLIST (of_int first)
                  (Some (enc_bucket_counts (take (nat (last - first + 1)) (drop (nat first) buckets))))
           else Buckets_FIELDLIST 0 None) \<rparr>)"

definition hist_point :: "u64 \<Rightarrow> u64 \<Rightarrow> u64 \<Rightarrow> u64 \<Rightarrow> u64 list \<Rightarrow> u64 list \<Rightarrow> (pb_iter \<Rightarrow> encoder) \<Rightarrow> HistogramDataPoint" where
  "hist_point t start cnt sm bc bounds attributes =
     \<lparr> hdp_start = start, hdp_time = t, hdp_count = cnt, hdp_has_sum = True, hdp_sum = sm,
       hdp_bucket_counts = Some (enc_hist_bucket_counts bc),
       hdp_explicit_bounds = Some (enc_explicit_bounds bounds),
       hdp_attributes = Some attributes \<rparr>"

definition enc_calls_dps :: "u64 \<Rightarrow> u64 \<Rightarrow> otlp_method_metric list \<Rightarrow> pb_iter \<Rightarrow> encoder" where
  "enc_calls_dps t start methods it =
     enc_all (map (\<lambda>m. if mr_calls m = 0 then enc_done
       else put_point (NumberDataPoint_FIELDLIST (number_point t start (mr_calls m) (enc_code_attrs m))) it) methods)"

definition enc_lat_dps :: "u64 \<Rightarrow> u64 \<Rightarrow> otlp_method_metric list \<Rightarrow> pb_iter \<Rightarrow> encoder" where
  "enc_lat_dps t start methods it =
     enc_all (map (\<lambda>m. if mr_calls m = 0 then enc_done
       else put_point (ExponentialHistogramDataPoint_FIELDLIST (exp_point t start (mr_buckets m) (enc_code_attrs m))) it)
       methods)"

definition enc_lat_hist_dps :: "u64 \<Rightarrow> u64 \<Rightarrow> otlp_method_metric list \<Rightarrow> pb_iter \<Rightarrow> encoder" where
  "enc_lat_hist_dps t start methods it =
     enc_all (map (\<lambda>m. if mr_calls m = 0 then enc_done
       else let (bc, total, sum) = otlp_log2_fold (mr_buckets m) in
         put_point (HistogramDataPoint_FIELDLIST (hist_point t start total (double_bits sum) bc
           (map double_bits otlp_log2_ns_bounds) (enc_code_attrs m))) it) methods)"

definition enc_metrics_one :: "otlp_method_part \<Rightarrow> u64 \<Rightarrow> u64 \<Rightarrow> otlp_method_metric list \<Rightarrow> pb_iter \<Rightarrow> encoder" where
  "enc_metrics_one part t start methods it =
     put_point (Metric_FIELDLIST
       (case part of
          OTLP_MPART_CALLS \<Rightarrow>
            \<lparr> mc_name = Some (otlp_enc_string ''spnl_method_calls_total''), mc_unit = None,
              mc_which_data = Metric_sum_tag,
              mc_data = Sum_FIELDLIST (Some (enc_calls_dps t start methods)) AGGREGATION_TEMPORALITY_CUMULATIVE True \<rparr>
        | OTLP_MPART_LATENCY_EXP \<Rightarrow>
            \<lparr> mc_name = Some (otlp_enc_string ''spnl_method_latency_ns''), mc_unit = Some (otlp_enc_string ''ns''),
              mc_which_data = Metric_exponential_histogram_tag,
              mc_data = ExponentialHistogram_FIELDLIST (Some (enc_lat_dps t start methods)) AGGREGATION_TEMPORALITY_CUMULATIVE \<rparr>
        | OTLP_MPART_LATENCY_HIST \<Rightarrow>
            \<lparr> mc_name = Some (otlp_enc_string ''spnl_method_latency_ns''), mc_unit = Some (otlp_enc_string ''ns''),
              mc_which_data = Metric_histogram_tag,
              mc_data = Histogram_FIELDLIST (Some (enc_lat_hist_dps t start methods)) AGGREGATION_TEMPORALITY_CUMULATIVE \<rparr>)) it"

definition metrics_envelope_encode :: "nat \<Rightarrow> otlp_proc \<Rightarrow> otlp_resource \<Rightarrow> string option \<Rightarrow> (pb_iter \<Rightarrow> encoder) \<Rightarrow>
    bytes option" where
  "metrics_envelope_encode cap pr rctx scope_name metrics_cb =
     (let res = Resource_FIELDLIST (Some (otlp_enc_resource_attrs pr rctx));
          scope = InstrumentationScope_FIELDLIST (Some (otlp_enc_string (str_or ''spinel-ebpf'' scope_name)));
          sm = ScopeMetrics_FIELDLIST True scope (Some metrics_cb);
          rm = ResourceMetrics_FIELDLIST True res (Some (otlp_enc_one_sub sm));
          req = ExportMetricsServiceRequest_FIELDLIST (Some (otlp_enc_one_sub rm))
      in pb_run cap (pb_encode req))"

definition otlp_metrics_method_build :: "nat \<Rightarrow> otlp_proc \<Rightarrow> otlp_resource \<Rightarrow> string option \<Rightarrow> otlp_method_part \<Rightarrow>
    u64 \<Rightarrow> u64 \<Rightarrow> otlp_method_metric list \<Rightarrow> bytes option" where
  "otlp_metrics_method_build cap pr rctx scope_name part t start methods =
     metrics_envelope_encode cap pr rctx scope_name (enc_metrics_one part t start methods)"

subsection \<open>Generic series\<close>

definition enc_series_attrs :: "otlp_kv list \<Rightarrow> pb_iter \<Rightarrow> encoder" where
  "enc_series_attrs labels it = enc_all (map (\<lambda>kv. otlp_put_kv_str (kv_key kv) (kv_val kv) it) labels)"

definition enc_series_calls :: "u64 \<Rightarrow> u64 \<Rightarrow> otlp_series list \<Rightarrow> pb_iter \<Rightarrow> encoder" where
  "enc_series_calls t start series it =
     enc_all (map (\<lambda>s. if se_count s = 0 then enc_done
       else put_point (NumberDataPoint_FIELDLIST (number_point t start (se_count s) (enc_series_attrs (se_labels s)))) it)
       series)"

definition enc_series_lat :: "u64 \<Rightarrow> u64 \<Rightarrow> otlp_series list \<Rightarrow> pb_iter \<Rightarrow> encoder" where
  "enc_series_lat t start series it =
     enc_all (map (\<lambda>s. if se_count s = 0 then enc_done
       else put_point (ExponentialHistogramDataPoint_FIELDLIST
              (exp_point t start (se_buckets s) (enc_series_attrs (se_labels s)))) it) series)"

definition unit_cb :: "string option \<Rightarrow> pb_cb" where
  "unit_cb u = map_option otlp_enc_string (nonempty u)"

definition enc_gauge_metric :: "string \<Rightarrow> string option \<Rightarrow> u64 \<Rightarrow> u64 \<Rightarrow> otlp_series list \<Rightarrow> pb_iter \<Rightarrow> encoder" where
  "enc_gauge_metric name u t start series it =
     put_point (Metric_FIELDLIST
       \<lparr> mc_name = Some (otlp_enc_string name), mc_unit = unit_cb u, mc_which_data = Metric_gauge_tag,
         mc_data = Gauge_FIELDLIST (Some (enc_series_calls t start series)) \<rparr>) it"

definition otlp_metrics_gauge_build :: "nat \<Rightarrow> otlp_proc \<Rightarrow> otlp_resource \<Rightarrow> string option \<Rightarrow> string \<Rightarrow> string option \<Rightarrow>
    u64 \<Rightarrow> u64 \<Rightarrow> otlp_series list \<Rightarrow> bytes option" where
  "otlp_metrics_gauge_build cap pr rctx scope_name name u t start series =
     metrics_envelope_encode cap pr rctx scope_name (enc_gauge_metric name u t start series)"

definition enc_exphist_metric :: "string \<Rightarrow> string option \<Rightarrow> u64 \<Rightarrow> u64 \<Rightarrow> otlp_series list \<Rightarrow> pb_iter \<Rightarrow> encoder" where
  "enc_exphist_metric name u t start series it =
     put_point (Metric_FIELDLIST
       \<lparr> mc_name = Some (otlp_enc_string name), mc_unit = unit_cb u, mc_which_data = Metric_exponential_histogram_tag,
         mc_data = ExponentialHistogram_FIELDLIST (Some (enc_series_lat t start series)) AGGREGATION_TEMPORALITY_CUMULATIVE \<rparr>) it"

definition otlp_metrics_exphist_build :: "nat \<Rightarrow> otlp_proc \<Rightarrow> otlp_resource \<Rightarrow> string option \<Rightarrow> string \<Rightarrow> string option \<Rightarrow>
    u64 \<Rightarrow> u64 \<Rightarrow> otlp_series list \<Rightarrow> bytes option" where
  "otlp_metrics_exphist_build cap pr rctx scope_name name u t start series =
     metrics_envelope_encode cap pr rctx scope_name (enc_exphist_metric name u t start series)"

definition enc_sum_metric :: "string \<Rightarrow> string option \<Rightarrow> u64 \<Rightarrow> u64 \<Rightarrow> otlp_series list \<Rightarrow> pb_iter \<Rightarrow> encoder" where
  "enc_sum_metric name u t start series it =
     put_point (Metric_FIELDLIST
       \<lparr> mc_name = Some (otlp_enc_string name), mc_unit = unit_cb u, mc_which_data = Metric_sum_tag,
         mc_data = Sum_FIELDLIST (Some (enc_series_calls t start series)) AGGREGATION_TEMPORALITY_CUMULATIVE True \<rparr>) it"

definition otlp_metrics_sum_build :: "nat \<Rightarrow> otlp_proc \<Rightarrow> otlp_resource \<Rightarrow> string option \<Rightarrow> string \<Rightarrow> string option \<Rightarrow>
    u64 \<Rightarrow> u64 \<Rightarrow> otlp_series list \<Rightarrow> bytes option" where
  "otlp_metrics_sum_build cap pr rctx scope_name name u t start series =
     metrics_envelope_encode cap pr rctx scope_name (enc_sum_metric name u t start series)"

definition enc_hseries_attrs :: "otlp_kv list \<Rightarrow> pb_iter \<Rightarrow> encoder" where
  "enc_hseries_attrs labels it = enc_all (map (\<lambda>kv. otlp_put_kv_str (kv_key kv) (kv_val kv) it) labels)"

definition enc_hist_dps :: "u64 list \<Rightarrow> u64 \<Rightarrow> u64 \<Rightarrow> otlp_hseries list \<Rightarrow> pb_iter \<Rightarrow> encoder" where
  "enc_hist_dps bounds t start series it =
     enc_all (map (\<lambda>s. put_point (HistogramDataPoint_FIELDLIST
       (hist_point t start (hse_count s) (hse_sum s) (take (length bounds + 1) (hse_bucket_counts s)) bounds
          (enc_hseries_attrs (hse_labels s)))) it) series)"

definition enc_hist_metric :: "string \<Rightarrow> string option \<Rightarrow> u64 list \<Rightarrow> u64 \<Rightarrow> u64 \<Rightarrow> otlp_hseries list \<Rightarrow> pb_iter \<Rightarrow> encoder" where
  "enc_hist_metric name u bounds t start series it =
     put_point (Metric_FIELDLIST
       \<lparr> mc_name = Some (otlp_enc_string name), mc_unit = unit_cb u, mc_which_data = Metric_histogram_tag,
         mc_data = Histogram_FIELDLIST (Some (enc_hist_dps bounds t start series)) AGGREGATION_TEMPORALITY_CUMULATIVE \<rparr>) it"

definition otlp_metrics_hist_build :: "nat \<Rightarrow> otlp_proc \<Rightarrow> otlp_resource \<Rightarrow> string option \<Rightarrow> string \<Rightarrow> string option \<Rightarrow>
    u64 list \<Rightarrow> u64 \<Rightarrow> u64 \<Rightarrow> otlp_hseries list \<Rightarrow> bytes option" where
  "otlp_metrics_hist_build cap pr rctx scope_name name u bounds t start series =
     metrics_envelope_encode cap pr rctx scope_name (enc_hist_metric name u bounds t start series)"

subsection \<open>What the requests mean\<close>

record number_msg =
  nm_start :: u64
  nm_time :: u64
  nm_value :: u64
  nm_attrs :: attrs

record hist_msg =
  hm_start :: u64
  hm_time :: u64
  hm_count :: u64
  hm_sum :: u64
  hm_counts :: "u64 list"
  hm_bounds :: "u64 list"
  hm_attrs :: attrs

record exp_msg =
  em_attrs :: attrs
  em_start :: u64
  em_time :: u64
  em_count :: u64
  em_sum :: u64
  em_positive :: "(u64 \<times> u64 list) option"

datatype metric_data = Gauge_data "number_msg list" | Sum_data "number_msg list" u32 bool
  | Hist_data "hist_msg list" u32 | Exp_data "exp_msg list" u32

record metric_msg =
  mt_name :: string
  mt_unit :: string
  mt_data :: metric_data

definition label_attrs :: "otlp_kv list \<Rightarrow> attrs" where
  "label_attrs labels = map (\<lambda>kv. (kv_key kv, String_value (kv_val kv))) labels"

definition method_attrs :: "otlp_method_metric \<Rightarrow> attrs" where
  "method_attrs m = code_attrs (mr_method m) (mr_file m) (mr_line m)"

definition exp_value :: "u64 \<Rightarrow> u64 \<Rightarrow> u64 list \<Rightarrow> attrs \<Rightarrow> exp_msg" where
  "exp_value t start buckets as =
     (let (first, last, total, sum) = exp_scan buckets in
      \<lparr> em_attrs = as, em_start = start, em_time = t, em_count = total, em_sum = double_bits sum,
        em_positive = map_option (\<lambda>(f, cs). (of_nat f, cs)) (exp_positive buckets) \<rparr>)"

definition lat_hist_value :: "u64 \<Rightarrow> u64 \<Rightarrow> otlp_method_metric \<Rightarrow> hist_msg" where
  "lat_hist_value t start m =
     (let (bc, total, sum) = otlp_log2_fold (mr_buckets m) in
      \<lparr> hm_start = start, hm_time = t, hm_count = total, hm_sum = double_bits sum, hm_counts = bc,
        hm_bounds = map double_bits otlp_log2_ns_bounds, hm_attrs = method_attrs m \<rparr>)"

definition method_metric :: "otlp_method_part \<Rightarrow> u64 \<Rightarrow> u64 \<Rightarrow> otlp_method_metric list \<Rightarrow> metric_msg" where
  "method_metric part t start methods =
     (let ms = filter (\<lambda>m. mr_calls m \<noteq> 0) methods in
      case part of
        OTLP_MPART_CALLS \<Rightarrow>
          \<lparr> mt_name = ''spnl_method_calls_total'', mt_unit = [],
            mt_data = Sum_data (map (\<lambda>m. \<lparr> nm_start = start, nm_time = t, nm_value = mr_calls m, nm_attrs = method_attrs m \<rparr>) ms) 2 True \<rparr>
      | OTLP_MPART_LATENCY_EXP \<Rightarrow>
          \<lparr> mt_name = ''spnl_method_latency_ns'', mt_unit = ''ns'',
            mt_data = Exp_data (map (\<lambda>m. exp_value t start (mr_buckets m) (method_attrs m)) ms) 2 \<rparr>
      | OTLP_MPART_LATENCY_HIST \<Rightarrow>
          \<lparr> mt_name = ''spnl_method_latency_ns'', mt_unit = ''ns'',
            mt_data = Hist_data (map (lat_hist_value t start) ms) 2 \<rparr>)"

definition series_numbers :: "u64 \<Rightarrow> u64 \<Rightarrow> otlp_series list \<Rightarrow> number_msg list" where
  "series_numbers t start series =
     map (\<lambda>s. \<lparr> nm_start = start, nm_time = t, nm_value = se_count s, nm_attrs = label_attrs (se_labels s) \<rparr>)
       (filter (\<lambda>s. se_count s \<noteq> 0) series)"

definition series_exps :: "u64 \<Rightarrow> u64 \<Rightarrow> otlp_series list \<Rightarrow> exp_msg list" where
  "series_exps t start series =
     map (\<lambda>s. exp_value t start (se_buckets s) (label_attrs (se_labels s))) (filter (\<lambda>s. se_count s \<noteq> 0) series)"

definition hseries_value :: "u64 list \<Rightarrow> u64 \<Rightarrow> u64 \<Rightarrow> otlp_hseries \<Rightarrow> hist_msg" where
  "hseries_value bounds t start s =
     \<lparr> hm_start = start, hm_time = t, hm_count = hse_count s, hm_sum = hse_sum s,
       hm_counts = take (length bounds + 1) (hse_bucket_counts s), hm_bounds = bounds,
       hm_attrs = label_attrs (hse_labels s) \<rparr>"

definition named_metric :: "string \<Rightarrow> string option \<Rightarrow> metric_data \<Rightarrow> metric_msg" where
  "named_metric name u d = \<lparr> mt_name = name, mt_unit = str_or [] (nonempty u), mt_data = d \<rparr>"

subsection \<open>Wire forms\<close>

definition number_wire :: "number_msg \<Rightarrow> (nat \<times> wire) list" where
  "number_wire d = sing_wire 2 LT_FIXED64 (nm_start d) @ sing_wire 3 LT_FIXED64 (nm_time d)
     @ [(6, W_64 (unat (nm_value d)))] @ attrs_wire 7 (nm_attrs d)"

definition hist_wire :: "hist_msg \<Rightarrow> (nat \<times> wire) list" where
  "hist_wire d = sing_wire 2 LT_FIXED64 (hm_start d) @ sing_wire 3 LT_FIXED64 (hm_time d) @ sing_wire 4 LT_FIXED64 (hm_count d)
     @ [(5, W_64 (unat (hm_sum d)))] @ map (\<lambda>c. (6, W_64 (unat c))) (hm_counts d)
     @ map (\<lambda>b. (7, W_64 (unat b))) (hm_bounds d) @ attrs_wire 9 (hm_attrs d)"

definition exp_buckets_wire :: "u64 \<times> u64 list \<Rightarrow> (nat \<times> wire) list" where
  "exp_buckets_wire p = sing_wire 1 LT_SVARINT (fst p) @ map (\<lambda>c. (2, W_varint (unat c))) (snd p)"

definition exp_wire :: "exp_msg \<Rightarrow> (nat \<times> wire) list" where
  "exp_wire d = attrs_wire 1 (em_attrs d) @ sing_wire 2 LT_FIXED64 (em_start d) @ sing_wire 3 LT_FIXED64 (em_time d)
     @ sing_wire 4 LT_FIXED64 (em_count d) @ [(5, W_64 (unat (em_sum d)))]
     @ (case em_positive d of None \<Rightarrow> [] | Some p \<Rightarrow> [(8, W_len (fields_bytes (exp_buckets_wire p)))])"

definition points_wire :: "('a \<Rightarrow> (nat \<times> wire) list) \<Rightarrow> 'a list \<Rightarrow> (nat \<times> wire) list" where
  "points_wire w ds = map (\<lambda>d. (1, W_len (fields_bytes (w d)))) ds"

fun data_wire :: "metric_data \<Rightarrow> nat \<times> (nat \<times> wire) list" where
  "data_wire (Gauge_data ds) = (5, points_wire number_wire ds)"
| "data_wire (Sum_data ds agg mon) =
     (7, points_wire number_wire ds @ sing_wire 2 LT_UVARINT (ucast agg) @ sing_wire 3 LT_BOOL (if mon then 1 else 0))"
| "data_wire (Hist_data ds agg) = (9, points_wire hist_wire ds @ sing_wire 2 LT_UVARINT (ucast agg))"
| "data_wire (Exp_data ds agg) = (10, points_wire exp_wire ds @ sing_wire 2 LT_UVARINT (ucast agg))"

definition metric_wire :: "metric_msg \<Rightarrow> (nat \<times> wire) list" where
  "metric_wire m = [(1, W_len (str_bytes (mt_name m)))]
     @ (if mt_unit m = [] then [] else [(3, W_len (str_bytes (mt_unit m)))])
     @ [(fst (data_wire (mt_data m)), W_len (fields_bytes (snd (data_wire (mt_data m)))))]"

lemma emits_skip_map:
  assumes "\<And>x. P x \<Longrightarrow> emits (f x) [w x]"
  shows "emits (enc_all (map (\<lambda>x. if \<not> P x then enc_done else f x) xs)) (map w (filter P xs))"
proof (induction xs)
  case (Cons x xs)
  then show ?case using emits_then [OF assms [of x] Cons] emits_then [OF emits_done Cons] by auto
qed auto

lemma emits_put_point:
  "emits (pb_encode m) ws \<Longrightarrow> emits (put_point m (fld t LT_SUBMESSAGE)) [(unat t, W_len (fields_bytes ws))]"
  unfolding put_point_def by (rule emits_put_sub)

lemma emits_code_attrs: "emits (enc_code_attrs m (fld t LT_SUBMESSAGE)) (attrs_wire (unat t) (method_attrs m))"
  unfolding enc_code_attrs_def by (rule emits_eq, (rule emits_intros | simp add: method_attrs_def code_attrs_def)+)

lemma emits_labels:
  "emits (enc_all (map (\<lambda>kv. otlp_put_kv_str (kv_key kv) (kv_val kv) (fld t LT_SUBMESSAGE)) labels))
     (attrs_wire (unat t) (label_attrs labels))"
proof -
  have "emits (enc_all (map (\<lambda>kv. otlp_put_kv_str (kv_key kv) (kv_val kv) (fld t LT_SUBMESSAGE)) labels))
      (concat (map (\<lambda>kv. attrs_wire (unat t) [(kv_key kv, String_value (kv_val kv))]) labels))"
    by (rule emits_all_map) (rule emits_kv_str)
  moreover have "concat (map (\<lambda>kv. attrs_wire (unat t) [(kv_key kv, String_value (kv_val kv))]) labels) =
      attrs_wire (unat t) (label_attrs labels)"
    by (induction labels) (simp_all add: attrs_wire_def label_attrs_def)
  ultimately show ?thesis by simp
qed

lemma emits_counts [emits_intros]:
  "emits (enc_bucket_counts cs (fld t LT_UVARINT)) (map (\<lambda>c. (unat t, W_varint (unat c))) cs)"
  "emits (enc_explicit_bounds cs (fld t LT_FIXED64)) (map (\<lambda>c. (unat t, W_64 (unat c))) cs)"
  "emits (enc_hist_bucket_counts cs (fld t LT_FIXED64)) (map (\<lambda>c. (unat t, W_64 (unat c))) cs)"
  unfolding enc_bucket_counts_def enc_explicit_bounds_def enc_hist_bucket_counts_def
  using emits_all_map [of cs _ "\<lambda>c. [(unat t, W_varint (unat c))]"] emits_all_map [of cs _ "\<lambda>c. [(unat t, W_64 (unat c))]"]
    emits_tagged_varint [of "fld t LT_UVARINT"] emits_tagged_fixed64 [of "fld t LT_FIXED64"]
  by (simp_all add: concat_map_single)

lemma emits_number:
  assumes "\<And>t. emits (f (fld t LT_SUBMESSAGE)) (attrs_wire (unat t) as)"
  shows "emits (pb_encode (NumberDataPoint_FIELDLIST (number_point t start v f)))
    (number_wire \<lparr> nm_start = start, nm_time = t, nm_value = v, nm_attrs = as \<rparr>)"
  unfolding NumberDataPoint_FIELDLIST_def number_point_def NumberDataPoint.select_convs
  by (rule emits_eq, (rule emits_intros assms | simp add: number_wire_def NumberDataPoint_as_int_tag_def)+)

lemma emits_hist:
  assumes "\<And>t. emits (f (fld t LT_SUBMESSAGE)) (attrs_wire (unat t) as)"
  shows "emits (pb_encode (HistogramDataPoint_FIELDLIST (hist_point t start cnt sm bc bounds f)))
    (hist_wire \<lparr> hm_start = start, hm_time = t, hm_count = cnt, hm_sum = sm, hm_counts = bc, hm_bounds = bounds, hm_attrs = as \<rparr>)"
  unfolding HistogramDataPoint_FIELDLIST_def hist_point_def HistogramDataPoint.select_convs
  by (rule emits_eq, (rule emits_intros assms | simp add: hist_wire_def)+)

lemma emits_buckets:
  "emits (pb_encode (Buckets_FIELDLIST off (Some (enc_bucket_counts cs)))) (exp_buckets_wire (off, cs))"
  "emits (pb_encode (Buckets_FIELDLIST 0 None)) []"
  unfolding Buckets_FIELDLIST_def by (rule emits_eq, (rule emits_intros | simp add: exp_buckets_wire_def)+)+

lemma emits_exp_parts:
  assumes "\<And>t. emits (f (fld t LT_SUBMESSAGE)) (attrs_wire (unat t) as)" "emits (pb_encode p) ws"
  shows "emits (pb_encode (ExponentialHistogramDataPoint_FIELDLIST
      \<lparr> edp_attributes = Some f, edp_start = start, edp_time = t, edp_count = cnt, edp_has_sum = True, edp_sum = sm,
        edp_scale = 0, edp_zero_count = 0, edp_has_positive = has, edp_positive = p \<rparr>))
    (attrs_wire 1 as @ sing_wire 2 LT_FIXED64 start @ sing_wire 3 LT_FIXED64 t @ sing_wire 4 LT_FIXED64 cnt
      @ [(5, W_64 (unat sm))] @ (if has then [(8, W_len (fields_bytes ws))] else []))"
  unfolding ExponentialHistogramDataPoint_FIELDLIST_def ExponentialHistogramDataPoint.select_convs
  by (rule emits_eq, (rule emits_intros assms | simp)+)

lemma emits_exp:
  assumes "\<And>t. emits (f (fld t LT_SUBMESSAGE)) (attrs_wire (unat t) as)"
  shows "emits (pb_encode (ExponentialHistogramDataPoint_FIELDLIST (exp_point t start buckets f)))
    (exp_wire (exp_value t start buckets as))"
proof -
  obtain fi la tot sm where e: "exp_scan buckets = (fi, la, tot, sm)" by (cases "exp_scan buckets") auto
  show ?thesis
  proof (cases "fi \<ge> 0")
    case True
    then show ?thesis
      using emits_exp_parts [where f = f and as = as and has = True, OF assms emits_buckets(1)] e
      by (simp add: exp_point_def exp_value_def exp_positive_def exp_wire_def of_nat_nat)
  next
    case False
    then show ?thesis
      using emits_exp_parts [where f = f and as = as and has = False, OF assms emits_buckets(2)] e
      by (simp add: exp_point_def exp_value_def exp_positive_def exp_wire_def)
  qed
qed

lemma emits_skip_points:
  fixes c :: "'a \<Rightarrow> u64"
  assumes "\<And>x. emits (pb_encode (g x)) (w (v x))"
  shows "emits (enc_all (map (\<lambda>x. if c x = 0 then enc_done else put_point (g x) (fld 1 LT_SUBMESSAGE)) xs))
    (points_wire w (map v (filter (\<lambda>x. c x \<noteq> 0) xs)))"
  using emits_skip_map [of "\<lambda>x. c x \<noteq> 0" "\<lambda>x. put_point (g x) (fld 1 LT_SUBMESSAGE)"
      "\<lambda>x. (1, W_len (fields_bytes (w (v x))))"] emits_put_point [where t = 1, OF assms]
  by (simp add: points_wire_def comp_def)

lemma emits_calls_dps [emits_intros]:
  "emits (enc_calls_dps t start ms (fld 1 LT_SUBMESSAGE)) (points_wire number_wire
     (map (\<lambda>m. \<lparr> nm_start = start, nm_time = t, nm_value = mr_calls m, nm_attrs = method_attrs m \<rparr>) (filter (\<lambda>m. mr_calls m \<noteq> 0) ms)))"
  unfolding enc_calls_dps_def by (rule emits_skip_points) (rule emits_number [OF emits_code_attrs])

lemma emits_lat_dps [emits_intros]:
  "emits (enc_lat_dps t start ms (fld 1 LT_SUBMESSAGE)) (points_wire exp_wire
     (map (\<lambda>m. exp_value t start (mr_buckets m) (method_attrs m)) (filter (\<lambda>m. mr_calls m \<noteq> 0) ms)))"
  unfolding enc_lat_dps_def by (rule emits_skip_points) (rule emits_exp [OF emits_code_attrs])

lemma emits_series_attrs:
  "emits (enc_series_attrs labels (fld t LT_SUBMESSAGE)) (attrs_wire (unat t) (label_attrs labels))"
  "emits (enc_hseries_attrs labels (fld t LT_SUBMESSAGE)) (attrs_wire (unat t) (label_attrs labels))"
  unfolding enc_series_attrs_def enc_hseries_attrs_def by (rule emits_labels)+

lemma emits_series_calls [emits_intros]:
  "emits (enc_series_calls t start ss (fld 1 LT_SUBMESSAGE)) (points_wire number_wire (series_numbers t start ss))"
  unfolding enc_series_calls_def series_numbers_def
  by (rule emits_skip_points) (rule emits_number [OF emits_series_attrs(1)])

lemma emits_series_lat [emits_intros]:
  "emits (enc_series_lat t start ss (fld 1 LT_SUBMESSAGE)) (points_wire exp_wire (series_exps t start ss))"
  unfolding enc_series_lat_def series_exps_def
  by (rule emits_skip_points) (rule emits_exp [OF emits_series_attrs(1)])

lemma emits_lat_hist_dps [emits_intros]:
  "emits (enc_lat_hist_dps t start ms (fld 1 LT_SUBMESSAGE)) (points_wire hist_wire
     (map (lat_hist_value t start) (filter (\<lambda>m. mr_calls m \<noteq> 0) ms)))"
proof -
  let ?g = "\<lambda>m. let (bc, total, sum) = otlp_log2_fold (mr_buckets m) in
     HistogramDataPoint_FIELDLIST (hist_point t start total (double_bits sum) bc
           (map double_bits otlp_log2_ns_bounds) (enc_code_attrs m))"
  have "emits (pb_encode (?g m)) (hist_wire (lat_hist_value t start m))" for m
    using emits_hist [OF emits_code_attrs [of m], of t start]
    by (simp add: lat_hist_value_def split: prod.split)
  note e = emits_skip_points [of ?g hist_wire "lat_hist_value t start" mr_calls ms, OF this]
  have "enc_lat_hist_dps t start ms (fld 1 LT_SUBMESSAGE) =
      enc_all (map (\<lambda>m. if mr_calls m = 0 then enc_done else put_point (?g m) (fld 1 LT_SUBMESSAGE)) ms)"
    unfolding enc_lat_hist_dps_def by (rule arg_cong [where f = enc_all], rule map_cong) (simp_all split: prod.split)
  then show ?thesis using e by simp
qed

lemma emits_hist_dps [emits_intros]:
  "emits (enc_hist_dps bounds t start ss (fld 1 LT_SUBMESSAGE)) (points_wire hist_wire (map (hseries_value bounds t start) ss))"
proof -
  have "emits (put_point (HistogramDataPoint_FIELDLIST (hist_point t start (hse_count s) (hse_sum s)
      (take (length bounds + 1) (hse_bucket_counts s)) bounds (enc_hseries_attrs (hse_labels s)))) (fld 1 LT_SUBMESSAGE))
    [(1, W_len (fields_bytes (hist_wire (hseries_value bounds t start s))))]" for s
    using emits_put_point [where t = 1, OF emits_hist [OF emits_series_attrs(2)]]
    by (simp add: hseries_value_def)
  from emits_all_map [of ss, OF this] show ?thesis
    by (simp add: enc_hist_dps_def points_wire_def concat_map_single comp_def)
qed

text \<open>One metric around its data points.\<close>

lemma emits_data:
  "emits (f (fld 1 LT_SUBMESSAGE)) (points_wire number_wire ds) \<Longrightarrow>
     emits (pb_encode (Gauge_FIELDLIST (Some f))) (snd (data_wire (Gauge_data ds)))"
  "emits (f (fld 1 LT_SUBMESSAGE)) (points_wire number_wire ds) \<Longrightarrow>
     emits (pb_encode (Sum_FIELDLIST (Some f) agg mon)) (snd (data_wire (Sum_data ds agg mon)))"
  "emits (f (fld 1 LT_SUBMESSAGE)) (points_wire hist_wire hs) \<Longrightarrow>
     emits (pb_encode (Histogram_FIELDLIST (Some f) agg)) (snd (data_wire (Hist_data hs agg)))"
  "emits (f (fld 1 LT_SUBMESSAGE)) (points_wire exp_wire es) \<Longrightarrow>
     emits (pb_encode (ExponentialHistogram_FIELDLIST (Some f) agg)) (snd (data_wire (Exp_data es agg)))"
  unfolding Gauge_FIELDLIST_def Sum_FIELDLIST_def Histogram_FIELDLIST_def ExponentialHistogram_FIELDLIST_def
  subgoal by (rule emits_eq, (rule emits_intros | assumption | simp)+)
  subgoal by (rule emits_eq, (rule emits_intros | assumption | simp)+)
  subgoal by (rule emits_eq, (rule emits_intros | assumption | simp)+)
  subgoal by (rule emits_eq, (rule emits_intros | assumption | simp)+)
  done

lemma emits_metric:
  assumes "emits (pb_encode d) (snd (data_wire v))" "unat which = fst (data_wire v)"
  shows "emits (pb_encode (Metric_FIELDLIST \<lparr> mc_name = Some (otlp_enc_string n),
      mc_unit = map_option otlp_enc_string (nonempty u), mc_which_data = which, mc_data = d \<rparr>))
    (metric_wire (named_metric n u v))"
proof -
  have w: "which = of_nat (fst (data_wire v))" unfolding assms(2) [symmetric] by simp
  show ?thesis
    unfolding Metric_FIELDLIST_def Metric.select_convs
    by (rule emits_eq, (rule emits_intros assms
        | simp add: w metric_wire_def named_metric_def nonempty_def str_or_def split: option.split)+, cases v) simp_all
qed

lemma emits_method_metric:
  "emits (enc_metrics_one part t start ms (fld tag LT_SUBMESSAGE))
     [(unat tag, W_len (fields_bytes (metric_wire (method_metric part t start ms))))]"
proof -
  have u: "nonempty (Some ''ns'') = Some ''ns''" "nonempty None = None" by (simp_all add: nonempty_def)
  note m = emits_metric [where u = None and n = "''spnl_method_calls_total''" and which = Metric_sum_tag]
    emits_metric [where u = "Some ''ns''" and n = "''spnl_method_latency_ns''" and which = Metric_histogram_tag]
    emits_metric [where u = "Some ''ns''" and n = "''spnl_method_latency_ns''" and which = Metric_exponential_histogram_tag]
  show ?thesis unfolding enc_metrics_one_def
    using m(1) [OF emits_data(2) [where f = "enc_calls_dps t start ms", OF emits_calls_dps], of 2 True]
      m(2) [OF emits_data(3) [where f = "enc_lat_hist_dps t start ms", OF emits_lat_hist_dps], of 2]
      m(3) [OF emits_data(4) [where f = "enc_lat_dps t start ms", OF emits_lat_dps], of 2]
    by (cases part) (simp_all add: method_metric_def named_metric_def u str_or_def Metric_sum_tag_def Metric_histogram_tag_def
        Metric_exponential_histogram_tag_def AGGREGATION_TEMPORALITY_CUMULATIVE_def Let_def emits_put_point)
qed

lemma emits_series_metric:
  "emits (enc_gauge_metric n u t start ss (fld tag LT_SUBMESSAGE))
     [(unat tag, W_len (fields_bytes (metric_wire (named_metric n u (Gauge_data (series_numbers t start ss))))))]"
  "emits (enc_sum_metric n u t start ss (fld tag LT_SUBMESSAGE))
     [(unat tag, W_len (fields_bytes (metric_wire (named_metric n u (Sum_data (series_numbers t start ss) 2 True)))))]"
  "emits (enc_exphist_metric n u t start ss (fld tag LT_SUBMESSAGE))
     [(unat tag, W_len (fields_bytes (metric_wire (named_metric n u (Exp_data (series_exps t start ss) 2)))))]"
  "emits (enc_hist_metric n u bounds t start hs (fld tag LT_SUBMESSAGE))
     [(unat tag, W_len (fields_bytes (metric_wire (named_metric n u (Hist_data (map (hseries_value bounds t start) hs) 2)))))]"
  unfolding enc_gauge_metric_def enc_sum_metric_def enc_exphist_metric_def enc_hist_metric_def unit_cb_def
    AGGREGATION_TEMPORALITY_CUMULATIVE_def
  by (rule emits_put_point, rule emits_metric, rule emits_data, rule emits_series_calls emits_series_lat emits_hist_dps,
      simp add: Metric_gauge_tag_def Metric_sum_tag_def Metric_exponential_histogram_tag_def Metric_histogram_tag_def)+

lemma emits_metrics_request:
  assumes "\<And>t. emits (f (fld t LT_SUBMESSAGE)) [(unat t, W_len (fields_bytes (metric_wire m)))]"
  shows "emits (pb_encode (ExportMetricsServiceRequest_FIELDLIST (Some (otlp_enc_one_sub (ResourceMetrics_FIELDLIST True
      (Resource_FIELDLIST (Some (otlp_enc_resource_attrs pr r)))
      (Some (otlp_enc_one_sub (ScopeMetrics_FIELDLIST True (InstrumentationScope_FIELDLIST (Some (otlp_enc_string n))) (Some f)))))))))
    (request_wire metric_wire \<lparr> rq_resource = resource_attrs pr r, rq_scope = n, rq_items = [m] \<rparr>)"
  unfolding ExportMetricsServiceRequest_FIELDLIST_def ResourceMetrics_FIELDLIST_def ScopeMetrics_FIELDLIST_def
  by (rule emits_eq, (rule emits_intros assms | simp add: request_wire_def)+)

lemma envelope_wire:
  assumes "\<And>t. emits (f (fld t LT_SUBMESSAGE)) [(unat t, W_len (fields_bytes (metric_wire m)))]"
    and "bs = fields_bytes (request_wire metric_wire (otlp_envelope pr r scope [m]))" "length bs < 2 ^ 64"
  shows "metrics_envelope_encode cap pr r scope f = (if length bs \<le> cap then Some bs else None)"
  using pb_run_emits [OF emits_metrics_request [where f = f and m = m, OF assms(1)]] assms(2,3)
  by (simp add: metrics_envelope_encode_def otlp_envelope_def Let_def)

subsection \<open>Decoding metrics\<close>

definition unzigzag :: "u64 \<Rightarrow> u64" where
  "unzigzag n = (if bit n 0 then NOT (drop_bit 1 n) else drop_bit 1 n)"

definition get_reps :: "nat \<Rightarrow> (nat \<times> wire) list \<Rightarrow> u64 list" where
  "get_reps t fs = List.map_filter (\<lambda>(t', w). if t' = t then
     (case w of W_varint v \<Rightarrow> Some (of_nat v) | W_64 v \<Rightarrow> Some (of_nat v) | _ \<Rightarrow> None) else None) fs"

definition dec_number :: "bytes \<Rightarrow> number_msg option" where
  "dec_number bs =
     (case parse_fields bs of None \<Rightarrow> None
      | Some fs \<Rightarrow> map_option (\<lambda>as. \<lparr> nm_start = get_int 2 fs, nm_time = get_int 3 fs, nm_value = get_int 6 fs, nm_attrs = as \<rparr>)
          (dec_attrs (get_all 7 fs)))"

definition dec_hist :: "bytes \<Rightarrow> hist_msg option" where
  "dec_hist bs =
     (case parse_fields bs of None \<Rightarrow> None
      | Some fs \<Rightarrow> map_option (\<lambda>as. \<lparr> hm_start = get_int 2 fs, hm_time = get_int 3 fs, hm_count = get_int 4 fs,
            hm_sum = get_int 5 fs, hm_counts = get_reps 6 fs, hm_bounds = get_reps 7 fs, hm_attrs = as \<rparr>)
          (dec_attrs (get_all 9 fs)))"

definition dec_buckets :: "bytes \<Rightarrow> (u64 \<times> u64 list) option" where
  "dec_buckets bs = map_option (\<lambda>ps. (unzigzag (get_int 1 ps), get_reps 2 ps)) (parse_fields bs)"

definition dec_exp :: "bytes \<Rightarrow> exp_msg option" where
  "dec_exp bs =
     (case parse_fields bs of None \<Rightarrow> None
      | Some fs \<Rightarrow> map_option (\<lambda>as. \<lparr> em_attrs = as, em_start = get_int 2 fs, em_time = get_int 3 fs, em_count = get_int 4 fs,
            em_sum = get_int 5 fs,
            em_positive =
              (case map_of fs 8 of Some (W_len b) \<Rightarrow> dec_buckets b | _ \<Rightarrow> None) \<rparr>)
          (dec_attrs (get_all 1 fs)))"

text \<open>The data of a metric: its points, and what follows them.\<close>

definition dec_points :: "(bytes \<Rightarrow> 'a option) \<Rightarrow> bytes \<Rightarrow> ('a list \<times> (nat \<times> wire) list) option" where
  "dec_points dec bs =
     (case parse_fields bs of None \<Rightarrow> None | Some fs \<Rightarrow> map_option (\<lambda>ds. (ds, fs)) (those (map dec (get_all 1 fs))))"

definition dec_data :: "(nat \<times> wire) list \<Rightarrow> metric_data option" where
  "dec_data fs =
     (if map_of fs 5 \<noteq> None then map_option (\<lambda>(ds, _). Gauge_data ds) (dec_points dec_number (get_len 5 fs))
      else if map_of fs 7 \<noteq> None then
        map_option (\<lambda>(ds, gs). Sum_data ds (ucast (get_int 2 gs)) (get_int 3 gs \<noteq> 0)) (dec_points dec_number (get_len 7 fs))
      else if map_of fs 9 \<noteq> None then
        map_option (\<lambda>(ds, gs). Hist_data ds (ucast (get_int 2 gs))) (dec_points dec_hist (get_len 9 fs))
      else map_option (\<lambda>(ds, gs). Exp_data ds (ucast (get_int 2 gs))) (dec_points dec_exp (get_len 10 fs)))"

definition dec_metric :: "bytes \<Rightarrow> metric_msg option" where
  "dec_metric bs =
     (case parse_fields bs of None \<Rightarrow> None
      | Some fs \<Rightarrow> map_option (\<lambda>d. \<lparr> mt_name = get_str 1 fs, mt_unit = get_str 3 fs, mt_data = d \<rparr>) (dec_data fs))"

lemma bit_zigzag:
  assumes "n < 64"
  shows "bit (zigzag v) n = (if n = 0 then bit v 63 else bit v (n - 1) \<noteq> bit v 63)"
proof -
  have sg: "v <s 0 \<longleftrightarrow> bit v 63" using bit_last_iff [of v] by (simp add: word_sless_alt)
  have p: "bit (push_bit 1 x) n = (n \<noteq> 0 \<and> bit x (n - 1))" for x :: u64
    unfolding bit_push_bit_iff using assms by auto
  have q: "bit (v AND drop_bit 1 (NOT 0)) (n - 1) = bit v (n - 1)" if "n \<noteq> 0"
    using assms that by (auto simp: bit_simps)
  have nt: "bit (NOT x) n = (\<not> bit x n)" for x :: u64 using assms by (simp add: bit_not_iff)
  show ?thesis
  proof (cases "bit v 63")
    case True
    then have "zigzag v = NOT (push_bit 1 (v AND drop_bit 1 (NOT 0)))" unfolding zigzag_def sg by (rule if_P)
    then have "bit (zigzag v) n = (\<not> (n \<noteq> 0 \<and> bit (v AND drop_bit 1 (NOT 0)) (n - 1)))" by (simp only: nt p)
    then have "bit (zigzag v) n = (\<not> (n \<noteq> 0 \<and> bit v (n - 1)))" using q by blast
    then show ?thesis using True by simp
  next
    case False
    then have "zigzag v = push_bit 1 v" unfolding zigzag_def sg by (rule if_not_P)
    then have "bit (zigzag v) n = (n \<noteq> 0 \<and> bit v (n - 1))" by (simp only: p)
    then show ?thesis using False by simp
  qed
qed

lemma unzigzag_zigzag [simp]: "unzigzag (zigzag v) = v"
proof (rule bit_eqI)
  fix n
  have z: "bit (zigzag v) 0 = bit v 63" using bit_zigzag [of 0 v] by simp
  have d: "bit (drop_bit 1 (zigzag v)) n = bit (zigzag v) (Suc n)" by (simp add: bit_drop_bit_eq)
  have nt: "n < 64 \<Longrightarrow> bit (NOT x) n = (\<not> bit x n)" for x :: u64 by (simp add: bit_not_iff)
  consider "n < 63" | "n = 63" | "64 \<le> n" by linarith
  then show "bit (unzigzag (zigzag v)) n = bit v n"
  proof cases
    case 1
    then show ?thesis using bit_zigzag [of "Suc n" v] d nt [of "drop_bit 1 (zigzag v)"] by (simp add: unzigzag_def z)
  next
    case 2
    have "\<not> bit (zigzag v) 64" using bit_imp_le_length [of "zigzag v" 64] by auto
    then show ?thesis using 2 d nt [of "drop_bit 1 (zigzag v)"] by (simp add: unzigzag_def z)
  next
    case 3
    then show ?thesis using bit_imp_le_length [of v n] bit_imp_le_length [of "unzigzag (zigzag v)" n] by auto
  qed
qed

lemma get_reps_simps [simp]:
  "get_reps t [] = []"
  "get_reps t ((t', w) # fs) = (if t' = t then (case w of W_varint v \<Rightarrow> of_nat v # get_reps t fs | W_64 v \<Rightarrow> of_nat v # get_reps t fs
     | _ \<Rightarrow> get_reps t fs) else get_reps t fs)"
  "get_reps t (fs @ gs) = get_reps t fs @ get_reps t gs"
  by (auto simp: get_reps_def List.map_filter_def split: wire.split)

lemma get_reps_maps [simp]:
  "get_reps t (map (\<lambda>c. (t', W_64 (unat c))) cs) = (if t' = t then cs else [])"
  "get_reps t (map (\<lambda>c. (t', W_varint (unat c))) cs) = (if t' = t then cs else [])"
  by (induction cs) auto

lemma get_reps_other [simp]:
  "get_reps t (attrs_wire t' as) = []" "t \<noteq> t' \<Longrightarrow> get_reps t (sing_wire t' l v) = []"
  by (induction as) (auto simp: sing_wire_def)

lemma reps_wire_ok [simp]:
  "list_all wire_ok (map (\<lambda>c. (t, W_64 (unat (c :: u64)))) cs)" "list_all wire_ok (map (\<lambda>c. (t, W_varint (unat (c :: u64)))) cs)"
proof -
  have "unat c < 2 ^ 64" for c :: u64 using unat_less [of c] by simp
  then show "list_all wire_ok (map (\<lambda>c. (t, W_64 (unat (c :: u64)))) cs)"
    "list_all wire_ok (map (\<lambda>c. (t, W_varint (unat (c :: u64)))) cs)"
    by (simp_all add: list_all_iff)
qed

lemma reps_map_of [simp]:
  "t \<noteq> t' \<Longrightarrow> map_of (map (\<lambda>c. (t', W_64 (f c))) cs) t = None" "t \<noteq> t' \<Longrightarrow> map_of (map (\<lambda>c. (t', W_varint (f c))) cs) t = None"
  by (induction cs) simp_all

lemma reps_get_all [simp]:
  "get_all t (map (\<lambda>c. (t', W_64 (f c))) cs) = []" "get_all t (map (\<lambda>c. (t', W_varint (f c))) cs) = []"
  by (induction cs) auto

lemma u64_less: "unat (v :: u64) < 2 ^ 64"
  using unat_less [of v] by simp

lemmas dec_fields = get_int_def get_str_def get_len_def map_of_sing map_add_def

lemma dec_number_wire: "dec_number (fields_bytes (number_wire d)) = Some d"
proof -
  have "list_all wire_ok (number_wire d)" using u64_less by (simp add: number_wire_def)
  then have p: "parse_fields (fields_bytes (number_wire d)) = Some (number_wire d)" by (rule parse_fields_bytes)
  show ?thesis unfolding dec_number_def p option.case
    by (cases d) (simp add: number_wire_def dec_fields del: fields_bytes_simps split: option.split)
qed

lemma dec_hist_wire: "dec_hist (fields_bytes (hist_wire d)) = Some d"
proof -
  have "list_all wire_ok (hist_wire d)" using u64_less by (simp add: hist_wire_def)
  then have p: "parse_fields (fields_bytes (hist_wire d)) = Some (hist_wire d)" by (rule parse_fields_bytes)
  show ?thesis unfolding dec_hist_def p option.case
    by (cases d) (simp add: hist_wire_def dec_fields del: fields_bytes_simps split: option.split)
qed

lemma unzigzag_0 [simp]: "unzigzag 0 = 0"
  by (simp add: unzigzag_def)

lemma dec_buckets_wire: "dec_buckets (fields_bytes (exp_buckets_wire q)) = Some q"
proof -
  have "parse_fields (fields_bytes (exp_buckets_wire q)) = Some (exp_buckets_wire q)"
    by (rule parse_fields_bytes) (simp add: exp_buckets_wire_def)
  moreover have "unzigzag (get_int 1 (exp_buckets_wire q)) = fst q" "get_reps 2 (exp_buckets_wire q) = snd q"
    by (simp_all add: exp_buckets_wire_def dec_fields)
  ultimately show ?thesis by (simp add: dec_buckets_def)
qed

lemma dec_exp_wire: "dec_exp (fields_bytes (exp_wire d)) = Some d"
proof -
  have "list_all wire_ok (exp_wire d)" using u64_less by (simp add: exp_wire_def split: option.split)
  then have p: "parse_fields (fields_bytes (exp_wire d)) = Some (exp_wire d)" by (rule parse_fields_bytes)
  show ?thesis unfolding dec_exp_def p option.case
    by (cases d) (simp add: exp_wire_def dec_fields dec_buckets_wire del: fields_bytes_simps split: option.split)
qed

lemma points_wire_simps [simp]:
  "list_all wire_ok (points_wire w ds)" "get_all (Suc 0) (points_wire w ds) = map (\<lambda>d. fields_bytes (w d)) ds"
  "t \<noteq> 1 \<Longrightarrow> map_of (points_wire w ds) t = None"
  by (induction ds) (auto simp: points_wire_def)

lemma dec_points_wire:
  assumes "\<And>d. dec (fields_bytes (w d)) = Some d" "list_all wire_ok gs" "get_all 1 gs = []"
  shows "dec_points dec (fields_bytes (points_wire w ds @ gs)) = Some (ds, points_wire w ds @ gs)"
proof -
  have "parse_fields (fields_bytes (points_wire w ds @ gs)) = Some (points_wire w ds @ gs)"
    by (rule parse_fields_bytes) (use assms(2) in simp)
  moreover have "those (map dec (map (\<lambda>d. fields_bytes (w d)) ds)) = Some ds" by (rule those_map) (rule assms(1))
  ultimately show ?thesis using assms(3) by (simp add: dec_points_def del: fields_bytes_simps map_map)
qed

lemma dec_data_wire:
  assumes "fs = pre @ [(fst (data_wire d), W_len (fields_bytes (snd (data_wire d))))]" "\<forall>t \<in> set (map fst pre). t < 4"
  shows "dec_data fs = Some d"
proof -
  have n: "map_of pre t = None" if "4 \<le> t" for t using assms(2) that by (auto simp: map_of_eq_None_iff)
  note pts = dec_points_wire [of dec_number number_wire, OF dec_number_wire] dec_points_wire [of dec_hist hist_wire, OF dec_hist_wire]
    dec_points_wire [of dec_exp exp_wire, OF dec_exp_wire]
  show ?thesis
  proof (cases d)
    case (Gauge_data ds)
    then show ?thesis using pts(1) [of "[]"] n unfolding assms(1)
      by (simp add: dec_data_def get_len_def map_add_def del: fields_bytes_simps)
  next
    case (Sum_data ds agg mon)
    then show ?thesis using pts(1) n unfolding assms(1)
      by (simp add: dec_data_def dec_fields del: fields_bytes_simps)
  next
    case (Hist_data ds agg)
    then show ?thesis using pts(2) n unfolding assms(1)
      by (simp add: dec_data_def dec_fields del: fields_bytes_simps)
  next
    case (Exp_data ds agg)
    then show ?thesis using pts(3) n unfolding assms(1)
      by (simp add: dec_data_def dec_fields del: fields_bytes_simps)
  qed
qed

lemma dec_metric_wire: "dec_metric (fields_bytes (metric_wire m)) = Some m"
proof -
  let ?d = "(fst (data_wire (mt_data m)), W_len (fields_bytes (snd (data_wire (mt_data m)))))"
  let ?pre = "(1, W_len (str_bytes (mt_name m))) # (if mt_unit m = [] then [] else [(3, W_len (str_bytes (mt_unit m)))])"
  have w: "metric_wire m = ?pre @ [?d]" by (simp add: metric_wire_def)
  have p: "parse_fields (fields_bytes (metric_wire m)) = Some (metric_wire m)"
    by (rule parse_fields_bytes) (simp add: w)
  have d: "dec_data (metric_wire m) = Some (mt_data m)" by (rule dec_data_wire [OF w]) simp
  have t: "fst (data_wire (mt_data m)) \<noteq> 3" by (cases "mt_data m") simp_all
  have "get_str 1 (metric_wire m) = mt_name m" "get_str 3 (metric_wire m) = mt_unit m"
    using t by (simp_all add: w get_str_def get_len_def del: fields_bytes_simps)
  then show ?thesis unfolding dec_metric_def p option.case d by simp
qed

subsection \<open>Properties\<close>

text \<open>C38: the protobuf metric requests.  Each of the builders succeeds exactly when its encoding fits
  the buffer, and a protobuf reader then recovers the one metric of the request: name and unit, kind,
  temporality and monotonicity, and every data point with its times, value, counts, bounds, sum and
  attributes.  Methods and series that were never counted are left out, except by the explicit
  histogram builder.\<close>

theorem metrics_request_roundtrip:
  assumes "rq = otlp_envelope pr r scope [m]"
    and "bs = fields_bytes (request_wire metric_wire rq)" "length bs < 2 ^ 64"
    and "out = (if length bs \<le> cap then Some bs else None)"
  shows "dec_request dec_metric bs = Some rq
    \<and> (m = method_metric part t start ms \<longrightarrow> otlp_metrics_method_build cap pr r scope part t start ms = out)
    \<and> (m = named_metric n u (Gauge_data (series_numbers t start ss)) \<longrightarrow>
         otlp_metrics_gauge_build cap pr r scope n u t start ss = out)
    \<and> (m = named_metric n u (Sum_data (series_numbers t start ss) 2 True) \<longrightarrow>
         otlp_metrics_sum_build cap pr r scope n u t start ss = out)
    \<and> (m = named_metric n u (Exp_data (series_exps t start ss) 2) \<longrightarrow>
         otlp_metrics_exphist_build cap pr r scope n u t start ss = out)
    \<and> (m = named_metric n u (Hist_data (map (hseries_value bounds t start) hs) 2) \<longrightarrow>
         otlp_metrics_hist_build cap pr r scope n u bounds t start hs = out)"
proof -
  have "dec_request dec_metric bs = Some rq"
    unfolding assms(2) by (rule dec_request_wire) (rule dec_metric_wire)
  moreover have e: "metrics_envelope_encode cap pr r scope f = out"
    if "\<And>t. emits (f (fld t LT_SUBMESSAGE)) [(unat t, W_len (fields_bytes (metric_wire m)))]" for f
    using envelope_wire [OF that, of bs pr r scope cap] assms by simp
  ultimately show ?thesis
    unfolding otlp_metrics_method_build_def otlp_metrics_gauge_build_def otlp_metrics_sum_build_def
      otlp_metrics_exphist_build_def otlp_metrics_hist_build_def
    using emits_method_metric emits_series_metric by (intro conjI impI) (simp_all add: e)
qed

definition demo_series :: otlp_series where
  "demo_series = \<lparr> se_count = 3, se_buckets = [], se_labels = [\<lparr> kv_key = ''pid'', kv_val = ''7'' \<rparr>] \<rparr>"

lemma demo_metric_size:
  "length (fields_bytes (request_wire metric_wire (otlp_envelope demo_proc demo_resource None
     [named_metric ''c'' None (Sum_data (series_numbers 5 1 [demo_series]) 2 True)]))) < 300"
  by code_simp

theorem metrics_request_roundtrip_witness:
  "\<exists>bs. otlp_metrics_sum_build 4096 demo_proc demo_resource None ''c'' None 5 1 [demo_series] = Some bs
     \<and> dec_request dec_metric bs = Some (otlp_envelope demo_proc demo_resource None
          [named_metric ''c'' None (Sum_data (series_numbers 5 1 [demo_series]) 2 True)])"
proof -
  let ?m = "named_metric ''c'' None (Sum_data (series_numbers 5 1 [demo_series]) 2 True)"
  note r = metrics_request_roundtrip [where m = ?m and cap = 4096 and pr = demo_proc and r = demo_resource and scope = None
      and n = "''c''" and u = None and t = 5 and start = 1 and ss = "[demo_series]", OF refl refl _ refl]
  show ?thesis using r demo_metric_size by simp
qed

end
