(* ===== verification/Amp_Drain.thy ===== *)
theory Amp_Drain
  imports Amp_Runtime Otlp_Traces Otlp_Grpc
begin

text \<open>
  The drain on the application core: the manifest that configures it (\<open>amp_manifest.c\<close>, written by
  \<open>amp_manifest_dump.c\<close> and \<open>bin/spinel-ebpf\<close>), the two ways of turning ring records into OTLP
  requests (\<open>amp_otlp.c\<close>), and one pass of the drain loop (\<open>amp_a55_drain.c\<close>).

  A drain returns \<open>None\<close> when an index leaves the ring memory; otherwise the encoded request (or the
  error), the number of records it took and the ring with its consumer index.
\<close>

subsection \<open>The manifest\<close>

record amp_manifest =
  am_service_name :: string
  am_endpoint :: string
  am_abi_version :: u32
  am_ivars_size :: u32
  am_n_triggers :: u32

definition set_str :: "nat \<Rightarrow> string \<Rightarrow> string" where
  "set_str cap v = c_trunc cap v"

text \<open>\<open>strtoul(s, NULL, 0)\<close>: leading blanks, an optional sign, then base 16, 8 or 10 by prefix;
  saturating at the largest \<open>unsigned long\<close>.\<close>

definition based_digit :: "nat \<Rightarrow> char \<Rightarrow> bool" where
  "based_digit base c \<longleftrightarrow> 0 \<le> hexval c \<and> hexval c < int base"

definition based_val :: "nat \<Rightarrow> string \<Rightarrow> nat" where
  "based_val base s = fold (\<lambda>c n. n * base + nat (hexval c)) (takeWhile (based_digit base) s) 0"

definition strtoul_digits :: "string \<Rightarrow> nat" where
  "strtoul_digits s =
     (if c_starts s ''0x'' \<or> c_starts s ''0X'' then
        (if length s > 2 \<and> based_digit 16 (s ! 2) then based_val 16 (drop 2 s) else 0)
      else if c_starts s ''0'' then based_val 8 s
      else based_val 10 s)"

definition c_strtoul :: "string \<Rightarrow> u64" where
  "c_strtoul s =
     (let s1 = dropWhile is_space s;
          neg = c_starts s1 ''-'';
          s2 = (if neg \<or> c_starts s1 ''+'' then drop 1 s1 else s1);
          n = strtoul_digits s2
      in if n \<ge> 2 ^ 64 then -1 else if neg then - of_nat n else of_nat n)"

definition manifest_line :: "string \<Rightarrow> amp_manifest \<Rightarrow> amp_manifest" where
  "manifest_line line m =
     (if c_starts line ''#'' \<or> c_starts line [CHR 0x0A] then m
      else let l = takeWhile (\<lambda>c. c \<noteq> CHR 0x0A) line in
        case c_strchr l CHR ''='' of
          None \<Rightarrow> m
        | Some i \<Rightarrow>
            (let k = take i l; v = drop (i + 1) l in
             if k = ''service.name'' then m \<lparr> am_service_name := set_str 64 v \<rparr>
             else if k = ''otlp.endpoint'' then m \<lparr> am_endpoint := set_str 160 v \<rparr>
             else if k = ''abi_version'' then m \<lparr> am_abi_version := ucast (c_strtoul v) \<rparr>
             else if k = ''ivars_size'' then m \<lparr> am_ivars_size := ucast (c_strtoul v) \<rparr>
             else if k = ''trigger'' then m \<lparr> am_n_triggers := am_n_triggers m + 1 \<rparr>
             else m))"

definition amp_manifest_load :: "string option \<Rightarrow> bool \<times> amp_manifest" where
  "amp_manifest_load file =
     (let m = \<lparr> am_service_name = set_str 64 ''spinel-amp-m7'', am_endpoint = [], am_abi_version = 0,
                am_ivars_size = 0, am_n_triggers = 0 \<rparr>
      in case file of
           None \<Rightarrow> (False, m)
         | Some s \<Rightarrow> (True, fold manifest_line (fgets_all 256 s) m))"

text \<open>Writing it: the dumper prints what the code generator derived, the command line puts the
  deployment settings in front.\<close>

record amp_trigger =
  at_fn :: string
  at_kind :: int
  at_param :: u32

definition trigger_line :: "amp_trigger \<Rightarrow> string" where
  "trigger_line t = ''trigger='' @ at_fn t @ '' kind='' @ show_int (at_kind t) @ '' param='' @ dec_of (unat (at_param t))"

definition manifest_dump_lines :: "u32 \<Rightarrow> u32 \<Rightarrow> amp_trigger list \<Rightarrow> string list" where
  "manifest_dump_lines abi ivars ts =
     [''abi_version='' @ dec_of (unat abi), ''ivars_size='' @ dec_of (unat ivars)] @ map trigger_line ts"

definition write_amp_manifest :: "string \<Rightarrow> string \<Rightarrow> string \<Rightarrow> u32 \<Rightarrow> u32 \<Rightarrow> amp_trigger list \<Rightarrow> string" where
  "write_amp_manifest board service endpoint abi ivars ts =
     print_lines [''# spinel-ebpf amp manifest'', ''board='' @ board, ''service.name='' @ service, ''otlp.endpoint='' @ endpoint]
     @ print_lines (manifest_dump_lines abi ivars ts)"

subsection \<open>Draining the ring\<close>

definition AMP_DRAIN_MAX :: nat where "AMP_DRAIN_MAX = 64"

definition drain_log :: "amp_ring_rec \<Rightarrow> otlp_log_record" where
  "drain_log e =
     \<lparr> lg_time = evt_timestamp (rec_hdr e), lg_severity = 0, lg_body_is_str = False, lg_body_str = None,
       lg_body_int = rec_value e, lg_event_name = Some ''amp.emit'' \<rparr>"

definition amp_ring_drain_logs :: "otlp_proc \<Rightarrow> amp_ring \<Rightarrow> nat \<Rightarrow> otlp_resource \<Rightarrow> nat \<Rightarrow>
    (bytes option \<times> nat \<times> amp_ring) option" where
  "amp_ring_drain_logs pr r cap res mx =
     (if rg_magic r \<noteq> AMP_RING_MAGIC then Some (None, 0, r)
      else case spsc_read (rg_slots r) (rg_capacity r) (rg_prod r) (rg_cons r)
             (if mx = 0 \<or> mx > AMP_DRAIN_MAX then AMP_DRAIN_MAX else mx) of
        None \<Rightarrow> None
      | Some (recs, co) \<Rightarrow>
          if recs = [] then Some (Some [], 0, r)
          else case otlp_logs_build cap pr res (Some ''spinel-amp-m7'') (map drain_log recs) of
            None \<Rightarrow> Some (None, 0, r)
          | Some buf \<Rightarrow> Some (Some buf, length recs, r \<lparr> rg_cons := co \<rparr>))"

definition span_zero :: otlp_generic_span where
  "span_zero = \<lparr> gs_trace_id = replicate 16 0, gs_span_id = replicate 8 0, gs_parent_span_id = replicate 8 0,
     gs_has_parent = False, gs_start = 0, gs_end = 0, gs_name = None, gs_kind = 0, gs_is_error = False, gs_attrs = [] \<rparr>"

definition req_span :: "bytes \<Rightarrow> bytes \<Rightarrow> u64 \<Rightarrow> u64 \<Rightarrow> string option \<Rightarrow> otlp_generic_span" where
  "req_span tid sid t0 t1 name =
     span_zero \<lparr> gs_trace_id := tid, gs_span_id := sid, gs_start := t0, gs_end := t1,
       gs_name := Some (str_or ''a55.request'' name), gs_kind := 2 \<rparr>"

definition in_window :: "u64 \<Rightarrow> u64 \<Rightarrow> amp_ring_rec \<Rightarrow> bool" where
  "in_window t0 t1 e \<longleftrightarrow> evt_timestamp (rec_hdr e) \<ge> t0 \<and> evt_timestamp (rec_hdr e) \<le> t1"

fun rec_spans :: "otlp_generic_span \<Rightarrow> amp_ring_rec list \<Rightarrow> u64 \<Rightarrow> otlp_generic_span list" where
  "rec_spans req [] seed = []"
| "rec_spans req (e # es) seed =
     (let (s, seed') = (if in_window (gs_start req) (gs_end req) e then otlp_span_new_child span_zero req seed
                        else otlp_span_new_root span_zero seed);
          ts = evt_timestamp (rec_hdr e)
      in s \<lparr> gs_start := ts, gs_end := ts, gs_name := Some ''amp.emit'', gs_kind := 1,
             gs_attrs := [\<lparr> kv_key = ''amp.value'', kv_val = c_trunc KV_VAL_CAP (show_int (sint (rec_value e))) \<rparr>] \<rparr>
         # rec_spans req es seed')"

text \<open>The source reads \<open>prod\<close> again before every record; here the producer does not move during the call.\<close>

definition amp_ring_drain_trace :: "otlp_proc \<Rightarrow> amp_ring \<Rightarrow> bytes \<Rightarrow> bytes \<Rightarrow> u64 \<Rightarrow> u64 \<Rightarrow> string option \<Rightarrow>
    nat \<Rightarrow> otlp_resource \<Rightarrow> u64 \<Rightarrow> (bytes option \<times> nat \<times> amp_ring) option" where
  "amp_ring_drain_trace pr r tid sid t0 t1 name cap res seed =
     (let req = req_span tid sid t0 t1 name in
      if rg_magic r \<noteq> AMP_RING_MAGIC then Some (None, 0, r)
      else case spsc_read (rg_slots r) (rg_capacity r) (rg_prod r) (rg_cons r) AMP_DRAIN_MAX of
        None \<Rightarrow> None
      | Some (recs, co) \<Rightarrow>
          (case otlp_traces_generic_build_multi cap pr res (Some ''spinel-amp-m7'') (req # rec_spans req recs seed) of
             None \<Rightarrow> Some (None, 0, r)
           | Some buf \<Rightarrow> Some (Some buf, length (filter (in_window t0 t1) recs), r \<lparr> rg_cons := co \<rparr>)))"

subsection \<open>The drain loop\<close>

definition AMP_DRAIN_BUFSZ :: nat where "AMP_DRAIN_BUFSZ = 65536"

definition amp_drain_build :: "otlp_proc \<Rightarrow> amp_ring \<Rightarrow> amp_manifest \<Rightarrow> nat \<Rightarrow> (bytes option \<times> nat \<times> amp_ring) option" where
  "amp_drain_build pr r m cap =
     amp_ring_drain_logs pr r cap \<lparr> res_name = Some (am_service_name m), res_version = Some ''0.1.0'' \<rparr> 0"

definition amp_drain_start :: "string option \<Rightarrow> int + amp_manifest" where
  "amp_drain_start file =
     (case amp_manifest_load file of
        (ok, m) \<Rightarrow> if \<not> ok then Inl 1 else if am_abi_version m \<noteq> AMP_ABI_VERSION then Inl 1 else Inr m)"

text \<open>One iteration of the loop: build, and push what was built.  The answer of the push is only
  printed.\<close>

definition amp_drain_pass :: "(string \<Rightarrow> string option) \<Rightarrow> grpc_world \<Rightarrow> http_world \<Rightarrow> otlp_proc \<Rightarrow> amp_manifest \<Rightarrow>
    amp_ring \<Rightarrow> ((bytes \<times> int option) option \<times> amp_ring) option" where
  "amp_drain_pass getenv gw hw pr m r =
     (case amp_drain_build pr r m AMP_DRAIN_BUFSZ of
        None \<Rightarrow> None
      | Some (buf, nd, r') \<Rightarrow>
          Some ((case buf of
                   Some b \<Rightarrow>
                     if length b > 0 \<and> nd > 0
                     then Some (b, otlp_transport_send getenv gw hw (am_endpoint m) ''/v1/logs''
                            ''/opentelemetry.proto.collector.logs.v1.LogsService/Export'' ''application/x-protobuf'' b)
                     else None
                 | None \<Rightarrow> None), r'))"

fun drain_loop :: "(string \<Rightarrow> string option) \<Rightarrow> (nat \<Rightarrow> grpc_world) \<Rightarrow> (nat \<Rightarrow> http_world) \<Rightarrow> otlp_proc \<Rightarrow> amp_manifest \<Rightarrow>
    nat \<Rightarrow> amp_ring \<Rightarrow> ((bytes \<times> int option) list \<times> amp_ring) option" where
  "drain_loop getenv gw hw pr m 0 r = Some ([], r)"
| "drain_loop getenv gw hw pr m (Suc k) r =
     (case amp_drain_pass getenv (gw k) (hw k) pr m r of
        None \<Rightarrow> None
      | Some (pushed, r') \<Rightarrow>
          map_option (\<lambda>(ps, r''). ((case pushed of Some p \<Rightarrow> p # ps | None \<Rightarrow> ps), r''))
            (drain_loop getenv gw hw pr m k r'))"

subsection \<open>Sizes\<close>

text \<open>Bounds on the encoded sizes, enough to show that a batch always fits the drain's buffer.\<close>

lemma length_leb: "n < 128 ^ Suc k \<Longrightarrow> length (leb n) \<le> Suc k"
proof (induction k arbitrary: n)
  case 0
  then show ?case by (simp add: leb_small)
next
  case (Suc k)
  then have "n div 128 < 128 ^ Suc k" by (simp add: div_less_iff_less_mult mult.commute)
  from Suc.IH [OF this] show ?case by (cases "n < 128") (simp_all add: leb_small leb_big)
qed

lemma length_leb_small: "n < 128 \<Longrightarrow> length (leb n) = 1"
  by (simp add: leb_small)

lemma length_wire_len:
  "t < 16 \<Longrightarrow> length bs < 2000000 \<Longrightarrow> length (wire_bytes (t, W_len bs)) \<le> 4 + length bs"
  using length_leb [of "length bs" 2] by (simp add: length_leb_small)

lemma length_leb_u64: "length (leb (unat (v :: u64))) \<le> 10"
proof -
  have "unat v < 128 ^ Suc 9" using unat_less [of v] by (simp add: less_trans)
  then show ?thesis using length_leb [of "unat v" 9] by simp
qed

lemma length_sing:
  "t < 15 \<Longrightarrow> length (fields_bytes (sing_wire t LT_FIXED64 v)) \<le> 9"
  "t < 15 \<Longrightarrow> length (fields_bytes (sing_wire t LT_UVARINT v)) \<le> 11"
  using length_leb_u64 [of v] by (simp_all add: sing_wire_def length_leb_small)

lemma length_attr_tag:
  assumes "length k < 1000" "length v < 1000" "t < 16"
  shows "length (fields_bytes (attrs_wire t [(k, String_value v)])) \<le> length k + length v + 16"
proof -
  let ?any = "fields_bytes (any_wire (String_value v))"
  let ?kv = "fields_bytes (kv_wire (k, String_value v))"
  have a: "length ?any \<le> 4 + length v" using length_wire_len [of 1 "str_bytes v"] assms by simp
  have "length ?kv \<le> (4 + length k) + (4 + length ?any)"
    using length_wire_len [of 1 "str_bytes k"] length_wire_len [of 2 ?any] a assms
    by (simp add: kv_wire_def del: any_wire.simps)
  then show ?thesis using length_wire_len [of t ?kv] a assms by (simp add: del: any_wire.simps)
qed

lemma length_attr:
  "length k < 1000 \<Longrightarrow> length v < 1000 \<Longrightarrow> length (fields_bytes (attrs_wire 1 [(k, String_value v)])) \<le> length k + length v + 16"
  by (rule length_attr_tag) simp_all

lemma length_attrs:
  assumes "\<forall>(k, v) \<in> set kvs. length k < 1000 \<and> length v < 1000"
  shows "length (fields_bytes (attrs_wire 1 (map (\<lambda>(k, v). (k, String_value v)) kvs)))
    \<le> sum_list (map (\<lambda>(k, v). length k + length v + 16) kvs)"
  using assms
proof (induction kvs)
  case (Cons kv kvs)
  obtain k v where kv: "kv = (k, v)" by (cases kv)
  have "length (fields_bytes (attrs_wire 1 [(k, String_value v)])) \<le> length k + length v + 16"
    by (rule length_attr) (use Cons.prems kv in auto)
  then show ?case using Cons by (simp add: kv)
qed simp

lemma kv_list_bounds: "kv \<in> set (kv_list p room) \<Longrightarrow> length (kv_key kv) < KV_KEY_CAP \<and> length (kv_val kv) < KV_VAL_CAP"
proof (induction p room rule: kv_list.induct)
  case (1 p room)
  let ?n = "drop 1 (c_rest (skip_sep p) '','')"
  show ?case
  proof (cases "p = [] \<or> room = 0 \<or> skip_sep p = []")
    case True
    then show ?thesis using 1(3) by (subst (asm) kv_list.simps) (auto simp: Let_def split: if_splits)
  next
    case False
    show ?thesis
    proof (cases "kv_segment (c_span (skip_sep p) '','')")
      case None
      have "kv_list p room = kv_list ?n room" using None False by (subst kv_list.simps) (simp add: Let_def)
      then show ?thesis using 1(1) [OF _ refl _ refl refl None] 1(3) False by simp
    next
      case (Some kv')
      then have b: "length (kv_key kv') < KV_KEY_CAP \<and> length (kv_val kv') < KV_VAL_CAP"
        by (auto simp: kv_segment_def Let_def KV_KEY_CAP_def KV_VAL_CAP_def c_trunc_length split: option.splits if_splits)
      have "kv = kv' \<or> kv \<in> set (kv_list ?n (room - 1))"
        using 1(3) False Some by (subst (asm) kv_list.simps) (auto simp: Let_def)
      then show ?thesis using b 1(2) [OF _ refl _ refl refl Some] False by auto
    qed
  qed
qed

lemma env_attrs_length:
  "length (fields_bytes (attrs_wire 1 (map (\<lambda>kv. (kv_key kv, String_value (kv_val kv)))
     (otlp_env_kv_list env OTLP_ENV_RESOURCE_ATTRS_MAX)))) \<le> 16 * 654"
proof -
  let ?l = "otlp_env_kv_list env OTLP_ENV_RESOURCE_ATTRS_MAX"
  have b: "length (kv_key kv) \<le> 127 \<and> length (kv_val kv) \<le> 511" if "kv \<in> set ?l" for kv
  proof -
    have "kv \<in> set (kv_list (the env) OTLP_ENV_RESOURCE_ATTRS_MAX)"
      using that by (auto simp: otlp_env_kv_list_def split: option.splits if_splits)
    from kv_list_bounds [OF this] show ?thesis by (simp add: KV_KEY_CAP_def KV_VAL_CAP_def)
  qed
  have n: "length ?l \<le> 16"
    using kv_list_length [of _ OTLP_ENV_RESOURCE_ATTRS_MAX]
    by (auto simp: otlp_env_kv_list_def OTLP_ENV_RESOURCE_ATTRS_MAX_def split: option.splits)
  let ?kvs = "map (\<lambda>kv. (kv_key kv, kv_val kv)) ?l"
  have "length (fields_bytes (attrs_wire 1 (map (\<lambda>(k, v). (k, String_value v)) ?kvs)))
      \<le> sum_list (map (\<lambda>(k, v). length k + length v + 16) ?kvs)"
    by (rule length_attrs) (use b in fastforce)
  also have "\<dots> \<le> sum_list (map (\<lambda>_. 654) ?kvs)"
    by (rule sum_list_mono) (use b in fastforce)
  also have "\<dots> \<le> 16 * 654" using n by (simp only: sum_list_triv length_map) simp
  finally show ?thesis by (simp add: comp_def)
qed

lemma instance_id_length: "length (otlp_service_instance_id pr) < 160"
  by (simp add: otlp_service_instance_id_def c_trunc_length Let_def split: option.split)

lemma resource_length:
  assumes "length (am_service_name m) < 64"
    and "res = \<lparr> res_name = Some (am_service_name m), res_version = Some ''0.1.0'' \<rparr>"
  shows "length (fields_bytes (attrs_wire 1 (resource_attrs pr res))) \<le> 11000"
proof -
  let ?f = "\<lambda>k v. length (fields_bytes (attrs_wire 1 [(k, String_value v)]))"
  have o: "length (fields_bytes (attrs_wire 1 (opt_attr k (Some v)))) \<le> length k + length v + 16"
    if "length k < 1000" "length v < 1000" for k v
    using length_attr [OF that] by (simp add: opt_attr_def nonempty_def)
  have "length (fields_bytes (attrs_wire 1 (opt_attr ''service.name'' (res_name res)))) \<le> 12 + 63 + 16"
    "length (fields_bytes (attrs_wire 1 (opt_attr ''service.version'' (res_version res)))) \<le> 15 + 5 + 16"
    using o [of "''service.name''" "am_service_name m"] o [of "''service.version''" "''0.1.0''"] assms by simp_all
  moreover have "?f ''service.instance.id'' (otlp_service_instance_id pr) \<le> 19 + 159 + 16"
    using length_attr [of "''service.instance.id''" "otlp_service_instance_id pr"] instance_id_length [of pr] by simp
  moreover have "?f ''telemetry.sdk.name'' ''spinel-ebpf'' \<le> 18 + 11 + 16" "?f ''telemetry.sdk.language'' ''ruby'' \<le> 22 + 4 + 16"
    "?f ''telemetry.sdk.version'' ''0'' \<le> 21 + 1 + 16"
    using length_attr [of "''telemetry.sdk.name''" "''spinel-ebpf''"] length_attr [of "''telemetry.sdk.language''" "''ruby''"]
      length_attr [of "''telemetry.sdk.version''" "''0''"] by simp_all
  ultimately show ?thesis
    using env_attrs_length [of "op_resource_attributes pr"]
    by (simp add: resource_attrs_def del: any_wire.simps wire_bytes.simps)
qed

lemma log_length: "length (fields_bytes (log_wire (log_value (drain_log e)))) \<le> 61"
proof -
  let ?any = "fields_bytes (any_wire (Int_value (rec_value e)))"
  have a: "length ?any \<le> 11" using length_leb_u64 [of "rec_value e"] by (simp add: length_leb_small)
  have w: "length (wire_bytes (5, W_len ?any)) \<le> 4 + length ?any"
    using a by (intro length_wire_len) simp_all
  show ?thesis
    using a w length_sing(1) [of 1 "evt_timestamp (rec_hdr e)"] length_sing(1) [of 11 "evt_timestamp (rec_hdr e)"]
    by (simp add: log_wire_def log_value_def drain_log_def nonempty_def str_or_def sing_wire_def length_leb_small
        del: any_wire.simps)
qed

lemma drain_request_length:
  assumes "length (am_service_name m) < 64" "length es \<le> AMP_DRAIN_MAX"
    and "res = \<lparr> res_name = Some (am_service_name m), res_version = Some ''0.1.0'' \<rparr>"
  shows "length (fields_bytes (request_wire log_wire
    (otlp_envelope pr res (Some ''spinel-amp-m7'') (map log_value (map drain_log es))))) \<le> 16000"
proof -
  let ?items = "map (\<lambda>x. (2, W_len (fields_bytes (log_wire x)))) (map log_value (map drain_log es))"
  let ?res = "fields_bytes (attrs_wire 1 (resource_attrs pr res))"
  let ?sc = "fields_bytes [(1, W_len (str_bytes ''spinel-amp-m7''))]"
  have i: "length (fields_bytes ?items) \<le> 65 * length es"
  proof (induction es)
    case (Cons e es)
    then show ?case using log_length [of e] length_wire_len [of 2 "fields_bytes (log_wire (log_value (drain_log e)))"] by simp
  qed simp
  have r: "length ?res \<le> 11000" by (rule resource_length [OF assms(1,3)])
  let ?sx = "fields_bytes ((1, W_len ?sc) # ?items)"
  have "length ?sc \<le> 15" by (simp add: length_leb_small)
  then have sx: "length ?sx \<le> 19 + 65 * length es" using i length_wire_len [of 1 ?sc] by simp
  then have sx': "length ?sx \<le> 4179" using assms(2) by (simp add: AMP_DRAIN_MAX_def)
  let ?rx = "fields_bytes [(1, W_len ?res), (2, W_len ?sx)]"
  have "length ?rx \<le> (4 + length ?res) + (4 + length ?sx)"
    using length_wire_len [of 1 ?res] length_wire_len [of 2 ?sx] r sx' by (simp del: wire_bytes.simps)
  then have rx: "length ?rx \<le> 15187" using r sx' by linarith
  have "length (wire_bytes (1, W_len ?rx)) \<le> 4 + length ?rx" using rx by (intro length_wire_len) simp_all
  then show ?thesis using rx unfolding request_wire_def otlp_envelope_def
    by (simp add: str_or_def del: wire_bytes.simps map_map)
qed

subsection \<open>One pass\<close>

text \<open>What a collector must find for a sample: the log record that OTLP prescribes for its time and value.\<close>

definition sample_log :: "u64 \<times> u64 \<Rightarrow> log_msg" where
  "sample_log x =
     \<lparr> lm_time = fst x, lm_observed = fst x, lm_severity = 9, lm_severity_text = ''INFO'',
       lm_body = Int_value (snd x), lm_event_name = ''amp.emit'' \<rparr>"

lemma drain_log_value: "log_value (drain_log e) = sample_log (amp_rec_key e)"
  by (simp add: log_value_def drain_log_def sample_log_def amp_rec_key_def str_or_def nonempty_def)

text \<open>What one build does on a well-formed ring.\<close>

lemma drain_build_wf:
  assumes "amp_ring_wf r" "rg_magic r = AMP_RING_MAGIC" "length (am_service_name m) < 64"
    and "es = take AMP_DRAIN_MAX (amp_ring_contents r)"
    and "res = \<lparr> res_name = Some (am_service_name m), res_version = Some ''0.1.0'' \<rparr>"
    and "rq = otlp_envelope pr res (Some ''spinel-amp-m7'') (map log_value (map drain_log es))"
    and "bs = fields_bytes (request_wire log_wire rq)"
  shows "amp_drain_build pr r m AMP_DRAIN_BUFSZ =
      Some (if es = [] then (Some [], 0, r) else (Some bs, length es, r \<lparr> rg_cons := rg_cons r + of_nat (length es) \<rparr>))"
    and "dec_request dec_log bs = Some rq"
proof -
  have l: "length es = min AMP_DRAIN_MAX (unat (rg_prod r - rg_cons r))" using assms(4) by (simp add: amp_ring_contents_def)
  have rd: "spsc_read (rg_slots r) (rg_capacity r) (rg_prod r) (rg_cons r) AMP_DRAIN_MAX =
      Some (es, rg_cons r + of_nat (length es))"
    using spsc_read_wf [OF assms(1) [unfolded amp_ring_wf_def], of AMP_DRAIN_MAX] assms(4) l by (simp add: amp_ring_contents_def)
  have "length es \<le> AMP_DRAIN_MAX" using l by simp
  then have bl: "length bs \<le> 16000" using drain_request_length [OF assms(3) _ assms(5)] assms(6,7) by simp
  then have "otlp_logs_build AMP_DRAIN_BUFSZ pr res (Some ''spinel-amp-m7'') (map drain_log es) = Some bs"
    using logs_build_wire [of pr res "Some ''spinel-amp-m7''" "map drain_log es" AMP_DRAIN_BUFSZ] assms(6,7)
    by (simp add: AMP_DRAIN_BUFSZ_def)
  then show "amp_drain_build pr r m AMP_DRAIN_BUFSZ =
      Some (if es = [] then (Some [], 0, r) else (Some bs, length es, r \<lparr> rg_cons := rg_cons r + of_nat (length es) \<rparr>))"
    using rd assms(2,5) by (simp add: amp_drain_build_def amp_ring_drain_logs_def)
  show "dec_request dec_log bs = Some rq" unfolding assms(7) by (rule dec_request_wire) (rule dec_log_wire)
qed

lemma ring_advance:
  assumes "amp_ring_wf r" "n \<le> length (amp_ring_contents r)"
  shows "amp_ring_wf (r \<lparr> rg_cons := rg_cons r + of_nat n \<rparr>)"
    "amp_ring_contents (r \<lparr> rg_cons := rg_cons r + of_nat n \<rparr>) = drop n (amp_ring_contents r)"
  using spsc_contents_drop [OF assms(1) [unfolded amp_ring_wf_def], of n] assms(2)
  by (simp_all add: amp_ring_wf_def amp_ring_contents_def)

lemma manifest_line_name: "length (am_service_name m) < 64 \<Longrightarrow> length (am_service_name (manifest_line l m)) < 64"
  by (simp add: manifest_line_def Let_def set_str_def c_trunc_length split: option.split)

lemma manifest_load_name: "amp_manifest_load f = (ok, m) \<Longrightarrow> length (am_service_name m) < 64"
proof -
  have "length (am_service_name (fold manifest_line ls m0)) < 64" if "length (am_service_name m0) < 64" for ls m0
    using that by (induction ls arbitrary: m0) (simp_all add: manifest_line_name)
  then show "amp_manifest_load f = (ok, m) \<Longrightarrow> length (am_service_name m) < 64"
    by (auto simp: amp_manifest_load_def set_str_def c_trunc_length Let_def split: option.splits)
qed

lemma drain_pass_wf:
  assumes "amp_ring_wf r" "rg_magic r = AMP_RING_MAGIC" "length (am_service_name m) < 64"
    and "es = take AMP_DRAIN_MAX (amp_ring_contents r)"
  shows "\<exists>p r'. amp_drain_pass getenv gw hw pr m r = Some (p, r') \<and> amp_ring_wf r' \<and> rg_magic r' = AMP_RING_MAGIC
    \<and> amp_ring_contents r' = drop AMP_DRAIN_MAX (amp_ring_contents r)
    \<and> (es = [] \<longrightarrow> p = None)
    \<and> (es \<noteq> [] \<longrightarrow> (\<exists>b a rq. p = Some (b, a) \<and> dec_request dec_log b = Some rq \<and> rq_items rq = map log_value (map drain_log es)))"
proof -
  define res where "res = \<lparr> res_name = Some (am_service_name m), res_version = Some ''0.1.0'' \<rparr>"
  define rq where "rq = otlp_envelope pr res (Some ''spinel-amp-m7'') (map log_value (map drain_log es))"
  define bs where "bs = fields_bytes (request_wire log_wire rq)"
  note b = drain_build_wf [OF assms(1-4) res_def rq_def bs_def]
  show ?thesis
  proof (cases "es = []")
    case True
    then have "amp_ring_contents r = []" using assms(4) by (simp add: AMP_DRAIN_MAX_def)
    then show ?thesis using b(1) True assms(1,2) by (auto simp: amp_drain_pass_def)
  next
    case False
    have le: "length es \<le> length (amp_ring_contents r)" using assms(4) by simp
    have d: "drop (length es) (amp_ring_contents r) = drop AMP_DRAIN_MAX (amp_ring_contents r)" using assms(4) by (simp add: min_def)
    have ne: "bs \<noteq> []" by (simp add: bs_def request_wire_def leb_small)
    have it: "rq_items rq = map log_value (map drain_log es)" by (simp add: rq_def otlp_envelope_def)
    let ?r = "r \<lparr> rg_cons := rg_cons r + of_nat (length es) \<rparr>"
    have "amp_drain_build pr r m AMP_DRAIN_BUFSZ = Some (Some bs, length es, ?r)" using b(1) False by simp
    then have "\<exists>a. amp_drain_pass getenv gw hw pr m r = Some (Some (bs, a), ?r)"
      using ne False by (simp add: amp_drain_pass_def)
    then obtain a where pass: "amp_drain_pass getenv gw hw pr m r = Some (Some (bs, a), ?r)" by blast
    have "amp_ring_wf ?r" "rg_magic ?r = AMP_RING_MAGIC" "amp_ring_contents ?r = drop AMP_DRAIN_MAX (amp_ring_contents r)"
      using ring_advance [OF assms(1) le] assms(2) d by simp_all
    with pass b(2) it False show ?thesis by blast
  qed
qed

lemma drain_loop_wf:
  assumes "amp_ring_wf r" "rg_magic r = AMP_RING_MAGIC" "length (am_service_name m) < 64"
    and "length (amp_ring_contents r) \<le> AMP_DRAIN_MAX * k"
  shows "\<exists>ps r' rqs. drain_loop getenv gw hw pr m k r = Some (ps, r') \<and> amp_ring_wf r' \<and> amp_ring_contents r' = []
    \<and> those (map (\<lambda>p. dec_request dec_log (fst p)) ps) = Some rqs
    \<and> concat (map rq_items rqs) = map log_value (map drain_log (amp_ring_contents r))"
  using assms(1,2,4)
proof (induction k arbitrary: r)
  case 0
  then have "amp_ring_contents r = []" by simp
  then show ?case using 0 by simp
next
  case (Suc k)
  define es where "es = take AMP_DRAIN_MAX (amp_ring_contents r)"
  obtain p r1 where p: "amp_drain_pass getenv (gw k) (hw k) pr m r = Some (p, r1)" "amp_ring_wf r1"
      "rg_magic r1 = AMP_RING_MAGIC" "amp_ring_contents r1 = drop AMP_DRAIN_MAX (amp_ring_contents r)"
      "es = [] \<longrightarrow> p = None"
      "es \<noteq> [] \<longrightarrow> (\<exists>b a rq. p = Some (b, a) \<and> dec_request dec_log b = Some rq \<and> rq_items rq = map log_value (map drain_log es))"
    using drain_pass_wf [OF Suc.prems(1,2) assms(3) es_def, of getenv "gw k" "hw k" pr] by (elim exE conjE) (rule that)
  have "length (amp_ring_contents r1) \<le> AMP_DRAIN_MAX * k" using p(4) Suc.prems(3) by simp
  from Suc.IH [OF p(2,3) this] obtain ps r2 rqs where i: "drain_loop getenv gw hw pr m k r1 = Some (ps, r2)" "amp_ring_wf r2"
      "amp_ring_contents r2 = []" "those (map (\<lambda>p. dec_request dec_log (fst p)) ps) = Some rqs"
      "concat (map rq_items rqs) = map log_value (map drain_log (amp_ring_contents r1))" by blast
  have sp: "map log_value (map drain_log es) @ map log_value (map drain_log (amp_ring_contents r1)) =
      map log_value (map drain_log (amp_ring_contents r))"
    unfolding es_def p(4) map_append [symmetric] append_take_drop_id ..
  show ?case
  proof (cases "es = []")
    case True
    then have "drain_loop getenv gw hw pr m (Suc k) r = Some (ps, r2)" using p(1,5) i(1) by simp
    then show ?thesis using i True sp by (intro exI [of _ ps] exI [of _ r2] exI [of _ rqs]) simp
  next
    case False
    then obtain b a rq where q: "p = Some (b, a)" "dec_request dec_log b = Some rq" "rq_items rq = map log_value (map drain_log es)"
      using p(6) by blast
    then have "drain_loop getenv gw hw pr m (Suc k) r = Some ((b, a) # ps, r2)" using p(1) i(1) by simp
    then show ?thesis using i q sp
      by (intro exI [of _ "(b, a) # ps"] exI [of _ r2] exI [of _ "rq # rqs"]) simp
  qed
qed

subsection \<open>Spans of a drained batch\<close>

lemma rec_spans_length [simp]: "length (rec_spans req es seed) = length es"
  by (induction es arbitrary: seed) (simp_all add: split_beta Let_def)

lemma rec_spans_nth:
  "i < length es \<Longrightarrow>
   gs_start (rec_spans req es seed ! i) = evt_timestamp (rec_hdr (es ! i))
   \<and> gs_end (rec_spans req es seed ! i) = evt_timestamp (rec_hdr (es ! i))
   \<and> gs_name (rec_spans req es seed ! i) = Some ''amp.emit'' \<and> gs_kind (rec_spans req es seed ! i) = 1
   \<and> (if in_window (gs_start req) (gs_end req) (es ! i)
      then gs_trace_id (rec_spans req es seed ! i) = gs_trace_id req \<and> gs_has_parent (rec_spans req es seed ! i)
         \<and> gs_parent_span_id (rec_spans req es seed ! i) = gs_span_id req
      else \<not> gs_has_parent (rec_spans req es seed ! i))"
proof (induction es arbitrary: seed i)
  case (Cons e es)
  then show ?case
    by (cases i) (auto simp: otlp_span_new_child_def otlp_span_new_root_def split_beta Let_def)
qed simp

lemma drain_trace_wf:
  assumes "amp_ring_wf r" "rg_magic r = AMP_RING_MAGIC" "es = take AMP_DRAIN_MAX (amp_ring_contents r)"
    and req: "req = req_span tid sid t0 t1 name"
    and "rq = otlp_envelope pr res (Some ''spinel-amp-m7'') (map generic_value (req # rec_spans req es seed))"
    and "bs = fields_bytes (request_wire span_wire rq)" "length bs < 2 ^ 64"
  shows "amp_ring_drain_trace pr r tid sid t0 t1 name cap res seed =
    Some (if length bs \<le> cap
          then (Some bs, length (filter (in_window t0 t1) es), r \<lparr> rg_cons := rg_cons r + of_nat (length es) \<rparr>)
          else (None, 0, r))"
proof -
  have l: "length es = min AMP_DRAIN_MAX (unat (rg_prod r - rg_cons r))" using assms(3) by (simp add: amp_ring_contents_def)
  have rd: "spsc_read (rg_slots r) (rg_capacity r) (rg_prod r) (rg_cons r) AMP_DRAIN_MAX =
      Some (es, rg_cons r + of_nat (length es))"
    using spsc_read_wf [OF assms(1) [unfolded amp_ring_wf_def], of AMP_DRAIN_MAX] assms(3) l by (simp add: amp_ring_contents_def)
  have "otlp_traces_generic_build_multi cap pr res (Some ''spinel-amp-m7'') (req # rec_spans req es seed) =
      (if length bs \<le> cap then Some bs else None)"
    using traces_build_wire(3) [of pr res "Some ''spinel-amp-m7''" "map generic_value (req # rec_spans req es seed)", OF _ refl]
      assms(5-7) by simp
  then show ?thesis using rd assms(2) by (simp add: amp_ring_drain_trace_def Let_def flip: req)
qed

subsection \<open>Reading back the manifest\<close>

definition line_ok :: "string \<Rightarrow> bool" where
  "line_ok l \<longleftrightarrow> CHR 0x0A \<notin> set l \<and> length l \<le> 254"

lemma fgets_print_lines: "\<forall>l \<in> set ls. line_ok l \<Longrightarrow> fgets_all 256 (print_lines ls) = map (\<lambda>l. l @ [CHR 0x0A]) ls"
proof (induction ls)
  case Nil
  then show ?case by (simp add: print_lines_def fgets_all.simps)
next
  case (Cons l ls)
  then have l: "CHR 0x0A \<notin> set l" "length l \<le> 254" by (simp_all add: line_ok_def)
  let ?s = "l @ CHR 0x0A # print_lines ls"
  have t: "takeWhile (\<lambda>c. c \<noteq> CHR 0x0A) ?s = l" using l(1) by (subst takeWhile_append2) auto
  have "fgets_all 256 ?s = (l @ [CHR 0x0A]) # fgets_all 256 (print_lines ls)"
    by (subst fgets_all.simps) (use l(2) in \<open>simp add: t Let_def\<close>)
  then show ?case using Cons by (simp add: print_lines_def)
qed

lemma based_digit_dec: "is_digit c \<Longrightarrow> based_digit 10 c \<and> hexval c = int (digit_val c)"
  by (auto simp: based_digit_def hexval_def is_digit_def digit_val_def Let_def)

lemma based_val_dec:
  assumes "list_all is_digit ds"
  shows "based_val 10 ds = digits_val ds"
proof -
  have tw: "takeWhile (based_digit 10) ds = ds"
    using assms based_digit_dec by (auto simp: takeWhile_eq_all_conv list_all_iff)
  have "fold (\<lambda>c n. n * 10 + nat (hexval c)) ds a = foldl (\<lambda>a c. a * 10 + digit_val c) a ds" for a
    using assms by (induction ds arbitrary: a) (simp_all add: based_digit_dec)
  then show ?thesis unfolding based_val_def digits_val_def tw .
qed

lemma dec_of_nonzero: "0 < n \<Longrightarrow> hd (dec_of n) \<noteq> CHR ''0''"
proof (induction n rule: dec_of.induct)
  case (1 n)
  show ?case
  proof (cases "n < 10")
    case True
    have "(of_char (digit_char n) :: nat) = 48 + n" using True by (simp add: digit_char_def)
    moreover have "(of_char CHR ''0'' :: nat) = 48" by simp
    ultimately have "digit_char n \<noteq> CHR ''0''" using 1(2) by (metis add_cancel_right_right less_irrefl)
    then show ?thesis using True by (simp add: dec_of_lt10)
  next
    case False
    then have "hd (dec_of (n div 10)) \<noteq> CHR ''0''" using 1(1) by simp
    then show ?thesis using False dec_of_props [of "n div 10"] by (simp add: dec_of_ge10)
  qed
qed

lemma strtoul_dec: "n < 2 ^ 64 \<Longrightarrow> c_strtoul (dec_of n) = of_nat n"
proof -
  assume n: "n < 2 ^ 64"
  obtain c cs where d: "dec_of n = c # cs" using dec_of_props [of n] by (cases "dec_of n") auto
  have p: "list_all is_digit (dec_of n)" "digits_val (dec_of n) = n" "\<not> is_space c" "c \<noteq> CHR ''-''" "c \<noteq> CHR ''+''"
    using dec_of_props [of n] d by auto
  have "strtoul_digits (dec_of n) = n"
  proof (cases "n = 0")
    case True
    have "dec_of 0 = ''0''" by code_simp
    then have "dec_of n = ''0''" using True by simp
    then show ?thesis using True by (simp add: strtoul_digits_def c_starts_def based_val_def based_digit_def hexval_def Let_def)
  next
    case False
    then have "c \<noteq> CHR ''0''" using dec_of_nonzero [of n] d by simp
    then show ?thesis using based_val_dec [OF p(1)] p(2) d by (simp add: strtoul_digits_def c_starts_def)
  qed
  then show ?thesis using n p(3-5) d by (simp add: c_strtoul_def c_starts_def Let_def)
qed

lemma dec_of_length: "n < 10 ^ Suc k \<Longrightarrow> length (dec_of n) \<le> Suc k"
proof (induction k arbitrary: n)
  case (Suc k)
  then have "n div 10 < 10 ^ Suc k" by (simp add: div_less_iff_less_mult mult.commute)
  from Suc.IH [OF this] show ?case by (cases "n < 10") (simp_all add: dec_of_lt10 dec_of_ge10)
qed (simp add: dec_of_lt10)

lemma dec_of_line: "length (dec_of (unat (v :: u32))) \<le> 10 \<and> CHR 0x0A \<notin> set (dec_of (unat v))"
proof -
  have "unat v < 10 ^ Suc 9" using unat_less [of v] by simp
  then have "length (dec_of (unat v)) \<le> 10" using dec_of_length [of "unat v" 9] by simp
  moreover have "\<not> is_digit CHR 0x0A" by (simp add: is_digit_def)
  ultimately show ?thesis using dec_of_props [of "unat v"] by (auto simp: list_all_iff)
qed

lemma strtoul_u32: "ucast (c_strtoul (dec_of (unat (v :: u32)))) = v"
proof -
  have "unat v < 2 ^ 32" using unat_less [of v] by simp
  then have "c_strtoul (dec_of (unat v)) = of_nat (unat v)" by (intro strtoul_dec) simp
  then show ?thesis using \<open>unat v < 2 ^ 32\<close> by (simp add: word_unat_eq_iff unsigned_ucast_eq take_bit_nat_def unat_of_nat)
qed

lemma manifest_line_key:
  assumes "line_ok (k @ CHR ''='' # v)" "CHR ''='' \<notin> set k" "k \<noteq> []" "hd k \<noteq> CHR ''#''"
  shows "manifest_line ((k @ CHR ''='' # v) @ [CHR 0x0A]) m =
    (if k = ''service.name'' then m \<lparr> am_service_name := set_str 64 v \<rparr>
     else if k = ''otlp.endpoint'' then m \<lparr> am_endpoint := set_str 160 v \<rparr>
     else if k = ''abi_version'' then m \<lparr> am_abi_version := ucast (c_strtoul v) \<rparr>
     else if k = ''ivars_size'' then m \<lparr> am_ivars_size := ucast (c_strtoul v) \<rparr>
     else if k = ''trigger'' then m \<lparr> am_n_triggers := am_n_triggers m + 1 \<rparr>
     else m)"
proof -
  let ?l = "k @ CHR ''='' # v"
  have n: "CHR 0x0A \<notin> set ?l" using assms(1) by (simp add: line_ok_def)
  then have t: "takeWhile (\<lambda>c. c \<noteq> CHR 0x0A) (?l @ [CHR 0x0A]) = ?l" by (subst takeWhile_append2) auto
  obtain c cs where k: "k = c # cs" using assms(3) by (cases k) auto
  have c: "c \<noteq> CHR ''#''" "c \<noteq> CHR 0x0A" using k assms(4) n by auto
  have "\<not> (c_starts (?l @ [CHR 0x0A]) ''#'' \<or> c_starts (?l @ [CHR 0x0A]) [CHR 0x0A])" using c k by (simp add: c_starts_def)
  moreover have "c_strchr ?l CHR ''='' = Some (length k)" using assms(2) by (rule c_strchr_append)
  ultimately show ?thesis unfolding manifest_line_def Let_def t by simp
qed

lemma trigger_lines:
  assumes "\<forall>l \<in> set (map trigger_line ts). line_ok l"
  shows "fold manifest_line (map (\<lambda>l. l @ [CHR 0x0A]) (map trigger_line ts)) m =
    m \<lparr> am_n_triggers := am_n_triggers m + of_nat (length ts) \<rparr>"
  using assms
proof (induction ts arbitrary: m)
  case (Cons t ts)
  let ?v = "at_fn t @ '' kind='' @ show_int (at_kind t) @ '' param='' @ dec_of (unat (at_param t))"
  have e: "trigger_line t = ''trigger'' @ CHR ''='' # ?v" by (simp add: trigger_line_def)
  have "manifest_line (trigger_line t @ [CHR 0x0A]) m = m \<lparr> am_n_triggers := am_n_triggers m + 1 \<rparr>"
    unfolding e by (subst manifest_line_key) (use Cons.prems e in simp_all)
  then show ?case using Cons by (simp add: add.assoc add.commute)
qed simp

subsection \<open>Properties\<close>

text \<open>C11: the drain keeps up.  On a well-formed ring every pass of the loop succeeds, because a batch of
  64 records always fits the buffer whatever the manifest and the environment hold; after enough
  passes the ring is empty, and the requests handed to the transport decode to one log record per ring
  record, with its time and value, exactly once and in order.  This holds whatever the transport answers: a push that fails is not repeated, and
  its records are gone.\<close>

theorem drain_loop_delivers:
  assumes "amp_ring_wf r" "rg_magic r = AMP_RING_MAGIC" "amp_manifest_load file = (True, m)"
    and "length (amp_ring_contents r) \<le> AMP_DRAIN_MAX * k"
  shows "\<exists>ps r' rqs. drain_loop getenv gw hw pr m k r = Some (ps, r') \<and> amp_ring_contents r' = []
    \<and> those (map (\<lambda>p. dec_request dec_log (fst p)) ps) = Some rqs
    \<and> concat (map rq_items rqs) = map sample_log (map amp_rec_key (amp_ring_contents r))"
  using drain_loop_wf [OF assms(1,2) manifest_load_name [OF assms(3)] assms(4), of getenv gw hw pr]
  by (simp add: drain_log_value comp_def) blast

definition demo_full_ring :: amp_ring where
  "demo_full_ring = \<lparr> rg_magic = AMP_RING_MAGIC, rg_version = 1, rg_capacity = 2, rg_rec_size = 24, rg_prod = 3, rg_cons = 1,
     rg_pad = (0, 0), rg_slots = [amp_evt_rec 8 30, amp_evt_rec 7 20] \<rparr>"

lemma demo_full_ring_ok:
  "amp_ring_wf demo_full_ring" "amp_ring_contents demo_full_ring = [amp_evt_rec 7 20, amp_evt_rec 8 30]"
  by (simp_all add: amp_ring_wf_def spsc_wf_def demo_full_ring_def amp_ring_contents_def spsc_contents_def upt_rec)

theorem drain_loop_delivers_witness:
  "\<exists>ps r' rqs. drain_loop (\<lambda>_. None) (\<lambda>_. demo_grpc) (\<lambda>_. demo_world) demo_proc (snd (amp_manifest_load (Some ''service.name=x''))) 1 demo_full_ring = Some (ps, r')
     \<and> amp_ring_contents r' = [] \<and> those (map (\<lambda>p. dec_request dec_log (fst p)) ps) = Some rqs
     \<and> concat (map rq_items rqs) = [sample_log (7, 20), sample_log (8, 30)]"
proof -
  have "amp_manifest_load (Some ''service.name=x'') = (True, snd (amp_manifest_load (Some ''service.name=x'')))"
    by (simp add: amp_manifest_load_def Let_def)
  from drain_loop_delivers [OF demo_full_ring_ok(1) _ this, of 1 "\<lambda>_. None" "\<lambda>_. demo_grpc" "\<lambda>_. demo_world" demo_proc]
  show ?thesis by (simp add: demo_full_ring_ok(2) AMP_DRAIN_MAX_def) (simp add: demo_full_ring_def)
qed

text \<open>C39: correlation with a request.  Draining into a trace gives the request span first, with its ids
  and times, and then one span per record, in order and at the record's time: a record inside the
  request's window is a child of the request, in its trace; any other has no parent.  The requests decode
  to exactly these spans, and the consumer index moves only if the encoding fit.\<close>

theorem drain_trace_correlates:
  assumes "amp_ring_wf r" "rg_magic r = AMP_RING_MAGIC" "es = take AMP_DRAIN_MAX (amp_ring_contents r)"
    and "spans = req_span tid sid t0 t1 name # rec_spans (req_span tid sid t0 t1 name) es seed"
    and "rq = otlp_envelope pr res (Some ''spinel-amp-m7'') (map generic_value spans)"
    and "bs = fields_bytes (request_wire span_wire rq)" "length bs < 2 ^ 64"
  shows "amp_ring_drain_trace pr r tid sid t0 t1 name cap res seed =
      Some (if length bs \<le> cap
            then (Some bs, length (filter (\<lambda>e. t0 \<le> evt_timestamp (rec_hdr e) \<and> evt_timestamp (rec_hdr e) \<le> t1) es),
              r \<lparr> rg_cons := rg_cons r + of_nat (length es) \<rparr>)
            else (None, 0, r))
    \<and> dec_request dec_span bs = Some rq \<and> length (rq_items rq) = Suc (length es)
    \<and> sm_trace_id (rq_items rq ! 0) = tid \<and> sm_span_id (rq_items rq ! 0) = sid \<and> sm_parent (rq_items rq ! 0) = None
    \<and> sm_start (rq_items rq ! 0) = t0 \<and> sm_end (rq_items rq ! 0) = t1
    \<and> (\<forall>i < length es. sm_start (rq_items rq ! Suc i) = evt_timestamp (rec_hdr (es ! i))
        \<and> sm_end (rq_items rq ! Suc i) = evt_timestamp (rec_hdr (es ! i)) \<and> sm_name (rq_items rq ! Suc i) = ''amp.emit''
        \<and> (if t0 \<le> evt_timestamp (rec_hdr (es ! i)) \<and> evt_timestamp (rec_hdr (es ! i)) \<le> t1
           then sm_trace_id (rq_items rq ! Suc i) = tid \<and> sm_parent (rq_items rq ! Suc i) = Some sid
           else sm_parent (rq_items rq ! Suc i) = None))"
proof -
  define req where "req = req_span tid sid t0 t1 name"
  have q: "gs_trace_id req = tid" "gs_span_id req = sid" "gs_start req = t0" "gs_end req = t1" "\<not> gs_has_parent req"
    by (simp_all add: req_def req_span_def span_zero_def)
  have s: "spans = req # rec_spans req es seed" using assms(4) by (simp add: req_def)
  have i: "rq_items rq = map generic_value spans" using assms(5) by (simp add: otlp_envelope_def)
  have "dec_request dec_span bs = Some rq" unfolding assms(6) by (rule dec_request_wire) (rule dec_span_wire)
  moreover have "rq_items rq ! Suc i = generic_value (rec_spans req es seed ! i)" if "i < length es" for i
    using that i s by simp
  moreover note drain_trace_wf [OF assms(1-3) req_def assms(5) [unfolded s] assms(6,7)] rec_spans_nth [of _ es req seed]
  ultimately show ?thesis using i s q by (simp add: generic_value_def in_window_def [abs_def] str_or_def)
qed

lemma length_put_u64 [simp]: "length (put_u64_be v) = 8"
  by (simp add: put_u64_be_def length_enc_be)

lemma span_wire_size:
  assumes "length (sm_trace_id m) < 100" "length (sm_span_id m) < 100" "\<And>p. sm_parent m = Some p \<Longrightarrow> length p < 100"
    and "length (sm_name m) < 100" "length (fields_bytes (attrs_wire 9 (sm_attrs m))) < 1000"
  shows "length (fields_bytes (span_wire m)) < 1600"
proof -
  have k: "length (fields_bytes (sing_wire 6 LT_UVARINT (ucast (sm_kind m)))) \<le> 11"
    "length (fields_bytes (sing_wire 7 LT_FIXED64 (sm_start m))) \<le> 9" "length (fields_bytes (sing_wire 8 LT_FIXED64 (sm_end m))) \<le> 9"
    by (simp_all add: length_sing)
  have "length (fields_bytes (case sm_parent m of Some p \<Rightarrow> [(4, W_len p)] | None \<Rightarrow> [])) \<le> 104"
  proof (cases "sm_parent m")
    case (Some p)
    then have "length p < 100" using assms(3) by blast
    then show ?thesis using Some length_wire_len [of 4 p] by (simp del: wire_bytes.simps)
  qed simp
  moreover have "length (fields_bytes (if sm_error m then [(15, W_len (fields_bytes [(3, W_varint 2)]))] else [])) \<le> 4"
    by (simp add: length_leb_small)
  ultimately show ?thesis
    using k length_wire_len [of 1 "sm_trace_id m"] length_wire_len [of 2 "sm_span_id m"] length_wire_len [of 5 "str_bytes (sm_name m)"] assms
    by (simp add: span_wire_def del: wire_bytes.simps)
qed

lemma request_size:
  assumes "length (fields_bytes (attrs_wire 1 ra)) < 12000" "length scope < 100" "\<And>x. x \<in> set items \<Longrightarrow> length (fields_bytes (w x)) < 1600"
    and "length items \<le> 65"
  shows "length (fields_bytes (request_wire w \<lparr> rq_resource = ra, rq_scope = scope, rq_items = items \<rparr>)) < 200000"
proof -
  let ?items = "map (\<lambda>x. (2, W_len (fields_bytes (w x)))) items"
  let ?res = "fields_bytes (attrs_wire 1 ra)"
  let ?sc = "fields_bytes [(1, W_len (str_bytes scope))]"
  have i: "length (fields_bytes ?items) \<le> 1604 * length items" using assms(3)
  proof (induction items)
    case (Cons x xs)
    then have "length (fields_bytes (w x)) < 1600" by simp
    then have "length (wire_bytes (2, W_len (fields_bytes (w x)))) \<le> 1604"
      using length_wire_len [of 2 "fields_bytes (w x)"] by (simp del: wire_bytes.simps)
    then show ?case using Cons by (simp del: wire_bytes.simps)
  qed simp
  let ?sx = "fields_bytes ((1, W_len ?sc) # ?items)"
  have "length ?sc \<le> 104" using length_wire_len [of 1 "str_bytes scope"] assms(2) by (simp del: wire_bytes.simps)
  then have sx: "length ?sx \<le> 110000" using i length_wire_len [of 1 ?sc] assms(4) by (simp del: wire_bytes.simps)
  let ?rx = "fields_bytes [(1, W_len ?res), (2, W_len ?sx)]"
  have rx: "length ?rx \<le> 130000"
    using length_wire_len [of 1 ?res] length_wire_len [of 2 ?sx] assms(1) sx by (simp del: wire_bytes.simps)
  have "length (wire_bytes (1, W_len ?rx)) \<le> 4 + length ?rx" using rx by (intro length_wire_len) simp_all
  then show ?thesis using rx unfolding request_wire_def by (simp del: wire_bytes.simps)
qed

lemma demo_resource_size: "length (fields_bytes (attrs_wire 1 (resource_attrs demo_proc demo_resource))) < 300"
  by code_simp

lemma rec_spans_shape:
  "s \<in> set (rec_spans req es seed) \<Longrightarrow>
   (gs_trace_id s = gs_trace_id req \<or> length (gs_trace_id s) = 16) \<and> length (gs_span_id s) = 8
   \<and> (gs_has_parent s \<longrightarrow> gs_parent_span_id s = gs_span_id req) \<and> gs_name s = Some ''amp.emit''
   \<and> (\<exists>v. length v < 512 \<and> gs_attrs s = [\<lparr> kv_key = ''amp.value'', kv_val = v \<rparr>])"
proof (induction es arbitrary: seed)
  case (Cons e es)
  let ?v = "c_trunc KV_VAL_CAP (show_int (sint (rec_value e)))"
  have "length ?v < 512" by (simp add: KV_VAL_CAP_def c_trunc_length)
  then show ?case using Cons
    by (auto simp: otlp_span_new_child_def otlp_span_new_root_def split_beta Let_def split: if_splits)
qed simp

lemma demo_trace_size:
  "length (fields_bytes (request_wire span_wire (otlp_envelope demo_proc demo_resource (Some ''spinel-amp-m7'')
     (map generic_value (req_span [1] [2] 7 7 None # rec_spans (req_span [1] [2] 7 7 None) [amp_evt_rec 7 20, amp_evt_rec 8 30] 5))))) < 200000"
proof -
  let ?req = "req_span [1] [2] 7 7 None"
  have a: "length (fields_bytes (attrs_wire 9 [(''amp.value'', String_value s)])) < 1000" if "length s < 512" for s
    using length_attr_tag [of "''amp.value''" s 9] that by (simp del: attrs_wire_simps)
  have rs: "length (fields_bytes (span_wire (generic_value s))) < 1600" if "s \<in> set (rec_spans ?req es 5)" for s es
  proof -
    note sh = rec_spans_shape [OF that]
    then obtain v where v: "length v < 512" "gs_attrs s = [\<lparr> kv_key = ''amp.value'', kv_val = v \<rparr>]" by blast
    have "sm_attrs (generic_value s) = (if v = [] then [] else [(''amp.value'', String_value v)])"
      by (simp add: generic_value_def v(2))
    then have "length (fields_bytes (attrs_wire 9 (sm_attrs (generic_value s)))) < 1000" using a [OF v(1)] by simp
    then show ?thesis using sh
      by (intro span_wire_size) (auto simp: generic_value_def req_span_def str_or_def dest!: arg_cong [where f = length] split: if_splits)
  qed
  have "length (fields_bytes (span_wire (generic_value ?req))) < 1600"
    by (rule span_wire_size) (simp_all add: generic_value_def req_span_def span_zero_def str_or_def)
  then show ?thesis unfolding otlp_envelope_def
    using demo_resource_size rs by (intro request_size) (auto simp: str_or_def simp del: rec_spans.simps)
qed

theorem drain_trace_correlates_witness:
  "\<exists>bs r'. amp_ring_drain_trace demo_proc demo_full_ring [1] [2] 7 7 None 200000 demo_resource 5 = Some (Some bs, 1, r')
     \<and> dec_request dec_span bs \<noteq> None"
proof -
  define es where "es = [amp_evt_rec 7 20, amp_evt_rec 8 30]"
  define spans where "spans = req_span [1] [2] 7 7 None # rec_spans (req_span [1] [2] 7 7 None) es 5"
  define rq where "rq = otlp_envelope demo_proc demo_resource (Some ''spinel-amp-m7'') (map generic_value spans)"
  define bs where "bs = fields_bytes (request_wire span_wire rq)"
  have e: "es = take AMP_DRAIN_MAX (amp_ring_contents demo_full_ring)"
    by (simp add: es_def demo_full_ring_ok AMP_DRAIN_MAX_def)
  have w: "length (filter (\<lambda>e. 7 \<le> evt_timestamp (rec_hdr e) \<and> evt_timestamp (rec_hdr e) \<le> 7) es) = 1" unfolding es_def by code_simp
  have mg: "rg_magic demo_full_ring = AMP_RING_MAGIC" by (simp add: demo_full_ring_def)
  have len: "length bs < 200000" using demo_trace_size unfolding bs_def rq_def spans_def es_def .
  then have l64: "length bs < 2 ^ 64" by simp
  note d = drain_trace_correlates [OF demo_full_ring_ok(1) mg e spans_def rq_def bs_def l64, of 200000]
  have "amp_ring_drain_trace demo_proc demo_full_ring [1] [2] 7 7 None 200000 demo_resource 5 =
      Some (Some bs, 1, demo_full_ring \<lparr> rg_cons := rg_cons demo_full_ring + of_nat (length es) \<rparr>)"
    using conjunct1 [OF d] len w by simp
  moreover have "dec_request dec_span bs = Some rq" using d by blast
  ultimately show ?thesis by auto
qed

text \<open>C40: the manifest round trip.  What the command line writes is what the drain reads: the first 63
  characters of the service name, the first 159 of the endpoint, the ABI version, the ivar size and the
  number of triggers, provided the board, service, endpoint and trigger lines hold no newline
  and are at most 254 characters long.\<close>

theorem manifest_roundtrip:
  assumes "\<forall>l \<in> {''board='' @ board, ''service.name='' @ service, ''otlp.endpoint='' @ endpoint} \<union> set (map trigger_line ts). line_ok l"
  shows "amp_manifest_load (Some (write_amp_manifest board service endpoint abi ivars ts)) =
    (True, \<lparr> am_service_name = take 63 service, am_endpoint = take 159 endpoint, am_abi_version = abi,
             am_ivars_size = ivars, am_n_triggers = of_nat (length ts) \<rparr>)"
proof -
  let ?dep = "[''# spinel-ebpf amp manifest'', ''board='' @ board, ''service.name='' @ service, ''otlp.endpoint='' @ endpoint]"
  let ?abi = "''abi_version='' @ dec_of (unat abi)"
  let ?ivars = "''ivars_size='' @ dec_of (unat ivars)"
  have ok: "line_ok ?abi" "line_ok ?ivars" "line_ok ''# spinel-ebpf amp manifest''"
    using dec_of_line [of abi] dec_of_line [of ivars] by (simp_all add: line_ok_def)
  have "write_amp_manifest board service endpoint abi ivars ts = print_lines (?dep @ [?abi, ?ivars] @ map trigger_line ts)"
    by (simp add: write_amp_manifest_def manifest_dump_lines_def print_lines_def)
  moreover have "\<forall>l \<in> set (?dep @ [?abi, ?ivars] @ map trigger_line ts). line_ok l" using assms ok by auto
  ultimately have ls: "fgets_all 256 (write_amp_manifest board service endpoint abi ivars ts) =
      map (\<lambda>l. l @ [CHR 0x0A]) ?dep @ map (\<lambda>l. l @ [CHR 0x0A]) [?abi, ?ivars] @ map (\<lambda>l. l @ [CHR 0x0A]) (map trigger_line ts)"
    using fgets_print_lines by simp
  have cm: "manifest_line (''# spinel-ebpf amp manifest'' @ [CHR 0x0A]) m = m" for m
    by (simp add: manifest_line_def c_starts_def)
  have kl: "manifest_line ((''board='' @ board) @ [CHR 0x0A]) m = m"
    "manifest_line ((''service.name='' @ service) @ [CHR 0x0A]) m = m \<lparr> am_service_name := set_str 64 service \<rparr>"
    "manifest_line ((''otlp.endpoint='' @ endpoint) @ [CHR 0x0A]) m = m \<lparr> am_endpoint := set_str 160 endpoint \<rparr>"
    "manifest_line (?abi @ [CHR 0x0A]) m = m \<lparr> am_abi_version := abi \<rparr>"
    "manifest_line (?ivars @ [CHR 0x0A]) m = m \<lparr> am_ivars_size := ivars \<rparr>" for m
    using manifest_line_key [of "''board''" board m] manifest_line_key [of "''service.name''" service m]
      manifest_line_key [of "''otlp.endpoint''" endpoint m] manifest_line_key [of "''abi_version''" "dec_of (unat abi)" m]
      manifest_line_key [of "''ivars_size''" "dec_of (unat ivars)" m] assms ok
    by (simp_all add: strtoul_u32)
  have tr: "fold manifest_line (map (\<lambda>l. l @ [CHR 0x0A]) (map trigger_line ts)) m =
      m \<lparr> am_n_triggers := am_n_triggers m + of_nat (length ts) \<rparr>" for m
    by (rule trigger_lines) (use assms in auto)
  show ?thesis
    unfolding amp_manifest_load_def option.case ls fold_append comp_apply tr Let_def list.map fold.simps cm kl
    by (simp add: set_str_def c_trunc_def)
qed

theorem manifest_roundtrip_witness:
  "amp_manifest_load (Some (write_amp_manifest ''imx95'' ''svc'' ''http://h:4318'' 3 24
      [\<lparr> at_fn = ''tick'', at_kind = 1, at_param = 5 \<rparr>])) =
    (True, \<lparr> am_service_name = ''svc'', am_endpoint = ''http://h:4318'', am_abi_version = 3,
             am_ivars_size = 24, am_n_triggers = 1 \<rparr>)"
proof -
  have "trigger_line \<lparr> at_fn = ''tick'', at_kind = 1, at_param = 5 \<rparr> = ''trigger=tick kind=1 param=5''" by code_simp
  then show ?thesis
    using manifest_roundtrip [of "''imx95''" "''svc''" "''http://h:4318''" "[\<lparr> at_fn = ''tick'', at_kind = 1, at_param = 5 \<rparr>]" 3 24]
    by (simp add: line_ok_def)
qed

end
