(* ===== verification/C_Syntax.thy ===== *)
theory C_Syntax
  imports Prelude
begin

text \<open>
  The C expression syntax that the text emitted by the code generator is read with: a lexer with
  longest match, and a parser that follows the precedence levels of the C grammar (ISO C, 6.5).  Both
  are specifications, written independently of the generator; its output is judged by what they
  make of it.  Parentheses group and leave no trace in the tree.
\<close>

named_theorems lexes_intros \<open>the tokens of a text, piece by piece\<close>

subsection \<open>Tokens\<close>

datatype token = TId string | TNum string | TOp string

definition ident_start :: "char \<Rightarrow> bool" where
  "ident_start c = (let n = of_char c :: nat in 97 \<le> n \<and> n \<le> 122 \<or> 65 \<le> n \<and> n \<le> 90 \<or> n = 95)"

definition ident_char :: "char \<Rightarrow> bool" where
  "ident_char c = (ident_start c \<or> is_digit c)"

definition two_char_ops :: "string list" where
  "two_char_ops = [''||'', ''&&'', ''=='', ''!='', ''<='', ''>='', ''<<'', ''>>'', ''--'', ''++'', ''->'']"

function c_lex :: "string \<Rightarrow> token list" where
  "c_lex [] = []"
| "c_lex (c # s) =
     (if is_space c then c_lex s
      else if ident_start c then TId (c # takeWhile ident_char s) # c_lex (dropWhile ident_char s)
      else if is_digit c then TNum (c # takeWhile ident_char s) # c_lex (dropWhile ident_char s)
      else if s \<noteq> [] \<and> [c, hd s] \<in> set two_char_ops then TOp [c, hd s] # c_lex (tl s)
      else TOp [c] # c_lex s)"
  by pat_completeness auto
termination
  by (relation "measure length") (auto simp: le_imp_less_Suc length_dropWhile_le)

declare c_lex.simps(2) [simp del]

subsection \<open>Lexing a concatenation\<close>

text \<open>Characters that end every token before them and start a one-character token.\<close>

definition punct :: "char \<Rightarrow> bool" where
  "punct c = (c \<in> set ''()[],;{}'')"

definition stops :: "string \<Rightarrow> bool" where
  "stops s = (s = [] \<or> is_space (hd s) \<or> punct (hd s))"

definition lexes :: "string \<Rightarrow> token list \<Rightarrow> bool" where
  "lexes s ts = (\<forall>rest. stops rest \<longrightarrow> c_lex (s @ rest) = ts @ c_lex rest)"

lemma lexesD: "lexes s ts \<Longrightarrow> c_lex s = ts"
  by (drule lexes_def [THEN iffD1], erule allE [of _ "[]"]) (simp add: stops_def)

lemma stops_simps [simp]:
  "stops []" "stops (c # s) = (is_space c \<or> punct c)"
  by (auto simp: stops_def)

lemma char_class_simps [simp]:
  "is_space CHR '' ''" "is_space CHR 0x0A" "\<not> ident_start CHR '' ''" "\<not> is_digit CHR '' ''"
  "punct CHR ''(''" "punct CHR '')''" "punct CHR ''[''" "punct CHR '']''" "punct CHR '',''" "punct CHR '';''"
  "punct CHR ''{''" "punct CHR ''}''"
  by code_simp+

lemma punct_class:
  assumes "punct c"
  shows "\<not> is_space c" "\<not> ident_start c" "\<not> is_digit c" "\<not> ident_char c" "[c, d] \<notin> set two_char_ops" "[d, c] \<notin> set two_char_ops"
  using assms by (auto simp: punct_def is_space_def ident_start_def ident_char_def is_digit_def two_char_ops_def)

lemma space_class:
  assumes "is_space c"
  shows "\<not> ident_start c" "\<not> is_digit c" "\<not> ident_char c" "[d, c] \<notin> set two_char_ops"
  using assms by (auto simp: is_space_def ident_start_def ident_char_def is_digit_def two_char_ops_def)

lemma c_lex_punct: "punct c \<Longrightarrow> c_lex (c # s) = TOp [c] # c_lex s"
  by (simp add: c_lex.simps(2) punct_class)

lemma c_lex_space: "is_space c \<Longrightarrow> c_lex (c # s) = c_lex s"
  by (simp add: c_lex.simps(2))

lemma stops_word: "stops s \<Longrightarrow> takeWhile ident_char s = [] \<and> dropWhile ident_char s = s"
  by (cases s) (auto simp: punct_class space_class)

text \<open>No token crosses such a boundary, so the tokens of a text followed by one are the tokens of the
  text.\<close>

lemma lexes_self: "lexes s (c_lex s)"
  unfolding lexes_def
proof (intro allI impI)
  fix rest assume r: "stops rest"
  show "c_lex (s @ rest) = c_lex s @ c_lex rest"
  proof (induction s rule: c_lex.induct)
    case (2 c s)
    have w: "takeWhile ident_char (s @ rest) = takeWhile ident_char s"
        "c_lex (dropWhile ident_char (s @ rest)) = c_lex (dropWhile ident_char s @ rest)"
      using stops_word [OF r] by (auto simp: takeWhile_append dropWhile_append takeWhile_eq_all_conv [THEN iffD2] dropWhile_eq_Nil_conv [THEN iffD2])
    have o: "s = [] \<Longrightarrow> rest \<noteq> [] \<Longrightarrow> [c, hd rest] \<notin> set two_char_ops"
      using r by (cases rest) (auto simp: punct_class space_class)
    show ?case
      using 2 w o by (cases s) (auto simp: c_lex.simps(2))
  qed simp
qed

lemma lexes_eq: "lexes s ts \<longleftrightarrow> c_lex s = ts"
  using lexes_self lexesD by blast

lemma lexes_Nil [lexes_intros]: "lexes [] []"
  by (simp add: lexes_def)

lemma lexes_punct [lexes_intros]: "punct c \<Longrightarrow> lexes s ts \<Longrightarrow> lexes (c # s) (TOp [c] # ts)"
  by (simp add: lexes_def c_lex_punct)

lemma lexes_space [lexes_intros]: "is_space c \<Longrightarrow> lexes s ts \<Longrightarrow> lexes (c # s) ts"
  by (simp add: lexes_def c_lex_space)

lemma lexes_append: "lexes s ts \<Longrightarrow> lexes t us \<Longrightarrow> stops t \<Longrightarrow> lexes (s @ t) (ts @ us)"
  by (cases t) (auto simp: lexes_def stops_def)

definition c_word :: "string \<Rightarrow> bool" where
  "c_word s = (s \<noteq> [] \<and> ident_start (hd s) \<and> list_all ident_char (tl s))"

definition c_number :: "string \<Rightarrow> bool" where
  "c_number s = (s \<noteq> [] \<and> is_digit (hd s) \<and> list_all ident_char (tl s))"

lemma all_word_span:
  "list_all P s \<Longrightarrow> takeWhile P (s @ r) = s @ takeWhile P r" "list_all P s \<Longrightarrow> dropWhile P (s @ r) = dropWhile P r"
  by (simp_all add: list_all_iff)

lemma digit_not_start: "is_digit c \<Longrightarrow> \<not> ident_start c \<and> \<not> is_space c"
  by (auto simp: is_digit_def ident_start_def is_space_def)

lemma start_not_space: "ident_start c \<Longrightarrow> \<not> is_space c"
  by (auto simp: ident_start_def is_space_def Let_def)

lemma lexes_word [lexes_intros]: "c_word s \<Longrightarrow> lexes s [TId s]"
  by (cases s) (auto simp: lexes_def c_word_def c_lex.simps(2) all_word_span stops_word start_not_space)

lemma lexes_number [lexes_intros]: "c_number s \<Longrightarrow> lexes s [TNum s]"
  by (cases s) (auto simp: lexes_def c_number_def c_lex.simps(2) all_word_span stops_word digit_not_start)

subsection \<open>Expressions\<close>

datatype cx = XId string | XNum string | XCast "token list" cx | XUn string cx | XBin string cx cx
  | XCall cx "cx list" | XIdx cx cx

text \<open>Precedence level of a binary operator, 1 the loosest: the order of the productions from
  \<open>logical-OR-expression\<close> to \<open>multiplicative-expression\<close>.\<close>

definition c_binops :: "(string \<times> nat) list" where
  "c_binops = [(''||'', 1), (''&&'', 2), (''|'', 3), (''^'', 4), (''&'', 5), (''=='', 6), (''!='', 6),
     (''<'', 7), (''>'', 7), (''<='', 7), (''>='', 7), (''<<'', 8), (''>>'', 8), (''+'', 9), (''-'', 9),
     (''*'', 10), (''/'', 10), (''%'', 10)]"

definition c_level :: "string \<Rightarrow> nat option" where
  "c_level = map_of c_binops"

definition c_prefix_ops :: "string list" where
  "c_prefix_ops = [''*'', ''-'', ''!'', ''~'']"

definition c_typenames :: "string list" where
  "c_typenames = [''struct'', ''const'', ''volatile'', ''unsigned'', ''void'', ''int'', ''long'',
     ''__s64'', ''__u64'', ''__s32'', ''__u32'', ''__u16'', ''__u8'']"

text \<open>The parser: binary expressions of at least a level, the continuation of a left operand, a
  cast-expression, the postfix continuation of a primary expression, and the rest of an argument
  list.\<close>

datatype pmode = PBin nat | PLoop nat cx | PUn | PPost cx | PArgs cx "cx list"

partial_function (option) cparse :: "pmode \<Rightarrow> token list \<Rightarrow> (cx \<times> token list) option" where
  "cparse m ts =
     (case m of
        PBin p \<Rightarrow> Option.bind (cparse PUn ts) (\<lambda>(l, r). cparse (PLoop p l) r)
      | PLoop p l \<Rightarrow>
          (case ts of
             TOp op # r \<Rightarrow>
               (case c_level op of
                  Some q \<Rightarrow> if p \<le> q then Option.bind (cparse (PBin (Suc q)) r) (\<lambda>(x, r'). cparse (PLoop p (XBin op l x)) r')
                            else Some (l, ts)
                | None \<Rightarrow> Some (l, ts))
           | _ \<Rightarrow> Some (l, ts))
      | PUn \<Rightarrow>
          (case ts of
             TId x # r \<Rightarrow> cparse (PPost (XId x)) r
           | TNum x # r \<Rightarrow> cparse (PPost (XNum x)) r
           | TOp op # r \<Rightarrow>
               if op \<in> set c_prefix_ops then Option.bind (cparse PUn r) (\<lambda>(x, r'). Some (XUn op x, r'))
               else if op \<noteq> ''('' then None
               else if (\<exists>t \<in> set c_typenames. take 1 r = [TId t]) then
                 (case dropWhile (\<lambda>t. t \<noteq> TOp '')'') r of
                    [] \<Rightarrow> None
                  | _ # r' \<Rightarrow> Option.bind (cparse PUn r') (\<lambda>(x, r''). Some (XCast (takeWhile (\<lambda>t. t \<noteq> TOp '')'') r) x, r'')))
               else Option.bind (cparse (PBin 0) r)
                      (\<lambda>(x, r'). if take 1 r' = [TOp '')''] then cparse (PPost x) (tl r') else None)
           | [] \<Rightarrow> None)
      | PPost x \<Rightarrow>
          (if take 2 ts = [TOp ''('', TOp '')''] then cparse (PPost (XCall x [])) (drop 2 ts)
           else if take 1 ts = [TOp ''(''] then cparse (PArgs x []) (tl ts)
           else if take 1 ts = [TOp ''[''] then
             Option.bind (cparse (PBin 0) (tl ts))
               (\<lambda>(i, r). if take 1 r = [TOp '']''] then cparse (PPost (XIdx x i)) (tl r) else None)
           else Some (x, ts))
      | PArgs f as \<Rightarrow>
          Option.bind (cparse (PBin 0) ts)
            (\<lambda>(a, r). if take 1 r = [TOp '',''] then cparse (PArgs f (as @ [a])) (tl r)
                      else if take 1 r = [TOp '')''] then cparse (PPost (XCall f (as @ [a]))) (tl r)
                      else None))"

definition c_parse :: "string \<Rightarrow> cx option" where
  "c_parse s = (case cparse (PBin 0) (c_lex s) of Some (x, []) \<Rightarrow> Some x | _ \<Rightarrow> None)"

end
