(* ===== verification/Cc_Expr.thy ===== *)
theory Cc_Expr
  imports C_Syntax
begin

text \<open>
  The structured C expressions of the code generator (\<open>src/codegen_c/spinel_ebpf_cc.c\<close>): the node
  kinds \<open>CExpr\<close>, the precedence table and the printer that writes as few parentheses as its
  precedence test allows.  The result proved here is that the printed text is read by C as the tree it
  was printed from.
\<close>

subsection \<open>Nodes and printer\<close>

datatype CExpr = CE_RAW string | CE_PAREN CExpr | CE_CAST string CExpr | CE_UNARY string CExpr
  | CE_BINOP string CExpr CExpr | CE_CALL string "CExpr list" | CE_SUBSCRIPT CExpr CExpr

definition CE_PREC_CAST :: nat where "CE_PREC_CAST = 80"

definition CE_PREC_UNARY :: nat where "CE_PREC_UNARY = 80"

definition CE_PREC_POSTFIX :: nat where "CE_PREC_POSTFIX = 90"

definition CE_PREC_PRIMARY :: nat where "CE_PREC_PRIMARY = 100"

text \<open>\<open>None\<close>: the generator stops with ``unknown C binop''.\<close>

definition ce_binop_prec :: "string \<Rightarrow> nat option" where
  "ce_binop_prec op =
     (if op = ''||'' then Some 20
      else if op = ''&&'' then Some 25
      else if op = ''|'' then Some 30
      else if op = ''^'' then Some 35
      else if op = ''&'' then Some 40
      else if op = ''=='' \<or> op = ''!='' then Some 45
      else if op = ''<'' \<or> op = ''<='' \<or> op = ''>'' \<or> op = ''>='' then Some 50
      else if op = ''<<'' \<or> op = ''>>'' then Some 55
      else if op = ''+'' \<or> op = ''-'' then Some 60
      else if op = ''*'' \<or> op = ''/'' \<or> op = ''%'' then Some 70
      else None)"

fun ce_prec :: "CExpr \<Rightarrow> nat option" where
  "ce_prec (CE_BINOP op _ _) = ce_binop_prec op"
| "ce_prec (CE_CAST _ _) = Some CE_PREC_CAST"
| "ce_prec (CE_UNARY _ _) = Some CE_PREC_CAST"
| "ce_prec (CE_CALL _ _) = Some CE_PREC_POSTFIX"
| "ce_prec (CE_SUBSCRIPT _ _) = Some CE_PREC_POSTFIX"
| "ce_prec (CE_RAW _) = Some CE_PREC_PRIMARY"
| "ce_prec (CE_PAREN _) = Some CE_PREC_PRIMARY"

definition ce_child :: "string \<Rightarrow> bool \<Rightarrow> string" where
  "ce_child s needs_paren = (if needs_paren then ''('' @ s @ '')'' else s)"

fun comma_join :: "string list \<Rightarrow> string" where
  "comma_join [] = []"
| "comma_join [s] = s"
| "comma_join (s # ss) = s @ '', '' @ comma_join ss"

fun ce_print :: "CExpr \<Rightarrow> string option" where
  "ce_print (CE_RAW t) = Some t"
| "ce_print (CE_PAREN a) = map_option (\<lambda>s. ''('' @ s @ '')'') (ce_print a)"
| "ce_print (CE_CAST ty a) =
     (case (ce_prec a, ce_print a) of
        (Some p, Some s) \<Rightarrow> Some (''('' @ ty @ '')'' @ ce_child s (p < CE_PREC_CAST))
      | _ \<Rightarrow> None)"
| "ce_print (CE_UNARY op a) =
     (case (ce_prec a, ce_print a) of
        (Some p, Some s) \<Rightarrow> Some (op @ ce_child s (p < CE_PREC_UNARY))
      | _ \<Rightarrow> None)"
| "ce_print (CE_BINOP op a b) =
     (case (ce_binop_prec op, ce_prec a, ce_prec b, ce_print a, ce_print b) of
        (Some p, Some pa, Some pb, Some sa, Some sb) \<Rightarrow>
          Some (ce_child sa (pa < p) @ '' '' @ op @ '' '' @ ce_child sb (pb \<le> p))
      | _ \<Rightarrow> None)"
| "ce_print (CE_CALL f args) =
     map_option (\<lambda>ss. f @ ''('' @ comma_join ss @ '')'') (those (map ce_print args))"
| "ce_print (CE_SUBSCRIPT a i) =
     (case (ce_prec a, ce_print a, ce_print i) of
        (Some p, Some sa, Some si) \<Rightarrow> Some (ce_child sa (p < CE_PREC_POSTFIX) @ ''['' @ si @ '']'')
      | _ \<Rightarrow> None)"

subsection \<open>What the C grammar makes of a text\<close>

text \<open>Tokens that would continue a postfix expression, and operators that bind tighter than a level.\<close>

definition nopost :: "token list \<Rightarrow> bool" where
  "nopost ts = (take 1 ts \<noteq> [TOp ''(''] \<and> take 1 ts \<noteq> [TOp ''[''])"

definition loose :: "nat \<Rightarrow> token list \<Rightarrow> bool" where
  "loose q ts = (case ts of TOp op # _ \<Rightarrow> (case c_level op of Some l \<Rightarrow> l \<le> q | None \<Rightarrow> True) | _ \<Rightarrow> True)"

text \<open>Tokens that the parser reads as an expression of a grammar level, whatever follows them: a
  binary operator's own level, 11 for casts and prefix operators, 12 and 13 for postfix and primary
  expressions.\<close>

definition reads_at :: "nat \<Rightarrow> token list \<Rightarrow> cx \<Rightarrow> bool" where
  "reads_at l ts x =
     (if l \<le> 10 then \<forall>p rest. p \<le> l \<longrightarrow> nopost rest \<longrightarrow> loose l rest \<longrightarrow> cparse (PBin p) (ts @ rest) = cparse (PLoop p x) rest
      else if l = 11 then \<forall>rest. nopost rest \<longrightarrow> cparse PUn (ts @ rest) = Some (x, rest)
      else \<forall>rest. cparse PUn (ts @ rest) = cparse (PPost x) rest)"

definition plain_start :: "token list \<Rightarrow> bool" where
  "plain_start ts = (ts \<noteq> [] \<and> hd ts \<notin> TId ` set c_typenames \<and> hd ts \<noteq> TOp '')'')"

definition reads :: "string \<Rightarrow> cx \<Rightarrow> nat \<Rightarrow> bool" where
  "reads s x l = (\<exists>ts. lexes s ts \<and> plain_start ts \<and> reads_at l ts x)"

lemma c_level_mem: "c_level op = Some q \<Longrightarrow> (op, q) \<in> set c_binops"
  unfolding c_level_def by (rule map_of_SomeD)

lemma c_level_bound: "c_level op = Some q \<Longrightarrow> q \<le> 10"
proof -
  have "\<forall>(op, q) \<in> set c_binops. q \<le> 10" by code_simp
  then show "c_level op = Some q \<Longrightarrow> q \<le> 10" using c_level_mem by fastforce
qed

lemma c_level_punct [simp]: "c_level '')'' = None" "c_level '']'' = None" "c_level '','' = None" "c_level '';'' = None"
  "c_level ''='' = None"
  by (simp_all add: c_level_def c_binops_def)

text \<open>The precedence numbers of the generator order the operators as the grammar does.\<close>

definition prec_of_level :: "nat \<Rightarrow> nat" where
  "prec_of_level l = [0, 20, 25, 30, 35, 40, 45, 50, 55, 60, 70, 80, 90, 100] ! l"

lemma binop_prec_level: "c_level op = Some q \<Longrightarrow> ce_binop_prec op = Some (prec_of_level q)"
proof -
  have "\<forall>(op, q) \<in> set c_binops. ce_binop_prec op = Some (prec_of_level q)" by code_simp
  then show "c_level op = Some q \<Longrightarrow> ce_binop_prec op = Some (prec_of_level q)" using c_level_mem by fastforce
qed

lemma prec_of_level_less: "l \<le> 13 \<Longrightarrow> l' \<le> 13 \<Longrightarrow> prec_of_level l < prec_of_level l' \<longleftrightarrow> l < l'"
proof -
  have "\<forall>l \<in> set [0..<14]. \<forall>l' \<in> set [0..<14]. prec_of_level l < prec_of_level l' \<longleftrightarrow> l < l'" by code_simp
  then show "l \<le> 13 \<Longrightarrow> l' \<le> 13 \<Longrightarrow> prec_of_level l < prec_of_level l' \<longleftrightarrow> l < l'" by (simp only: atLeastLessThan_iff set_upt less_eq_Suc_le Suc_le_mono) simp
qed

lemma cparse_PBin: "cparse (PBin p) ts = Option.bind (cparse PUn ts) (\<lambda>(l, r). cparse (PLoop p l) r)"
  by (subst cparse.simps) simp

lemma cparse_loop_op: "c_level op = Some q \<Longrightarrow> p \<le> q \<Longrightarrow>
    cparse (PLoop p l) (TOp op # r) = Option.bind (cparse (PBin (Suc q)) r) (\<lambda>(x, r'). cparse (PLoop p (XBin op l x)) r')"
  by (subst cparse.simps) simp

lemma cparse_loop_end: "loose q rest \<Longrightarrow> q < p \<Longrightarrow> cparse (PLoop p x) rest = Some (x, rest)"
  by (subst cparse.simps) (auto simp: loose_def split: list.splits token.splits option.splits)

lemma cparse_loop_punct:
  "cparse (PLoop p x) [] = Some (x, [])" "cparse (PLoop p x) (TOp '')'' # r) = Some (x, TOp '')'' # r)"
  "cparse (PLoop p x) (TOp '']'' # r) = Some (x, TOp '']'' # r)" "cparse (PLoop p x) (TOp '','' # r) = Some (x, TOp '','' # r)"
  "cparse (PLoop p x) (TOp '';'' # r) = Some (x, TOp '';'' # r)" "cparse (PLoop p x) (TOp ''='' # r) = Some (x, TOp ''='' # r)"
  by (subst cparse.simps, simp)+

lemma cparse_post_end: "nopost rest \<Longrightarrow> cparse (PPost x) rest = Some (x, rest)"
  by (subst cparse.simps) (cases rest; simp add: nopost_def)

lemma cparse_prim: "cparse PUn (TId x # r) = cparse (PPost (XId x)) r" "cparse PUn (TNum x # r) = cparse (PPost (XNum x)) r"
  by (subst cparse.simps, simp)+

lemma plain_not_type: "plain_start ts \<Longrightarrow> \<not> (\<exists>t \<in> set c_typenames. take 1 (ts @ r) = [TId t])"
  by (cases ts) (auto simp: plain_start_def)

lemma cparse_paren: "plain_start ts \<Longrightarrow> cparse PUn (TOp ''('' # ts @ r) =
    Option.bind (cparse (PBin 0) (ts @ r)) (\<lambda>(x, r'). if take 1 r' = [TOp '')''] then cparse (PPost x) (tl r') else None)"
  using plain_not_type [of ts r] by (subst cparse.simps) (simp add: c_prefix_ops_def)

lemma cparse_cast: "t \<in> set c_typenames \<Longrightarrow> TOp '')'' \<notin> set ts \<Longrightarrow> cparse PUn (TOp ''('' # TId t # ts @ TOp '')'' # r) =
    Option.bind (cparse PUn r) (\<lambda>(x, r'). Some (XCast (TId t # ts) x, r'))"
proof -
  assume a: "t \<in> set c_typenames" "TOp '')'' \<notin> set ts"
  then have "dropWhile (\<lambda>t. t \<noteq> TOp '')'') (ts @ TOp '')'' # r) = TOp '')'' # r" "takeWhile (\<lambda>t. t \<noteq> TOp '')'') (ts @ TOp '')'' # r) = ts"
    by (induction ts) auto
  then show ?thesis using a(1) by (subst cparse.simps) (simp add: c_prefix_ops_def)
qed

lemma cparse_prefix: "op \<in> set c_prefix_ops \<Longrightarrow> cparse PUn (TOp op # r) = Option.bind (cparse PUn r) (\<lambda>(x, r'). Some (XUn op x, r'))"
  by (subst cparse.simps) simp

lemma reads_at_mono: "reads_at l ts x \<Longrightarrow> l' \<le> l \<Longrightarrow> reads_at l' ts x"
proof -
  have un: "reads_at 11 ts x" if "\<forall>rest. cparse PUn (ts @ rest) = cparse (PPost x) rest"
    using that by (simp add: reads_at_def cparse_post_end)
  have bin: "reads_at q ts x" if "q \<le> 10" "reads_at 11 ts x" for q
    using that by (simp add: reads_at_def cparse_PBin)
  have lower: "reads_at q' ts x" if "q' \<le> q" "q \<le> 10" "reads_at q ts x" for q q'
  proof -
    have "loose q' r \<Longrightarrow> loose q r" for r using that(1) by (auto simp: loose_def split: list.splits token.splits option.splits)
    then show ?thesis using that by (simp add: reads_at_def)
  qed
  assume a: "reads_at l ts x" "l' \<le> l"
  consider "l \<le> 10" | "l = 11" | "11 < l" by linarith
  then show ?thesis
  proof cases
    case 1 then show ?thesis using a lower by blast
  next
    case 2 then show ?thesis using a bin [of l'] by (cases "l' = 11") auto
  next
    case 3
    then have f: "\<forall>rest. cparse PUn (ts @ rest) = cparse (PPost x) rest" using a by (simp add: reads_at_def)
    then show ?thesis using un [OF f] bin [of l'] by (cases "l' \<le> 10"; cases "l' = 11") (simp_all add: reads_at_def)
  qed
qed

lemma reads_mono: "reads s x l \<Longrightarrow> l' \<le> l \<Longrightarrow> reads s x l'"
  using reads_at_mono by (auto simp: reads_def)

text \<open>Reading each printed form.\<close>

lemma readsI: "lexes s ts \<Longrightarrow> reads_at l ts x \<Longrightarrow> plain_start ts \<Longrightarrow> reads s x l"
  by (auto simp: reads_def)

lemma reads_word: "c_word s \<Longrightarrow> s \<notin> set c_typenames \<Longrightarrow> reads s (XId s) 13"
  by (rule readsI [OF lexes_word]) (auto simp: plain_start_def reads_at_def cparse_prim)

lemma reads_number: "c_number s \<Longrightarrow> reads s (XNum s) 13"
  by (rule readsI [OF lexes_number]) (auto simp: plain_start_def reads_at_def cparse_prim)

lemma reads_paren: "reads s x l \<Longrightarrow> reads (''('' @ s @ '')'') x 13"
proof -
  assume "reads s x l"
  then obtain ts where ts: "lexes s ts" "plain_start ts" "reads_at l ts x" by (auto simp: reads_def)
  have "lexes (''('' @ s @ '')'') (TOp ''('' # ts @ [TOp '')''])"
    using lexes_append [OF ts(1), of "'')''" "[TOp '')'']"] by (simp add: lexes_intros)
  moreover have "reads_at 13 (TOp ''('' # ts @ [TOp '')'']) x"
  proof -
    have "reads_at 0 ts x" using reads_at_mono [OF ts(3)] by simp
    then have "cparse (PBin 0) (ts @ TOp '')'' # rest) = Some (x, TOp '')'' # rest)" for rest
      by (simp add: reads_at_def nopost_def loose_def cparse_loop_punct)
    then show ?thesis using cparse_paren [OF ts(2)] by (simp add: reads_at_def)
  qed
  moreover have "plain_start (TOp ''('' # ts @ [TOp '')''])" by (auto simp: plain_start_def)
  ultimately show ?thesis by (rule readsI)
qed

lemma lexes_prefix: "(\<And>d. [c, d] \<notin> set two_char_ops) \<Longrightarrow> \<not> is_space c \<Longrightarrow> \<not> ident_start c \<Longrightarrow> \<not> is_digit c \<Longrightarrow>
    lexes s ts \<Longrightarrow> lexes (c # s) (TOp [c] # ts)"
  by (simp add: lexes_def c_lex.simps(2))

lemma reads_unary: "reads s x 11 \<Longrightarrow> op \<in> {''*'', ''~''} \<Longrightarrow> reads (op @ s) (XUn op x) 11"
proof -
  assume a: "reads s x 11" "op \<in> {''*'', ''~''}"
  then obtain ts where ts: "lexes s ts" "plain_start ts" "reads_at 11 ts x" by (auto simp: reads_def)
  have "lexes (op @ s) (TOp op # ts)"
    using a(2) ts(1) by (auto intro!: lexes_prefix simp: two_char_ops_def is_space_def ident_start_def is_digit_def)
  moreover have "reads_at 11 (TOp op # ts) (XUn op x)"
  proof -
    have "op \<in> set c_prefix_ops" using a(2) by (auto simp: c_prefix_ops_def)
    then show ?thesis using ts(3) by (simp add: reads_at_def cparse_prefix)
  qed
  moreover have "plain_start (TOp op # ts)" using a(2) by (auto simp: plain_start_def)
  ultimately show ?thesis by (rule readsI)
qed

lemma reads_negative: "c_number n \<Longrightarrow> reads (CHR ''-'' # n) (XUn ''-'' (XNum n)) 11"
proof -
  assume n: "c_number n"
  then obtain c m where m: "n = c # m" "is_digit c" by (cases n) (auto simp: c_number_def)
  have "lexes (CHR ''-'' # n) [TOp ''-'', TNum n]"
    unfolding lexes_def
  proof (intro allI impI)
    fix rest assume "stops rest"
    then have "c_lex (n @ rest) = TNum n # c_lex rest" using lexes_number [OF n] by (simp add: lexes_def)
    moreover have "c_lex (CHR ''-'' # n @ rest) = TOp ''-'' # c_lex (n @ rest)"
    proof -
      have "[CHR ''-'', c] \<notin> set two_char_ops" using m(2) by (auto simp: two_char_ops_def is_digit_def)
      then show ?thesis using m by (simp add: c_lex.simps(2) is_space_def ident_start_def is_digit_def)
    qed
    ultimately show "c_lex ((CHR ''-'' # n) @ rest) = [TOp ''-'', TNum n] @ c_lex rest" by simp
  qed
  moreover have "reads_at 11 [TOp ''-'', TNum n] (XUn ''-'' (XNum n))"
    by (simp add: reads_at_def cparse_prefix c_prefix_ops_def cparse_prim cparse_post_end)
  moreover have "plain_start [TOp ''-'', TNum n]" by (auto simp: plain_start_def)
  ultimately show ?thesis by (rule readsI)
qed

definition c_type_ok :: "string \<Rightarrow> bool" where
  "c_type_ok ty = (case c_lex ty of TId t # ts \<Rightarrow> t \<in> set c_typenames \<and> TOp '')'' \<notin> set ts | _ \<Rightarrow> False)"

lemma reads_cast: "c_type_ok ty \<Longrightarrow> reads s x 11 \<Longrightarrow> reads (''('' @ ty @ '')'' @ s) (XCast (c_lex ty) x) 11"
proof -
  assume a: "c_type_ok ty" "reads s x 11"
  then obtain t us where t: "lexes ty (TId t # us)" "t \<in> set c_typenames" "TOp '')'' \<notin> set us"
    by (auto simp: c_type_ok_def lexes_eq split: list.splits token.splits)
  obtain ts where ts: "lexes s ts" "plain_start ts" "reads_at 11 ts x" using a by (auto simp: reads_def)
  have "lexes ('')'' @ s) (TOp '')'' # ts)" using ts(1) by (simp add: lexes_intros)
  from lexes_append [OF t(1) this] have "lexes (''('' @ ty @ '')'' @ s) (TOp ''('' # TId t # us @ TOp '')'' # ts)"
    by (simp add: lexes_intros)
  moreover have "reads_at 11 (TOp ''('' # TId t # us @ TOp '')'' # ts) (XCast (c_lex ty) x)"
    using ts(3) by (simp add: reads_at_def cparse_cast [OF t(2,3)] lexesD [OF t(1)])
  moreover have "plain_start (TOp ''('' # TId t # us @ TOp '')'' # ts)" by (auto simp: plain_start_def)
  ultimately show ?thesis by (rule readsI)
qed

lemma lexes_binop: "c_level op = Some q \<Longrightarrow> lexes s ts \<Longrightarrow> lexes ('' '' @ op @ '' '' @ s) (TOp op # ts)"
proof -
  have "\<forall>(op, q) \<in> set c_binops. \<forall>s. c_lex (op @ CHR '' '' # s) = TOp op # c_lex s"
    by (simp add: c_binops_def c_lex.simps(2) is_space_def ident_start_def is_digit_def two_char_ops_def)
  then have "c_level op = Some q \<Longrightarrow> c_lex (op @ CHR '' '' # s) = TOp op # c_lex s" for s
    using c_level_mem by fastforce
  then show "c_level op = Some q \<Longrightarrow> lexes s ts \<Longrightarrow> lexes ('' '' @ op @ '' '' @ s) (TOp op # ts)"
    by (simp add: lexes_def c_lex_space)
qed

lemma reads_binop: "c_level op = Some q \<Longrightarrow> reads a x q \<Longrightarrow> reads b y (Suc q) \<Longrightarrow>
    reads (a @ '' '' @ op @ '' '' @ b) (XBin op x y) q"
proof -
  assume a: "c_level op = Some q" "reads a x q" "reads b y (Suc q)"
  obtain ta tb where t: "lexes a ta" "plain_start ta" "reads_at q ta x" "lexes b tb" "plain_start tb" "reads_at (Suc q) tb y"
    using a by (auto simp: reads_def)
  have "lexes (a @ '' '' @ op @ '' '' @ b) (ta @ TOp op # tb)"
    using lexes_append [OF t(1) lexes_binop [OF a(1) t(4)]] by simp
  moreover have "reads_at q (ta @ TOp op # tb) (XBin op x y)"
  proof -
    have q: "q \<le> 10" using c_level_bound a(1) by blast
    have p: "op \<noteq> ''(''" "op \<noteq> ''[''" using a(1) by (auto simp: c_level_def c_binops_def)
    have l: "cparse (PBin p) (ta @ TOp op # r) = cparse (PLoop p x) (TOp op # r)" if "p \<le> q" for p r
      using t(3) that q a(1) p by (simp add: reads_at_def nopost_def loose_def)
    have r: "cparse (PBin (Suc q)) (tb @ rest) = Some (y, rest)" if "nopost rest" "loose q rest" for rest
    proof (cases "q = 10")
      case True
      then show ?thesis using t(6) that cparse_loop_end [OF that(2)] by (simp add: reads_at_def cparse_PBin)
    next
      case False
      have "loose (Suc q) rest" using that by (auto simp: loose_def split: list.splits token.splits option.splits)
      then show ?thesis using t(6) that q False cparse_loop_end [OF that(2)] by (simp add: reads_at_def)
    qed
    show ?thesis using q by (simp add: reads_at_def l r cparse_loop_op [OF a(1)])
  qed
  moreover have "plain_start (ta @ TOp op # tb)" using t(2) by (cases ta) (auto simp: plain_start_def)
  ultimately show ?thesis by (rule readsI)
qed

text \<open>Argument lists: after the opening parenthesis of a call.\<close>

lemma reads_arg: "reads_at l ts x \<Longrightarrow> cparse (PBin 0) (ts @ TOp '','' # r) = Some (x, TOp '','' # r)"
  "reads_at l ts x \<Longrightarrow> cparse (PBin 0) (ts @ TOp '')'' # r) = Some (x, TOp '')'' # r)"
  "reads_at l ts x \<Longrightarrow> cparse (PBin 0) (ts @ TOp '']'' # r) = Some (x, TOp '']'' # r)"
  using reads_at_mono [of l ts x 0] by (auto simp: reads_at_def nopost_def loose_def cparse_loop_punct)

lemma cparse_PArgs: "cparse (PArgs f as) ts = Option.bind (cparse (PBin 0) ts)
    (\<lambda>(a, r). if take 1 r = [TOp '',''] then cparse (PArgs f (as @ [a])) (tl r)
              else if take 1 r = [TOp '')''] then cparse (PPost (XCall f (as @ [a]))) (tl r) else None)"
  by (subst cparse.simps) simp

definition args_read :: "string list \<Rightarrow> cx list \<Rightarrow> bool" where
  "args_read ss xs = list_all2 (\<lambda>s x. \<exists>l. reads s x l) ss xs"

lemma args_tokens:
  assumes "args_read ss xs" "ss \<noteq> []"
  shows "\<exists>ts. lexes (comma_join ss) ts \<and> plain_start ts \<and>
    (\<forall>f as rest. cparse (PArgs f as) (ts @ TOp '')'' # rest) = cparse (PPost (XCall f (as @ xs))) rest)"
  using assms
proof (induction ss arbitrary: xs rule: comma_join.induct)
  case (2 s)
  then obtain x l where x: "xs = [x]" "reads s x l" by (auto simp: args_read_def list_all2_Cons1)
  then obtain ts where "lexes s ts" "plain_start ts" "reads_at l ts x" by (auto simp: reads_def)
  then show ?case using x(1) by (auto simp: cparse_PArgs reads_arg intro!: exI [of _ ts])
next
  case (3 s s' ss)
  from "3.prems"(1) obtain x ys where xs: "xs = x # ys" by (cases xs) (auto simp: args_read_def)
  then obtain l where "reads s x l" "args_read (s' # ss) ys"
    using "3.prems"(1) unfolding args_read_def by (simp only: list_all2_Cons) blast
  note x = xs this
  obtain ts where ts: "lexes s ts" "plain_start ts" "reads_at l ts x" using x(2) by (auto simp: reads_def)
  obtain us where us: "lexes (comma_join (s' # ss)) us"
    "\<forall>f as rest. cparse (PArgs f as) (us @ TOp '')'' # rest) = cparse (PPost (XCall f (as @ ys))) rest"
    using "3.IH" [OF x(3)] by auto
  have "lexes ('', '' @ comma_join (s' # ss)) (TOp '','' # us)" using us(1) by (simp add: lexes_intros)
  from lexes_append [OF ts(1) this] have "lexes (comma_join (s # s' # ss)) (ts @ TOp '','' # us)" by simp
  moreover have "plain_start (ts @ TOp '','' # us)" using ts(2) by (cases ts) (auto simp: plain_start_def)
  moreover have "cparse (PArgs f as) ((ts @ TOp '','' # us) @ TOp '')'' # rest) = cparse (PPost (XCall f (as @ xs))) rest" for f as rest
    using us(2) x(1) by (subst cparse_PArgs) (simp add: reads_arg [OF ts(3)])
  ultimately show ?case by blast
qed simp

lemma reads_call: "c_word f \<Longrightarrow> f \<notin> set c_typenames \<Longrightarrow> args_read ss xs \<Longrightarrow>
    reads (f @ ''('' @ comma_join ss @ '')'') (XCall (XId f) xs) 12"
proof (cases "ss = []")
  case True
  assume a: "c_word f" "f \<notin> set c_typenames" "args_read ss xs"
  then have xs: "xs = []" using True by (simp add: args_read_def)
  have "lexes (f @ ''()'') [TId f, TOp ''('', TOp '')'']"
    using lexes_append [OF lexes_word [OF a(1)], of "''()''" "[TOp ''('', TOp '')'']"] by (simp add: lexes_intros)
  moreover have "reads_at 12 [TId f, TOp ''('', TOp '')''] (XCall (XId f) [])"
    by (simp add: reads_at_def cparse_prim) (subst cparse.simps, simp)
  moreover have "plain_start [TId f, TOp ''('', TOp '')'']" using a(2) by (auto simp: plain_start_def)
  ultimately show ?thesis using True xs readsI by simp
next
  case False
  assume a: "c_word f" "f \<notin> set c_typenames" "args_read ss xs"
  obtain ts where ts: "lexes (comma_join ss) ts" "plain_start ts"
      "\<forall>f as rest. cparse (PArgs f as) (ts @ TOp '')'' # rest) = cparse (PPost (XCall f (as @ xs))) rest"
    using args_tokens [OF a(3) False] by blast
  have "lexes (''('' @ comma_join ss @ '')'') (TOp ''('' # ts @ [TOp '')''])"
    using lexes_append [OF ts(1), of "'')''" "[TOp '')'']"] by (simp add: lexes_intros)
  from lexes_append [OF lexes_word [OF a(1)] this]
  have "lexes (f @ ''('' @ comma_join ss @ '')'') (TId f # TOp ''('' # ts @ [TOp '')''])" by simp
  moreover have "reads_at 12 (TId f # TOp ''('' # ts @ [TOp '')'']) (XCall (XId f) xs)"
  proof -
    have "cparse (PPost (XId f)) (TOp ''('' # ts @ TOp '')'' # rest) = cparse (PArgs (XId f) []) (ts @ TOp '')'' # rest)" for rest
      using ts(2) by (subst cparse.simps) (cases ts; auto simp: plain_start_def numeral_2_eq_2)
    then show ?thesis using ts(3) by (simp add: reads_at_def cparse_prim)
  qed
  moreover have "plain_start (TId f # TOp ''('' # ts @ [TOp '')''])" using a(2) by (auto simp: plain_start_def)
  ultimately show ?thesis by (rule readsI)
qed

lemma reads_subscript: "reads a x 12 \<Longrightarrow> reads i y l \<Longrightarrow> reads (a @ ''['' @ i @ '']'') (XIdx x y) 12"
proof -
  assume a: "reads a x 12" "reads i y l"
  then obtain ta ti where t: "lexes a ta" "plain_start ta" "reads_at 12 ta x" "lexes i ti" "reads_at l ti y" by (auto simp: reads_def)
  have "lexes (''['' @ i @ '']'') (TOp ''['' # ti @ [TOp '']''])"
    using lexes_append [OF t(4), of "'']''" "[TOp '']'']"] by (simp add: lexes_intros)
  from lexes_append [OF t(1) this] have "lexes (a @ ''['' @ i @ '']'') (ta @ TOp ''['' # ti @ [TOp '']''])" by simp
  moreover have "reads_at 12 (ta @ TOp ''['' # ti @ [TOp '']'']) (XIdx x y)"
  proof -
    have "cparse (PPost x) (TOp ''['' # ti @ TOp '']'' # rest) = cparse (PPost (XIdx x y)) rest" for rest
      by (subst cparse.simps) (simp add: reads_arg [OF t(5)])
    then show ?thesis using t(3) by (simp add: reads_at_def)
  qed
  moreover have "plain_start (ta @ TOp ''['' # ti @ [TOp '']''])" using t(2) by (cases ta) (auto simp: plain_start_def)
  ultimately show ?thesis by (rule readsI)
qed

lemma reads_parse: "reads s x l \<Longrightarrow> c_parse s = Some x"
proof -
  assume "reads s x l"
  then obtain ts where ts: "lexes s ts" "reads_at 0 ts x" using reads_at_mono by (auto simp: reads_def)
  have "cparse (PBin 0) (ts @ []) = Some (x, [])"
    using ts(2) by (auto simp: reads_at_def nopost_def loose_def cparse_loop_punct simp del: append_Nil2)
  then show ?thesis using lexesD [OF ts(1)] by (simp add: c_parse_def)
qed

subsection \<open>Well-formed nodes and the tree they stand for\<close>

text \<open>Raw leaves are identifiers and decimal integers, casts name a type, and operators are C's.\<close>

definition raw_atom :: "string \<Rightarrow> bool" where
  "raw_atom t = (c_word t \<and> t \<notin> set c_typenames \<or> c_number t \<or> t \<noteq> [] \<and> hd t = CHR ''-'' \<and> c_number (tl t))"

definition is_negative :: "CExpr \<Rightarrow> bool" where
  "is_negative e = (case e of CE_RAW t \<Rightarrow> t \<noteq> [] \<and> hd t = CHR ''-'' | _ \<Rightarrow> False)"

fun ce_ok :: "CExpr \<Rightarrow> bool" where
  "ce_ok (CE_RAW t) = raw_atom t"
| "ce_ok (CE_PAREN a) = ce_ok a"
| "ce_ok (CE_CAST ty a) = (c_type_ok ty \<and> ce_ok a)"
| "ce_ok (CE_UNARY op a) = (op \<in> {''*'', ''~''} \<and> ce_ok a)"
| "ce_ok (CE_BINOP op a b) = (c_level op \<noteq> None \<and> ce_ok a \<and> ce_ok b)"
| "ce_ok (CE_CALL f args) = (c_word f \<and> f \<notin> set c_typenames \<and> list_all ce_ok args)"
| "ce_ok (CE_SUBSCRIPT a i) = (\<not> is_negative a \<and> ce_ok a \<and> ce_ok i)"

fun ce_tree :: "CExpr \<Rightarrow> cx" where
  "ce_tree (CE_RAW t) = (if c_word t then XId t else if c_number t then XNum t else XUn ''-'' (XNum (tl t)))"
| "ce_tree (CE_PAREN a) = ce_tree a"
| "ce_tree (CE_CAST ty a) = XCast (c_lex ty) (ce_tree a)"
| "ce_tree (CE_UNARY op a) = XUn op (ce_tree a)"
| "ce_tree (CE_BINOP op a b) = XBin op (ce_tree a) (ce_tree b)"
| "ce_tree (CE_CALL f args) = XCall (XId f) (map ce_tree args)"
| "ce_tree (CE_SUBSCRIPT a i) = XIdx (ce_tree a) (ce_tree i)"

fun ce_level :: "CExpr \<Rightarrow> nat" where
  "ce_level (CE_BINOP op _ _) = the (c_level op)"
| "ce_level (CE_CAST _ _) = 11"
| "ce_level (CE_UNARY _ _) = 11"
| "ce_level (CE_CALL _ _) = 12"
| "ce_level (CE_SUBSCRIPT _ _) = 12"
| "ce_level (CE_RAW t) = 13"
| "ce_level (CE_PAREN _) = 13"

lemma ce_prec_level: "ce_ok e \<Longrightarrow> ce_prec e = Some (prec_of_level (ce_level e)) \<and> ce_level e \<le> 13"
  by (cases e) (auto simp: binop_prec_level le_trans [OF c_level_bound] CE_PREC_CAST_def CE_PREC_POSTFIX_def CE_PREC_PRIMARY_def,
      simp_all add: prec_of_level_def)

definition ce_reads :: "CExpr \<Rightarrow> string \<Rightarrow> bool" where
  "ce_reads e s = (ce_print e = Some s \<and> reads s (ce_tree e) (if is_negative e then 11 else ce_level e))"

lemma child_reads:
  assumes "ce_ok e" "ce_reads e s" "l \<le> 13" "is_negative e \<Longrightarrow> l \<le> 11"
  shows "reads (ce_child s (prec_of_level (ce_level e) < prec_of_level l)) (ce_tree e) l"
proof (cases "ce_level e < l")
  case True
  then have "prec_of_level (ce_level e) < prec_of_level l" using prec_of_level_less [of "ce_level e" l] ce_prec_level [OF assms(1)] assms(3) by blast
  then show ?thesis using assms(2,3) reads_mono [OF reads_paren] by (auto simp: ce_child_def ce_reads_def)
next
  case False
  then have n: "\<not> prec_of_level (ce_level e) < prec_of_level l" using prec_of_level_less [of "ce_level e" l] ce_prec_level [OF assms(1)] assms(3) by blast
  have "l \<le> (if is_negative e then 11 else ce_level e)" using False assms(4) by auto
  then have "reads s (ce_tree e) l" using assms(2) reads_mono unfolding ce_reads_def by blast
  then show ?thesis using n by (simp add: ce_child_def)
qed

lemma prec_less_Suc: "c_level op = Some q \<Longrightarrow> l \<le> 13 \<Longrightarrow> prec_of_level l \<le> prec_of_level q \<longleftrightarrow> prec_of_level l < prec_of_level (Suc q)"
  using prec_of_level_less [of q l] prec_of_level_less [of l "Suc q"] c_level_bound [of op q] by linarith

lemma ce_print_reads: "ce_ok e \<Longrightarrow> \<exists>s. ce_reads e s"
proof (induction e)
  case (CE_RAW t)
  have disj: "c_number t \<Longrightarrow> \<not> c_word t" "t \<noteq> [] \<Longrightarrow> hd t = CHR ''-'' \<Longrightarrow> \<not> c_word t \<and> \<not> c_number t"
    using digit_not_start [of "hd t"] by (auto simp: c_word_def c_number_def ident_start_def is_digit_def)
  consider "c_word t" "t \<notin> set c_typenames" | "c_number t" | "t \<noteq> []" "hd t = CHR ''-''" "c_number (tl t)"
    using CE_RAW by (auto simp: raw_atom_def)
  then show ?case
  proof cases
    case 1
    then have "\<not> is_negative (CE_RAW t)" using disj by (auto simp: is_negative_def)
    then show ?thesis using reads_word [OF 1] 1 by (simp add: ce_reads_def)
  next
    case 2
    then have "\<not> is_negative (CE_RAW t)" using disj by (auto simp: is_negative_def)
    then show ?thesis using reads_number [OF 2] disj(1) [OF 2] 2 by (simp add: ce_reads_def)
  next
    case 3
    then show ?thesis using disj(2) [OF 3(1,2)] reads_negative [OF 3(3)] by (cases t) (auto simp: ce_reads_def is_negative_def)
  qed
next
  case (CE_PAREN a)
  then obtain s where "ce_reads a s" by auto
  then show ?case using reads_paren by (auto simp: ce_reads_def is_negative_def)
next
  case (CE_CAST ty a)
  then obtain s where s: "ce_reads a s" "ce_ok a" "c_type_ok ty" by auto
  have "reads (ce_child s (prec_of_level (ce_level a) < CE_PREC_CAST)) (ce_tree a) 11"
    using child_reads [OF s(2,1), of 11] by (simp add: CE_PREC_CAST_def prec_of_level_def)
  then show ?case using reads_cast [OF s(3)] ce_prec_level [OF s(2)] s(1) by (auto simp: ce_reads_def is_negative_def)
next
  case (CE_UNARY op a)
  then obtain s where s: "ce_reads a s" "ce_ok a" "op \<in> {''*'', ''~''}" by auto
  have "reads (ce_child s (prec_of_level (ce_level a) < CE_PREC_UNARY)) (ce_tree a) 11"
    using child_reads [OF s(2,1), of 11] by (simp add: CE_PREC_UNARY_def prec_of_level_def)
  then show ?case using reads_unary [OF _ s(3)] ce_prec_level [OF s(2)] s(1) by (auto simp: ce_reads_def is_negative_def)
next
  case (CE_BINOP op a b)
  then obtain sa sb q where s: "ce_reads a sa" "ce_reads b sb" "ce_ok a" "ce_ok b" "c_level op = Some q" by auto
  have q: "q \<le> 10" using c_level_bound s(5) by blast
  have "reads (ce_child sa (prec_of_level (ce_level a) < prec_of_level q)) (ce_tree a) q"
    using child_reads [OF s(3,1)] q by simp
  moreover have "reads (ce_child sb (prec_of_level (ce_level b) \<le> prec_of_level q)) (ce_tree b) (Suc q)"
    using child_reads [OF s(4,2), of "Suc q"] q prec_less_Suc [OF s(5)] ce_prec_level [OF s(4)] by simp
  ultimately have "reads (ce_child sa (prec_of_level (ce_level a) < prec_of_level q) @ '' '' @ op @ '' ''
      @ ce_child sb (prec_of_level (ce_level b) \<le> prec_of_level q)) (XBin op (ce_tree a) (ce_tree b)) q"
    by (rule reads_binop [OF s(5)])
  then show ?case
    using s ce_prec_level [OF s(3)] ce_prec_level [OF s(4)] binop_prec_level [OF s(5)] by (auto simp: ce_reads_def is_negative_def)
next
  case (CE_CALL f args)
  then have "\<forall>a \<in> set args. \<exists>s. ce_print a = Some s \<and> reads s (ce_tree a) (if is_negative a then 11 else ce_level a)"
    by (auto simp: list_all_iff ce_reads_def)
  then have "\<exists>ss. those (map ce_print args) = Some ss \<and> args_read ss (map ce_tree args)"
    by (induction args) (auto simp: args_read_def)
  then show ?case using reads_call CE_CALL.prems by (auto simp: ce_reads_def is_negative_def)
next
  case (CE_SUBSCRIPT a i)
  then obtain sa si where s: "ce_reads a sa" "ce_reads i si" "ce_ok a" "\<not> is_negative a" by auto
  have "reads (ce_child sa (prec_of_level (ce_level a) < CE_PREC_POSTFIX)) (ce_tree a) 12"
    using child_reads [OF s(3,1), of 12] s(4) by (simp add: CE_PREC_POSTFIX_def prec_of_level_def)
  then show ?case
    using reads_subscript s(1,2) ce_prec_level [OF s(3)] by (fastforce simp: ce_reads_def is_negative_def)
qed

subsection \<open>The property\<close>

text \<open>C10: the printed text means the tree.  For every expression node whose leaves are identifiers
  and integers the printer writes a text, and the C grammar reads that text as exactly the tree it
  was printed from, although parentheses are only written where the precedence numbers ask for them.\<close>

theorem ce_print_parse: "ce_ok e \<Longrightarrow> \<exists>s. ce_print e = Some s \<and> c_parse s = Some (ce_tree e)"
  using ce_print_reads [of e] reads_parse by (auto simp: ce_reads_def)

text \<open>The case where Ruby and C disagree on precedence: \<open>(a & b) == -1\<close>, whose left operand C would
  otherwise read as \<open>b == -1\<close>.\<close>

theorem ce_print_parse_witness:
  "ce_print (CE_BINOP ''=='' (CE_BINOP ''&'' (CE_RAW ''a'') (CE_RAW ''b'')) (CE_RAW ''-1'')) = Some ''(a & b) == -1''
   \<and> c_parse ''(a & b) == -1'' = Some (XBin ''=='' (XBin ''&'' (XId ''a'') (XId ''b'')) (XUn ''-'' (XNum ''1'')))"
proof -
  let ?e = "CE_BINOP ''=='' (CE_BINOP ''&'' (CE_RAW ''a'') (CE_RAW ''b'')) (CE_RAW ''-1'')"
  have "ce_ok ?e" "ce_print ?e = Some ''(a & b) == -1''"
    "ce_tree ?e = XBin ''=='' (XBin ''&'' (XId ''a'') (XId ''b'')) (XUn ''-'' (XNum ''1''))" by code_simp+
  then show ?thesis using ce_print_parse [of ?e] by simp
qed

end
