(* ===== verification/Cc_Ast.thy ===== *)
theory Cc_Ast
  imports Prelude
begin

text \<open>
  The syntax tree the code generator reads (\<open>src/codegen_c/spinel_ebpf_cc.c\<close>): a table of nodes
  addressed by integers, each with string, integer, reference and array fields; the reader of its text
  dump; and the accessors \<open>nt_type\<close>, \<open>nt_str\<close>, \<open>nt_int\<close>, \<open>nt_ref\<close> and \<open>nt_arr\<close>.  A stop of the
  generator (\<open>die\<close>) is a left value; so is running out of stack, since the walks over the tree
  recurse along references that the reader does not check for cycles.
\<close>

datatype die = Die string | Stack_overflow

subsection \<open>Nodes\<close>

record SpNode =
  nd_type :: "string option"
  nd_s :: "(string \<times> string) list"
  nd_i :: "(string \<times> int) list"
  nd_r :: "(string \<times> int) list"
  nd_a :: "(string \<times> int list) list"

type_synonym AST = "SpNode list"

definition zero_node :: SpNode where
  "zero_node = \<lparr> nd_type = None, nd_s = [], nd_i = [], nd_r = [], nd_a = [] \<rparr>"

definition node_at :: "AST \<Rightarrow> int \<Rightarrow> SpNode option" where
  "node_at t i =
     (if i < 0 \<or> int (length t) \<le> i then None
      else if nd_type (t ! nat i) = None then None else Some (t ! nat i))"

definition ast_ensure :: "AST \<Rightarrow> int \<Rightarrow> AST" where
  "ast_ensure t i = (if i < int (length t) then t else t @ replicate (nat (i + 64) - length t) zero_node)"

definition nt_type :: "AST \<Rightarrow> int \<Rightarrow> string option" where
  "nt_type t i = (case node_at t i of None \<Rightarrow> None | Some n \<Rightarrow> nd_type n)"

definition nt_str :: "AST \<Rightarrow> int \<Rightarrow> string \<Rightarrow> string option" where
  "nt_str t i key = (case node_at t i of None \<Rightarrow> None | Some n \<Rightarrow> map_of (nd_s n) key)"

definition nt_ref :: "AST \<Rightarrow> int \<Rightarrow> string \<Rightarrow> int" where
  "nt_ref t i key =
     (case node_at t i of None \<Rightarrow> - 1 | Some n \<Rightarrow> (case map_of (nd_r n) key of None \<Rightarrow> - 1 | Some r \<Rightarrow> r))"

definition nt_int :: "AST \<Rightarrow> int \<Rightarrow> string \<Rightarrow> int \<Rightarrow> int" where
  "nt_int t i key dflt =
     (case node_at t i of None \<Rightarrow> dflt | Some n \<Rightarrow> (case map_of (nd_i n) key of None \<Rightarrow> dflt | Some v \<Rightarrow> v))"

definition nt_arr :: "AST \<Rightarrow> int \<Rightarrow> string \<Rightarrow> int list" where
  "nt_arr t i key =
     (case node_at t i of None \<Rightarrow> [] | Some n \<Rightarrow> (case map_of (nd_a n) key of None \<Rightarrow> [] | Some ids \<Rightarrow> ids))"

subsection \<open>The text dump\<close>

text \<open>Escapes of string fields.  A decoded NUL ends the C string.\<close>

definition cc_hexv :: "char \<Rightarrow> int" where
  "cc_hexv c =
     (let n = of_char c :: int in
      if 48 \<le> n \<and> n \<le> 57 then n - 48
      else if 97 \<le> n \<and> n \<le> 102 then n - 97 + 10
      else if 65 \<le> n \<and> n \<le> 70 then n - 65 + 10
      else - 1)"

definition backslash_char :: "char \<Rightarrow> string" where
  "backslash_char c =
     (if c = CHR ''n'' then [CHR 0x0A] else if c = CHR ''t'' then [CHR 0x09] else if c = CHR ''r'' then [CHR 0x0D]
      else if c = CHR 0x5C then [CHR 0x5C] else if c = CHR 0x22 then [CHR 0x22] else if c = CHR ''0'' then [CHR 0x00]
      else [CHR 0x5C, c])"

function unescape_chars :: "string \<Rightarrow> string" where
  "unescape_chars [] = []"
| "unescape_chars (c # s) =
     (if c = CHR 0x25 \<and> 2 \<le> length s \<and> 0 \<le> cc_hexv (s ! 0) \<and> 0 \<le> cc_hexv (s ! 1)
      then char_of (nat (cc_hexv (s ! 0) * 16 + cc_hexv (s ! 1))) # unescape_chars (drop 2 s)
      else if c = CHR 0x5C \<and> s \<noteq> [] then backslash_char (hd s) @ unescape_chars (tl s)
      else c # unescape_chars s)"
  by pat_completeness auto
termination
  by (relation "measure length") auto

definition cc_unescape :: "string \<Rightarrow> string" where
  "cc_unescape s = takeWhile (\<lambda>c. c \<noteq> CHR 0x00) (unescape_chars s)"

text \<open>The rest of a line after \<open>tok\<close> fields.\<close>

fun after_fields :: "string \<Rightarrow> nat \<Rightarrow> string" where
  "after_fields line 0 = line"
| "after_fields line (Suc tok) = after_fields (tl (dropWhile (\<lambda>c. c \<noteq> CHR '' '') line)) tok"

text \<open>\<open>sscanf(line, "X %d %63s", &id, key)\<close>, with what is left of the line.\<close>

definition scan_field :: "string \<Rightarrow> (int \<times> string \<times> string) option" where
  "scan_field line =
     (case scan_int (tl line) of
        None \<Rightarrow> None
      | Some (i, r) \<Rightarrow> (case scan_str 63 r of None \<Rightarrow> None | Some (key, r') \<Rightarrow> Some (i, key, r')))"

text \<open>Adding a field to an existing node; each kind has room for eight.\<close>

definition field_cap :: nat where "field_cap = 8"

definition add_field :: "AST \<Rightarrow> int \<Rightarrow> (SpNode \<Rightarrow> nat) \<Rightarrow> string \<Rightarrow> (SpNode \<Rightarrow> SpNode) \<Rightarrow> die + AST" where
  "add_field t i used msg upd =
     (case node_at t i of
        None \<Rightarrow> Inr t
      | Some n \<Rightarrow> if field_cap \<le> used n then Inl (Die msg) else Inr (t[nat i := upd n]))"

definition csv_ids :: "string \<Rightarrow> int list" where
  "csv_ids csv = (if csv = [] then [] else map c_atoi (c_split CHR '','' csv))"

text \<open>One line of the dump.  A negative node number makes the C code write before the table; it is
  reported as a stop.\<close>

definition ast_line :: "AST \<Rightarrow> string \<Rightarrow> die + AST" where
  "ast_line t line =
     (if c_starts line ''N '' then
        (case scan_field line of
           None \<Rightarrow> Inr t
         | Some (i, ty, _) \<Rightarrow>
             if i < 0 then Inl (Die ''negative node id'')
             else let t' = ast_ensure t i in Inr (t'[nat i := (t' ! nat i) \<lparr> nd_type := Some ty \<rparr>]))
      else if c_starts line ''S '' then
        (case scan_field line of
           None \<Rightarrow> Inr t
         | Some (i, key, _) \<Rightarrow>
             add_field t i (\<lambda>n. length (nd_s n)) ''S-field overflow (raise SpNode cap)''
               (\<lambda>n. n \<lparr> nd_s := nd_s n @ [(key, cc_unescape (after_fields line 3))] \<rparr>))
      else if c_starts line ''I '' then
        (case scan_field line of
           None \<Rightarrow> Inr t
         | Some (i, key, r) \<Rightarrow>
             (case scan_int r of
                None \<Rightarrow> Inr t
              | Some (v, _) \<Rightarrow> add_field t i (\<lambda>n. length (nd_i n)) ''I-field overflow'' (\<lambda>n. n \<lparr> nd_i := nd_i n @ [(key, v)] \<rparr>)))
      else if c_starts line ''R '' then
        (case scan_field line of
           None \<Rightarrow> Inr t
         | Some (i, key, r) \<Rightarrow>
             (case scan_int r of
                None \<Rightarrow> Inr t
              | Some (v, _) \<Rightarrow> add_field t i (\<lambda>n. length (nd_r n)) ''R-field overflow'' (\<lambda>n. n \<lparr> nd_r := nd_r n @ [(key, v)] \<rparr>)))
      else if c_starts line ''A '' then
        (case scan_field line of
           None \<Rightarrow> Inr t
         | Some (i, key, _) \<Rightarrow>
             add_field t i (\<lambda>n. length (nd_a n)) ''A-field overflow''
               (\<lambda>n. n \<lparr> nd_a := nd_a n @ [(key, csv_ids (after_fields line 3))] \<rparr>))
      else Inr t)"

fun ast_lines :: "string list \<Rightarrow> AST \<Rightarrow> die + AST" where
  "ast_lines [] t = Inr t"
| "ast_lines (l # ls) t = (case ast_line t l of Inl d \<Rightarrow> Inl d | Inr t' \<Rightarrow> ast_lines ls t')"

definition ast_parse :: "string \<Rightarrow> die + AST" where
  "ast_parse s = ast_lines (c_strtok CHR 0x0A s) []"

end
