(* ===== verification/Cc_Ir.thy ===== *)
theory Cc_Ir
  imports Cc_Ast
begin

text \<open>
  Method signatures of the code generator (\<open>src/codegen_c/spinel_ebpf_cc.c\<close>) and the two ways they
  reach it: \<open>fill_ir_from_compiler\<close> reads them from the analysed program of the upstream compiler,
  and \<open>cc_build_ir_text\<close> writes them as a text that \<open>ir_parse\<close> reads back.  The property shows that
  both ways give the same eligible methods.

  The upstream compiler is not part of the repository; what its accessors return is a record here.
\<close>

subsection \<open>Types and methods\<close>

datatype CcTy = CC_TY_UNKNOWN | CC_TY_INT | CC_TY_VOID | CC_TY_BOOL

definition ty_base :: "string \<Rightarrow> string" where
  "ty_base s = (if s \<noteq> [] \<and> last s = CHR ''?'' then butlast s else s)"

definition ty_from_legacy :: "string \<Rightarrow> CcTy" where
  "ty_from_legacy s =
     (let b = ty_base s in
      if b = ''int'' then CC_TY_INT
      else if b = ''bool'' then CC_TY_BOOL
      else if b = ''void'' \<or> b = ''nil'' then CC_TY_VOID
      else CC_TY_UNKNOWN)"

definition ty_to_c :: "CcTy \<Rightarrow> string option" where
  "ty_to_c t =
     (case t of CC_TY_INT \<Rightarrow> Some ''__s64'' | CC_TY_VOID \<Rightarrow> Some ''void'' | CC_TY_BOOL \<Rightarrow> Some ''__s32''
      | CC_TY_UNKNOWN \<Rightarrow> None)"

datatype so_kind = SO_NONE | SO_TCP_CC | SO_SCHED_EXT | SO_QDISC

record Method =
  me_name :: string
  me_cls :: "string option"
  me_pnames :: "string list"
  me_ptypes :: "CcTy list"
  me_ret :: CcTy
  me_body_id :: int
  me_so_kind :: so_kind
  me_so_member :: "string option"

definition c_keywords :: "string list" where
  "c_keywords = [''auto'', ''break'', ''case'', ''char'', ''const'', ''continue'', ''default'', ''do'', ''double'', ''else'',
     ''enum'', ''extern'', ''float'', ''for'', ''goto'', ''if'', ''inline'', ''int'', ''long'', ''register'', ''restrict'',
     ''return'', ''short'', ''signed'', ''sizeof'', ''static'', ''struct'', ''switch'', ''typedef'', ''union'', ''unsigned'',
     ''void'', ''volatile'', ''while'', ''_Bool'', ''_Complex'', ''_Imaginary'', ''_Atomic'', ''_Static_assert'',
     ''_Thread_local'', ''_Alignas'', ''_Alignof'', ''_Generic'', ''_Noreturn'']"

definition cc_is_c_keyword :: "string \<Rightarrow> bool" where
  "cc_is_c_keyword s = (s \<in> set c_keywords)"

definition cc_safe_dup :: "string \<Rightarrow> string" where
  "cc_safe_dup name = (if name \<noteq> [] \<and> cc_is_c_keyword name then name @ ''_'' else name)"

text \<open>Parameters from a comma list of names and a comma list of type tags.\<close>

definition method_set_params :: "Method \<Rightarrow> string \<Rightarrow> string \<Rightarrow> Method" where
  "method_set_params me pn pt =
     (if pn = [] then me
      else let ns = map cc_safe_dup (c_split CHR '','' pn); tt = c_split CHR '','' pt in
           me \<lparr> me_pnames := ns,
                me_ptypes := map (\<lambda>k. ty_from_legacy (if k < length tt then tt ! k else [])) [0..<length ns] \<rparr>)"

definition zero_method :: Method where
  "zero_method = \<lparr> me_name = [], me_cls = None, me_pnames = [], me_ptypes = [], me_ret = CC_TY_UNKNOWN, me_body_id = 0,
     me_so_kind = SO_NONE, me_so_member = None \<rparr>"

definition so_of_parent :: "string \<Rightarrow> so_kind \<times> string" where
  "so_of_parent parent =
     (if parent = ''BPF_SchedExt'' then (SO_SCHED_EXT, ''sched_ext'')
      else if parent = ''BPF_Qdisc'' then (SO_QDISC, ''qdisc'')
      else if parent = ''BPF_TcpCC'' then (SO_TCP_CC, ''tcp_cc'')
      else (SO_NONE, []))"

text \<open>A method of a class, or the member of a struct\_ops class.\<close>

definition class_owner :: "string \<Rightarrow> string \<Rightarrow> string \<Rightarrow> Method \<Rightarrow> Method" where
  "class_owner parent cls name me =
     (let (k, prefix) = so_of_parent parent in
      if k \<noteq> SO_NONE then me \<lparr> me_cls := None, me_name := prefix @ ''__'' @ name, me_so_kind := k, me_so_member := Some name \<rparr>
      else me \<lparr> me_cls := Some cls, me_name := name \<rparr>)"

record IR =
  ir_m :: "Method list"
  ir_ncls :: nat
  ir_cls_names :: "string list"
  ir_cls_ivar_names :: "string list"
  ir_cls_ivar_types :: "string list"
  ir_cls_parents :: "string list"

subsection \<open>Reading the text\<close>

text \<open>\<open>strtol\<close> on two characters, accepted when it consumes both: two hexadecimal digits, or one after
  a sign or white space.\<close>

definition pct_value :: "char \<Rightarrow> char \<Rightarrow> int option" where
  "pct_value a b =
     (if cc_hexv b < 0 then None
      else if 0 \<le> cc_hexv a then Some (cc_hexv a * 16 + cc_hexv b)
      else if is_space a \<or> a = CHR ''+'' then Some (cc_hexv b)
      else if a = CHR ''-'' then Some (- cc_hexv b)
      else None)"

function pct_chars :: "string \<Rightarrow> string" where
  "pct_chars [] = []"
| "pct_chars (c # s) =
     (if c = CHR 0x25 \<and> 2 \<le> length s \<and> pct_value (s ! 0) (s ! 1) \<noteq> None
      then char_of (nat (the (pct_value (s ! 0) (s ! 1)) mod 256)) # pct_chars (drop 2 s)
      else c # pct_chars s)"
  by pat_completeness auto
termination
  by (relation "measure length") auto

definition pct_decode :: "string \<Rightarrow> string" where
  "pct_decode s = takeWhile (\<lambda>c. c \<noteq> CHR 0x00) (pct_chars s)"

text \<open>The rest of a line after \<open>SA @key <count>\<close> or \<open>IA @key <count>\<close>.\<close>

definition ir_payload :: "string \<Rightarrow> string \<Rightarrow> string option" where
  "ir_payload line key =
     (if \<not> c_starts line ''SA '' \<and> \<not> c_starts line ''IA '' then None
      else let p = drop 3 line in
        if \<not> c_starts p (key @ '' '') then None
        else let q = dropWhile (\<lambda>c. c \<noteq> CHR '' '') (drop (length key + 1) p) in Some (tl q))"

record ir_tables =
  it_names :: "string list"
  it_pnames :: "string list"
  it_ptypes :: "string list"
  it_rets :: "string list"
  it_bids :: "string list"
  it_cls_names :: "string list"
  it_cls_ivar_names :: "string list"
  it_cls_ivar_types :: "string list"
  it_cmn :: "string list"
  it_cmp :: "string list"
  it_cmpt :: "string list"
  it_cmr :: "string list"
  it_cmb :: "string list"
  it_cls_parents :: "string list"

definition ir_tables0 :: ir_tables where
  "ir_tables0 = \<lparr> it_names = [], it_pnames = [], it_ptypes = [], it_rets = [], it_bids = [], it_cls_names = [],
     it_cls_ivar_names = [], it_cls_ivar_types = [], it_cmn = [], it_cmp = [], it_cmpt = [], it_cmr = [], it_cmb = [],
     it_cls_parents = [] \<rparr>"

abbreviation bar :: char where "bar \<equiv> CHR 0x7C"

text \<open>The keys in the order they are tried, with the table each one sets.\<close>

definition ir_keys :: "(string \<times> (string \<Rightarrow> ir_tables \<Rightarrow> ir_tables)) list" where
  "ir_keys =
     [(''@meth_names'', \<lambda>v t. t \<lparr> it_names := c_split bar v \<rparr>),
      (''@meth_param_names'', \<lambda>v t. t \<lparr> it_pnames := c_split bar v \<rparr>),
      (''@meth_param_types'', \<lambda>v t. t \<lparr> it_ptypes := c_split bar v \<rparr>),
      (''@meth_return_types'', \<lambda>v t. t \<lparr> it_rets := c_split bar v \<rparr>),
      (''@meth_body_ids'', \<lambda>v t. t \<lparr> it_bids := c_split CHR '','' v \<rparr>),
      (''@cls_names'', \<lambda>v t. t \<lparr> it_cls_names := c_split bar v \<rparr>),
      (''@cls_ivar_names'', \<lambda>v t. t \<lparr> it_cls_ivar_names := c_split bar v \<rparr>),
      (''@cls_ivar_types'', \<lambda>v t. t \<lparr> it_cls_ivar_types := c_split bar v \<rparr>),
      (''@cls_meth_names'', \<lambda>v t. t \<lparr> it_cmn := c_split bar v \<rparr>),
      (''@cls_meth_params'', \<lambda>v t. t \<lparr> it_cmp := c_split bar v \<rparr>),
      (''@cls_meth_ptypes'', \<lambda>v t. t \<lparr> it_cmpt := c_split bar v \<rparr>),
      (''@cls_meth_returns'', \<lambda>v t. t \<lparr> it_cmr := c_split bar v \<rparr>),
      (''@cls_meth_bodies'', \<lambda>v t. t \<lparr> it_cmb := c_split bar v \<rparr>),
      (''@cls_parents'', \<lambda>v t. t \<lparr> it_cls_parents := c_split bar v \<rparr>)]"

fun try_keys :: "(string \<times> (string \<Rightarrow> ir_tables \<Rightarrow> ir_tables)) list \<Rightarrow> string \<Rightarrow> ir_tables \<Rightarrow> ir_tables" where
  "try_keys [] line t = t"
| "try_keys ((k, f) # ks) line t = (case ir_payload line k of Some v \<Rightarrow> f v t | None \<Rightarrow> try_keys ks line t)"

definition ir_line :: "string \<Rightarrow> ir_tables \<Rightarrow> ir_tables" where
  "ir_line line t = try_keys ir_keys line t"

text \<open>\<open>(i < n) ? xs[i] : dflt\<close>.\<close>

definition nth_or :: "string list \<Rightarrow> nat \<Rightarrow> string \<Rightarrow> string" where
  "nth_or xs i dflt = (if i < length xs then xs ! i else dflt)"

definition top_method :: "ir_tables \<Rightarrow> nat \<Rightarrow> Method" where
  "top_method t i =
     method_set_params
       (zero_method \<lparr> me_name := it_names t ! i,
          me_ret := (if i < length (it_rets t) then ty_from_legacy (it_rets t ! i) else CC_TY_UNKNOWN),
          me_body_id := (if i < length (it_bids t) then c_atoi (it_bids t ! i) else - 1) \<rparr>)
       (nth_or (it_pnames t) i []) (nth_or (it_ptypes t) i [])"

definition class_methods :: "ir_tables \<Rightarrow> nat \<Rightarrow> Method list" where
  "class_methods t c =
     (let mn = c_split CHR '';'' (it_cmn t ! c);
          rr = (if c < length (it_cmr t) then c_split CHR '';'' (it_cmr t ! c) else []);
          bb = (if c < length (it_cmb t) then c_split CHR '';'' (it_cmb t ! c) else []);
          pp = (if c < length (it_cmp t) then c_split bar (pct_decode (it_cmp t ! c)) else []);
          qq = (if c < length (it_cmpt t) then c_split bar (pct_decode (it_cmpt t ! c)) else []);
          parent = nth_or (it_cls_parents t) c []
      in map (\<lambda>j. class_owner parent (it_cls_names t ! c) (mn ! j)
           (method_set_params
              (zero_method \<lparr> me_ret := (if j < length rr then ty_from_legacy (rr ! j) else CC_TY_UNKNOWN),
                 me_body_id := (if j < length bb then c_atoi (bb ! j) else - 1) \<rparr>)
              (nth_or pp j []) (nth_or qq j []))) [0..<length mn])"

definition ir_parse :: "string \<Rightarrow> IR" where
  "ir_parse s =
     (let t = fold ir_line (c_strtok CHR 0x0A s) ir_tables0 in
      \<lparr> ir_m = map (top_method t) [0..<length (it_names t)]
          @ concat (map (class_methods t) [0..<min (length (it_cls_names t)) (length (it_cmn t))]),
        ir_ncls = length (it_cls_names t), ir_cls_names = it_cls_names t, ir_cls_ivar_names = it_cls_ivar_names t,
        ir_cls_ivar_types = it_cls_ivar_types t, ir_cls_parents = it_cls_parents t \<rparr>)"

subsection \<open>What the upstream compiler provides\<close>

datatype TyKind = TY_UNKNOWN | TY_POLY | TY_INT | TY_OBJECT int | TY_OTHER nat

text \<open>A parameter comes with the type of the local variable of its name, if there is one.\<close>

record Scope =
  sc_name :: "string option"
  sc_class_id :: int
  sc_ret :: TyKind
  sc_body :: int
  sc_params :: "(string option \<times> TyKind option) list"
  sc_locals :: "(string option \<times> TyKind) list"

record ClassInfo =
  cl_name :: "string option"
  cl_parent :: int
  cl_def_node :: int
  cl_ivars :: "(string \<times> TyKind) list"

record Compiler =
  co_scopes :: "Scope list"
  co_classes :: "ClassInfo list"
  co_nt :: AST
  co_ty_name :: "TyKind \<Rightarrow> string"

definition str_of :: "string option \<Rightarrow> string" where
  "str_of x = (case x of None \<Rightarrow> [] | Some s \<Rightarrow> s)"

definition class_at :: "Compiler \<Rightarrow> int \<Rightarrow> string option" where
  "class_at c i = (if 0 \<le> i \<and> i < int (length (co_classes c)) then cl_name (co_classes c ! nat i) else None)"

definition cc_ty_tag_into :: "Compiler \<Rightarrow> TyKind \<Rightarrow> string" where
  "cc_ty_tag_into c t =
     (case t of
        TY_OBJECT i \<Rightarrow> (case class_at c i of Some nm \<Rightarrow> ''obj_'' @ nm | None \<Rightarrow> ''object'')
      | _ \<Rightarrow> co_ty_name c t)"

definition cc_emit_parent_tag :: "Compiler \<Rightarrow> ClassInfo \<Rightarrow> string" where
  "cc_emit_parent_tag c cl =
     (case class_at c (cl_parent cl) of
        Some nm \<Rightarrow> nm
      | None \<Rightarrow>
          if cl_def_node cl < 0 then []
          else let sup = nt_ref (co_nt c) (cl_def_node cl) ''superclass'' in
            if sup < 0 then []
            else if nt_type (co_nt c) sup = Some ''ConstantPathNode'' then
              let par = nt_ref (co_nt c) sup ''parent'';
                  pn = (if 0 \<le> par then str_of (nt_str (co_nt c) par ''name'') else [])
              in (if pn \<noteq> [] then pn @ ''_'' else []) @ str_of (nt_str (co_nt c) sup ''name'')
            else if nt_type (co_nt c) sup = Some ''ConstantReadNode'' then str_of (nt_str (co_nt c) sup ''name'')
            else [])"

definition verdict_prefixes :: "string list" where
  "verdict_prefixes = [''xdp__'', ''xdp_tail__'', ''tc__'', ''sk_reuseport__'', ''sk_msg__'', ''sk_skb__'', ''lsm__'',
     ''fmod_ret__'', ''cgroup__'', ''socket_filter__'', ''flow_dissector__'', ''sk_lookup__'', ''iter__'', ''kprobe__'',
     ''kretprobe__'', ''tracepoint__'', ''fentry__'', ''fexit__'', ''uprobe__'', ''uretprobe__'', ''usdt__'', ''raw_tp__'',
     ''sock_ops__'', ''perf_event__'', ''user_ringbuf__'', ''spnl_timer__'']"

definition cc_verdict_handler :: "string \<Rightarrow> bool" where
  "cc_verdict_handler name = list_ex (c_starts name) verdict_prefixes"

text \<open>Whole-segment search in a comma-separated environment variable.\<close>

function env_list_has :: "string \<Rightarrow> string \<Rightarrow> bool" where
  "env_list_has name ex =
     (if ex = [] then False
      else let seg = takeWhile (\<lambda>c. c \<noteq> CHR '','') ex; rest = dropWhile (\<lambda>c. c \<noteq> CHR '','') ex
           in seg = name \<or> rest \<noteq> [] \<and> env_list_has name (tl rest))"
  by pat_completeness auto
termination
proof (relation "measure (\<lambda>(_, ex). length ex)", goal_cases)
  case (2 name ex seg rest)
  then have "length rest \<le> length ex" "0 < length ex" by (simp_all add: length_dropWhile_le)
  then have "length (tl rest) < length ex" unfolding length_tl by linarith
  then show ?case by simp
qed simp

declare env_list_has.simps [simp del]

definition cc_name_in_env_list :: "(string \<Rightarrow> string option) \<Rightarrow> string \<Rightarrow> string \<Rightarrow> bool" where
  "cc_name_in_env_list getenv name env = (case getenv env of None \<Rightarrow> False | Some ex \<Rightarrow> env_list_has name ex)"

definition cc_is_consumer_fn :: "(string \<Rightarrow> string option) \<Rightarrow> string \<Rightarrow> bool" where
  "cc_is_consumer_fn getenv name = (c_starts name ''__spnl_'' \<or> cc_name_in_env_list getenv name ''SPNL_EBPF_EXCLUDE'')"

definition cc_is_free_fn :: "(string \<Rightarrow> string option) \<Rightarrow> Scope \<Rightarrow> bool" where
  "cc_is_free_fn getenv s = (sc_class_id s < 0 \<and> str_of (sc_name s) \<noteq> [] \<and> \<not> cc_is_consumer_fn getenv (str_of (sc_name s)))"

subsection \<open>Filling the methods in process\<close>

definition is_open_type :: "TyKind \<Rightarrow> bool" where
  "is_open_type t = (t = TY_UNKNOWN \<or> t = TY_POLY)"

definition param_tag :: "Compiler \<Rightarrow> TyKind option \<Rightarrow> string" where
  "param_tag c p =
     cc_ty_tag_into c (case p of None \<Rightarrow> TY_INT | Some t \<Rightarrow> if is_open_type t then TY_INT else t)"

definition param_names :: "Scope \<Rightarrow> string" where
  "param_names s = join_with '','' (map (\<lambda>(n, _). str_of n) (sc_params s))"

definition param_tags :: "Compiler \<Rightarrow> Scope \<Rightarrow> string" where
  "param_tags c s = join_with '','' (map (\<lambda>(_, t). param_tag c t) (sc_params s))"

definition cc_fill_params :: "Compiler \<Rightarrow> Scope \<Rightarrow> Method \<Rightarrow> Method" where
  "cc_fill_params c s me = method_set_params me (param_names s) (param_tags c s)"

definition free_ret_tag :: "Compiler \<Rightarrow> Scope \<Rightarrow> string" where
  "free_ret_tag c s =
     (if is_open_type (sc_ret s) \<and> cc_verdict_handler (str_of (sc_name s)) then ''int''
      else if is_open_type (sc_ret s) then ''nil''
      else cc_ty_tag_into c (sc_ret s))"

definition class_ret_tag :: "Compiler \<Rightarrow> Scope \<Rightarrow> string" where
  "class_ret_tag c s =
     (if str_of (sc_name s) = ''initialize'' then ''void''
      else if is_open_type (sc_ret s) then ''nil''
      else cc_ty_tag_into c (sc_ret s))"

definition ivar_tag :: "Compiler \<Rightarrow> TyKind \<Rightarrow> string" where
  "ivar_tag c t = (if is_open_type t then ''int'' else cc_ty_tag_into c t)"

text \<open>Classes are kept under their number, except unnamed ones and the injected class \<open>Method\<close>.\<close>

definition kept_classes :: "Compiler \<Rightarrow> (nat \<times> ClassInfo) list" where
  "kept_classes c =
     filter (\<lambda>(_, cl). str_of (cl_name cl) \<noteq> [] \<and> str_of (cl_name cl) \<noteq> ''Method'')
       (zip [0..<length (co_classes c)] (co_classes c))"

definition free_scopes :: "(string \<Rightarrow> string option) \<Rightarrow> Compiler \<Rightarrow> Scope list" where
  "free_scopes getenv c = filter (cc_is_free_fn getenv) (tl (co_scopes c))"

definition class_scopes :: "Compiler \<Rightarrow> nat \<Rightarrow> Scope list" where
  "class_scopes c ci = filter (\<lambda>s. sc_class_id s = int ci \<and> str_of (sc_name s) \<noteq> []) (tl (co_scopes c))"

definition free_method :: "Compiler \<Rightarrow> Scope \<Rightarrow> Method" where
  "free_method c s =
     cc_fill_params c s
       (zero_method \<lparr> me_name := str_of (sc_name s), me_ret := ty_from_legacy (free_ret_tag c s), me_body_id := sc_body s \<rparr>)"

definition class_method :: "Compiler \<Rightarrow> ClassInfo \<Rightarrow> Scope \<Rightarrow> Method" where
  "class_method c cl s =
     class_owner (cc_emit_parent_tag c cl) (str_of (cl_name cl)) (str_of (sc_name s))
       (cc_fill_params c s (zero_method \<lparr> me_ret := ty_from_legacy (class_ret_tag c s), me_body_id := sc_body s \<rparr>))"

definition fill_ir_from_compiler :: "(string \<Rightarrow> string option) \<Rightarrow> Compiler \<Rightarrow> IR" where
  "fill_ir_from_compiler getenv c =
     \<lparr> ir_m = map (free_method c) (free_scopes getenv c)
         @ concat (map (\<lambda>(ci, cl). map (class_method c cl) (class_scopes c ci)) (kept_classes c)),
       ir_ncls = length (kept_classes c),
       ir_cls_names = map (\<lambda>(_, cl). str_of (cl_name cl)) (kept_classes c),
       ir_cls_ivar_names = map (\<lambda>(_, cl). join_with '';'' (map fst (cl_ivars cl))) (kept_classes c),
       ir_cls_ivar_types = map (\<lambda>(_, cl). join_with '';'' (map (ivar_tag c \<circ> snd) (cl_ivars cl))) (kept_classes c),
       ir_cls_parents = map (\<lambda>(_, cl). cc_emit_parent_tag c cl) (kept_classes c) \<rparr>"

subsection \<open>Writing the text\<close>

definition ir_field :: "string \<Rightarrow> string \<Rightarrow> nat \<Rightarrow> string \<Rightarrow> string" where
  "ir_field tag key n v = tag @ '' '' @ key @ '' '' @ dec_of n @ '' '' @ v"

definition scope_lines :: "Compiler \<Rightarrow> Scope \<Rightarrow> string list" where
  "scope_lines c s =
     (if sc_body s < 0 \<or> sc_locals s = [] then []
      else [''SN '' @ show_int (sc_body s) @ '' '' @ join_with [bar] (map (str_of \<circ> fst) (sc_locals s)),
            ''ST '' @ show_int (sc_body s) @ '' '' @ join_with [bar] (map (cc_ty_tag_into c \<circ> snd) (sc_locals s))])"

definition ir_text_lines :: "(string \<Rightarrow> string option) \<Rightarrow> Compiler \<Rightarrow> string list" where
  "ir_text_lines getenv c =
     (let fs = free_scopes getenv c; ks = kept_classes c; m = length fs; k = length ks;
          per = (\<lambda>sep f. join_with [bar] (map (\<lambda>(ci, _). join_with sep (map f (class_scopes c ci))) ks))
      in [''SPINEL-IR v1'',
          ir_field ''SA'' ''@meth_names'' m (join_with [bar] (map (str_of \<circ> sc_name) fs)),
          ir_field ''SA'' ''@meth_param_names'' m (join_with [bar] (map param_names fs)),
          ir_field ''SA'' ''@meth_param_types'' m (join_with [bar] (map (param_tags c) fs)),
          ir_field ''SA'' ''@meth_return_types'' m (join_with [bar] (map (free_ret_tag c) fs)),
          ir_field ''IA'' ''@meth_body_ids'' m (join_with '','' (map (show_int \<circ> sc_body) fs)),
          ir_field ''SA'' ''@cls_names'' k (join_with [bar] (map (\<lambda>(_, cl). str_of (cl_name cl)) ks)),
          ir_field ''SA'' ''@cls_parents'' k (join_with [bar] (map (\<lambda>(_, cl). cc_emit_parent_tag c cl) ks)),
          ir_field ''SA'' ''@cls_ivar_names'' k (join_with [bar] (map (\<lambda>(_, cl). join_with '';'' (map fst (cl_ivars cl))) ks)),
          ir_field ''SA'' ''@cls_ivar_types'' k (join_with [bar] (map (\<lambda>(_, cl). join_with '';'' (map (ivar_tag c \<circ> snd) (cl_ivars cl))) ks)),
          ir_field ''SA'' ''@cls_meth_names'' k (per '';'' (str_of \<circ> sc_name)),
          ir_field ''SA'' ''@cls_meth_returns'' k (per '';'' (class_ret_tag c)),
          ir_field ''SA'' ''@cls_meth_ptypes'' k (per ''%7C'' (param_tags c)),
          ir_field ''SA'' ''@cls_meth_params'' k (per ''%7C'' param_names),
          ir_field ''SA'' ''@cls_meth_bodies'' k (per '';'' (show_int \<circ> sc_body))]
         @ concat (map (scope_lines c) (co_scopes c))
         @ [''INT @needs_regexp 0'', ''INT @needs_rand 0'', ''INT @needs_lambda 0'',
            ''INT @needs_file_io 0'', ''INT @needs_fiber 0'', ''INT @needs_bigint 0''])"

definition cc_build_ir_text :: "(string \<Rightarrow> string option) \<Rightarrow> Compiler \<Rightarrow> string" where
  "cc_build_ir_text getenv c = print_lines (ir_text_lines getenv c)"

subsection \<open>Eligibility\<close>

definition cc_sig_eligible :: "Method \<Rightarrow> bool" where
  "cc_sig_eligible me =
     (0 \<le> me_body_id me \<and> me_ret me \<in> {CC_TY_INT, CC_TY_VOID, CC_TY_BOOL}
      \<and> list_all (\<lambda>t. t = CC_TY_INT \<or> t = CC_TY_BOOL) (me_ptypes me))"

definition cc_partition_native :: "(string \<Rightarrow> string option) \<Rightarrow> Method \<Rightarrow> bool" where
  "cc_partition_native getenv me =
     (case me_cls me of
        Some cls \<Rightarrow> cc_name_in_env_list getenv (c_trunc 256 (cls @ ''#'' @ me_name me)) ''SPNL_PARTITION_NATIVE''
      | None \<Rightarrow> cc_name_in_env_list getenv (me_name me) ''SPNL_PARTITION_NATIVE'')"

definition cc_method_eligible :: "(string \<Rightarrow> string option) \<Rightarrow> Method \<Rightarrow> bool" where
  "cc_method_eligible getenv me = (cc_sig_eligible me \<and> \<not> cc_partition_native getenv me)"

subsection \<open>Both ways agree\<close>

text \<open>Names and type tags hold none of the separators of the text format.\<close>

definition clean :: "string \<Rightarrow> bool" where
  "clean s = list_all (\<lambda>c. c \<notin> {bar, CHR 0x0A, CHR '','', CHR '';'', CHR 0x25, CHR 0x00}) s"

definition scope_clean :: "Compiler \<Rightarrow> Scope \<Rightarrow> bool" where
  "scope_clean c s =
     (clean (str_of (sc_name s)) \<and> clean (free_ret_tag c s) \<and> clean (class_ret_tag c s)
      \<and> list_all (\<lambda>(n, t). clean (str_of n) \<and> clean (param_tag c t)) (sc_params s)
      \<and> list_all (\<lambda>(n, t). clean (str_of n) \<and> clean (cc_ty_tag_into c t)) (sc_locals s))"

definition compiler_clean :: "Compiler \<Rightarrow> bool" where
  "compiler_clean c =
     (list_all (scope_clean c) (co_scopes c)
      \<and> list_all (\<lambda>cl. clean (str_of (cl_name cl)) \<and> clean (cc_emit_parent_tag c cl)
          \<and> list_all (\<lambda>(n, t). clean n \<and> clean (ivar_tag c t)) (cl_ivars cl)) (co_classes c))"

lemma clean_chars: "clean s \<Longrightarrow> bar \<notin> set s \<and> CHR 0x0A \<notin> set s \<and> CHR '','' \<notin> set s \<and> CHR '';'' \<notin> set s \<and> CHR 0x25 \<notin> set s \<and> CHR 0x00 \<notin> set s"
  by (auto simp: clean_def list_all_iff)

lemma show_int_clean: "clean (show_int i)"
  using show_int_chars [of i] by (auto simp: clean_def list_all_iff is_digit_def)

definition plain_chars :: "string \<Rightarrow> bool" where
  "plain_chars s = list_all (\<lambda>c. c \<notin> {bar, CHR 0x0A, CHR 0x25, CHR 0x00}) s"

lemma join_plain: "\<forall>w \<in> set ws. clean w \<Longrightarrow> sep \<in> {'','', '';''} \<Longrightarrow> plain_chars (join_with sep ws)"
  using set_join_with [of sep ws] by (fastforce simp: plain_chars_def clean_def list_all_iff)

lemma pct_chars_plain: "CHR 0x25 \<notin> set w \<Longrightarrow> pct_chars w = w"
  by (induction w) auto

lemma pct_chars_append: "CHR 0x25 \<notin> set w \<Longrightarrow> pct_chars (w @ s) = w @ pct_chars s"
  by (induction w) auto

lemma pct_chars_sep: "pct_chars (''%7C'' @ s) = bar # pct_chars s"
proof -
  have "char_of (124 :: nat) = bar" by code_simp
  then show ?thesis by (simp add: pct_value_def cc_hexv_def)
qed

lemma pct_chars_join: "\<forall>w \<in> set ws. CHR 0x25 \<notin> set w \<Longrightarrow> pct_chars (join_with ''%7C'' ws) = join_with [bar] ws"
  by (induction "''%7C''" ws rule: join_with.induct)
    (simp_all add: pct_chars_plain pct_chars_append pct_chars_sep del: pct_chars.simps(2) append_Cons)

lemma pct_decode_join:
  assumes "\<forall>w \<in> set ws. plain_chars w"
  shows "pct_decode (join_with ''%7C'' ws) = join_with [bar] ws"
proof -
  have "\<forall>w \<in> set ws. CHR 0x25 \<notin> set w" using assms by (auto simp: plain_chars_def list_all_iff)
  then have e: "pct_chars (join_with ''%7C'' ws) = join_with [bar] ws" by (rule pct_chars_join)
  have "CHR 0x00 \<notin> set (join_with [bar] ws)"
    using set_join_with [of "[bar]" ws] assms by (auto simp: plain_chars_def list_all_iff)
  then show ?thesis unfolding pct_decode_def e by (auto simp: takeWhile_eq_all_conv)
qed

text \<open>A field line is found under its own key and no other.\<close>

lemma starts_key:
  assumes "CHR '' '' \<notin> set k" "CHR '' '' \<notin> set k'"
  shows "c_starts (k @ CHR '' '' # r) (k' @ '' '') \<longleftrightarrow> k = k'"
proof
  assume "c_starts (k @ CHR '' '' # r) (k' @ '' '')"
  then obtain r' where "k @ CHR '' '' # r = k' @ CHR '' '' # r'" by (auto simp: c_starts_iff)
  then have "takeWhile (\<lambda>c. c \<noteq> CHR '' '') (k @ CHR '' '' # r) = takeWhile (\<lambda>c. c \<noteq> CHR '' '') (k' @ CHR '' '' # r')" by simp
  moreover have "takeWhile (\<lambda>c. c \<noteq> CHR '' '') (w @ CHR '' '' # q) = w" if "CHR '' '' \<notin> set w" for w q
    using that by (subst takeWhile_append2) auto
  ultimately show "k = k'" using assms by simp
qed (auto simp: c_starts_iff)

lemma ir_payload_field:
  assumes "tag = ''SA'' \<or> tag = ''IA''" "CHR '' '' \<notin> set k" "CHR '' '' \<notin> set k'"
  shows "ir_payload (ir_field tag k n v) k' = (if k = k' then Some v else None)"
proof -
  have t: "c_starts (ir_field tag k n v) ''SA '' \<or> c_starts (ir_field tag k n v) ''IA ''"
      "drop 3 (ir_field tag k n v) = k @ CHR '' '' # dec_of n @ '' '' @ v"
    using assms(1) by (auto simp: ir_field_def c_starts_def)
  have "CHR '' '' \<notin> set (dec_of n)" using dec_of_props [of n] by (auto simp: list_all_iff is_digit_def)
  then have "dropWhile (\<lambda>c. c \<noteq> CHR '' '') (dec_of n @ '' '' @ v) = '' '' @ v" by (subst dropWhile_append2) auto
  then show ?thesis
    using t(1) starts_key [OF assms(2,3), of "dec_of n @ '' '' @ v"] unfolding ir_payload_def t(2) Let_def by auto
qed

lemma ir_line_other: "\<not> c_starts l ''SA '' \<Longrightarrow> \<not> c_starts l ''IA '' \<Longrightarrow> ir_line l t = t"
proof -
  assume a: "\<not> c_starts l ''SA ''" "\<not> c_starts l ''IA ''"
  have "try_keys ks l t = t" for ks by (induction ks) (auto simp: ir_payload_def a)
  then show ?thesis by (simp add: ir_line_def)
qed

definition or_empty :: "string list \<Rightarrow> string list" where
  "or_empty ws = (if ws = [] then [[]] else ws)"

lemma c_split_join': "\<forall>w \<in> set ws. sep \<notin> set w \<Longrightarrow> c_split sep (join_with [sep] ws) = or_empty ws"
  by (simp add: or_empty_def c_split_join)

text \<open>The tables read from the text.\<close>

definition text_tables :: "(string \<Rightarrow> string option) \<Rightarrow> Compiler \<Rightarrow> ir_tables" where
  "text_tables getenv c =
     (let fs = free_scopes getenv c; ks = kept_classes c;
          per = (\<lambda>sep f. or_empty (map (\<lambda>(ci, _). join_with sep (map f (class_scopes c ci))) ks))
      in \<lparr> it_names = or_empty (map (str_of \<circ> sc_name) fs), it_pnames = or_empty (map param_names fs),
           it_ptypes = or_empty (map (param_tags c) fs), it_rets = or_empty (map (free_ret_tag c) fs),
           it_bids = or_empty (map (show_int \<circ> sc_body) fs),
           it_cls_names = or_empty (map (\<lambda>(_, cl). str_of (cl_name cl)) ks),
           it_cls_ivar_names = or_empty (map (\<lambda>(_, cl). join_with '';'' (map fst (cl_ivars cl))) ks),
           it_cls_ivar_types = or_empty (map (\<lambda>(_, cl). join_with '';'' (map (ivar_tag c \<circ> snd) (cl_ivars cl))) ks),
           it_cmn = per '';'' (str_of \<circ> sc_name), it_cmp = per ''%7C'' param_names, it_cmpt = per ''%7C'' (param_tags c),
           it_cmr = per '';'' (class_ret_tag c), it_cmb = per '';'' (show_int \<circ> sc_body),
           it_cls_parents = or_empty (map (\<lambda>(_, cl). cc_emit_parent_tag c cl) ks) \<rparr>)"

lemma scope_lines_other: "fold ir_line (concat (map (scope_lines c) ss)) t = t"
proof (induction ss)
  case (Cons s ss)
  have "fold ir_line (scope_lines c s) t = t" for t
    by (simp add: scope_lines_def ir_line_other c_starts_def)
  then show ?case using Cons by simp
qed simp

lemma other_lines: "ir_line ''SPINEL-IR v1'' t = t"
  "fold ir_line [''INT @needs_regexp 0'', ''INT @needs_rand 0'', ''INT @needs_lambda 0'',
            ''INT @needs_file_io 0'', ''INT @needs_fiber 0'', ''INT @needs_bigint 0''] t = t"
  by (simp_all add: ir_line_other c_starts_def)

lemma ir_line_fields:
  "ir_line (ir_field ''SA'' ''@meth_names'' n v) t = t \<lparr> it_names := c_split bar v \<rparr>"
  "ir_line (ir_field ''SA'' ''@meth_param_names'' n v) t = t \<lparr> it_pnames := c_split bar v \<rparr>"
  "ir_line (ir_field ''SA'' ''@meth_param_types'' n v) t = t \<lparr> it_ptypes := c_split bar v \<rparr>"
  "ir_line (ir_field ''SA'' ''@meth_return_types'' n v) t = t \<lparr> it_rets := c_split bar v \<rparr>"
  "ir_line (ir_field ''IA'' ''@meth_body_ids'' n v) t = t \<lparr> it_bids := c_split CHR '','' v \<rparr>"
  "ir_line (ir_field ''SA'' ''@cls_names'' n v) t = t \<lparr> it_cls_names := c_split bar v \<rparr>"
  "ir_line (ir_field ''SA'' ''@cls_parents'' n v) t = t \<lparr> it_cls_parents := c_split bar v \<rparr>"
  "ir_line (ir_field ''SA'' ''@cls_ivar_names'' n v) t = t \<lparr> it_cls_ivar_names := c_split bar v \<rparr>"
  "ir_line (ir_field ''SA'' ''@cls_ivar_types'' n v) t = t \<lparr> it_cls_ivar_types := c_split bar v \<rparr>"
  "ir_line (ir_field ''SA'' ''@cls_meth_names'' n v) t = t \<lparr> it_cmn := c_split bar v \<rparr>"
  "ir_line (ir_field ''SA'' ''@cls_meth_returns'' n v) t = t \<lparr> it_cmr := c_split bar v \<rparr>"
  "ir_line (ir_field ''SA'' ''@cls_meth_ptypes'' n v) t = t \<lparr> it_cmpt := c_split bar v \<rparr>"
  "ir_line (ir_field ''SA'' ''@cls_meth_params'' n v) t = t \<lparr> it_cmp := c_split bar v \<rparr>"
  "ir_line (ir_field ''SA'' ''@cls_meth_bodies'' n v) t = t \<lparr> it_cmb := c_split bar v \<rparr>"
  unfolding ir_line_def ir_keys_def by (simp_all add: ir_payload_field)

text \<open>No field of a clean program holds the separator it is joined with, nor a line feed.\<close>

definition unbroken :: "string \<Rightarrow> bool" where
  "unbroken s = (bar \<notin> set s \<and> CHR 0x0A \<notin> set s)"

lemma plain_unbroken: "plain_chars s \<Longrightarrow> unbroken s"
  by (auto simp: plain_chars_def unbroken_def list_all_iff)

lemma clean_plain: "clean s \<Longrightarrow> plain_chars s"
  by (auto simp: clean_def plain_chars_def list_all_iff)

lemma pct_join_unbroken: "\<forall>w \<in> set ws. plain_chars w \<Longrightarrow> unbroken (join_with ''%7C'' ws)"
proof -
  assume "\<forall>w \<in> set ws. plain_chars w"
  then have w: "\<forall>w \<in> set ws. unbroken w" using plain_unbroken by blast
  then have u: "bar \<notin> \<Union> (set ` set ws)" "CHR 0x0A \<notin> \<Union> (set ` set ws)" by (auto simp: unbroken_def)
  have "bar \<notin> set ''%7C''" "CHR 0x0A \<notin> set ''%7C''" by simp_all
  then show ?thesis using u set_join_with [of "''%7C''" ws] unfolding unbroken_def by blast
qed

lemma scope_facts:
  assumes "compiler_clean c" "s \<in> set (tl (co_scopes c))"
  shows "clean (str_of (sc_name s))" "clean (free_ret_tag c s)" "clean (class_ret_tag c s)"
    "plain_chars (param_names s)" "plain_chars (param_tags c s)"
proof -
  have "s \<in> set (co_scopes c)" using assms(2) by (cases "co_scopes c") auto
  then have c: "scope_clean c s" using assms(1) by (simp add: compiler_clean_def list_all_iff)
  then show "clean (str_of (sc_name s))" "clean (free_ret_tag c s)" "clean (class_ret_tag c s)"
    by (simp_all add: scope_clean_def)
  have p: "\<forall>(n, t) \<in> set (sc_params s). clean (str_of n) \<and> clean (param_tag c t)"
    using c by (simp add: scope_clean_def list_all_iff)
  show "plain_chars (param_names s)" unfolding param_names_def using p by (intro join_plain) auto
  show "plain_chars (param_tags c s)" unfolding param_tags_def using p by (intro join_plain) auto
qed

lemma free_in: "s \<in> set (free_scopes getenv c) \<Longrightarrow> s \<in> set (tl (co_scopes c))"
  by (simp add: free_scopes_def)

lemma class_in: "s \<in> set (class_scopes c ci) \<Longrightarrow> s \<in> set (tl (co_scopes c))"
  by (simp add: class_scopes_def)

lemma kept_facts:
  assumes "compiler_clean c" "(ci, cl) \<in> set (kept_classes c)"
  shows "clean (str_of (cl_name cl))" "clean (cc_emit_parent_tag c cl)" "str_of (cl_name cl) \<noteq> []"
    "unbroken (join_with '';'' (map fst (cl_ivars cl)))" "unbroken (join_with '';'' (map (ivar_tag c \<circ> snd) (cl_ivars cl)))"
proof -
  have "cl \<in> set (co_classes c)" "str_of (cl_name cl) \<noteq> []" using assms(2) by (auto simp: kept_classes_def dest: set_zip_rightD)
  then have c: "clean (str_of (cl_name cl)) \<and> clean (cc_emit_parent_tag c cl) \<and> list_all (\<lambda>(n, t). clean n \<and> clean (ivar_tag c t)) (cl_ivars cl)"
    and "str_of (cl_name cl) \<noteq> []" using assms(1) by (auto simp: compiler_clean_def list_all_iff)
  then show "clean (str_of (cl_name cl))" "clean (cc_emit_parent_tag c cl)" "str_of (cl_name cl) \<noteq> []" by auto
  show "unbroken (join_with '';'' (map fst (cl_ivars cl)))" "unbroken (join_with '';'' (map (ivar_tag c \<circ> snd) (cl_ivars cl)))"
    using c by (fastforce intro!: plain_unbroken join_plain simp: list_all_iff)+
qed

definition text_fields :: "(string \<Rightarrow> string option) \<Rightarrow> Compiler \<Rightarrow> string list list" where
  "text_fields getenv c =
     (let fs = free_scopes getenv c; ks = kept_classes c;
          per = (\<lambda>sep f. map (\<lambda>(ci, _). join_with sep (map f (class_scopes c ci))) ks)
      in [map (str_of \<circ> sc_name) fs, map param_names fs, map (param_tags c) fs, map (free_ret_tag c) fs,
          map (\<lambda>(_, cl). str_of (cl_name cl)) ks, map (\<lambda>(_, cl). cc_emit_parent_tag c cl) ks,
          map (\<lambda>(_, cl). join_with '';'' (map fst (cl_ivars cl))) ks, map (\<lambda>(_, cl). join_with '';'' (map (ivar_tag c \<circ> snd) (cl_ivars cl))) ks,
          per '';'' (str_of \<circ> sc_name), per '';'' (class_ret_tag c), per ''%7C'' (param_tags c), per ''%7C'' param_names,
          per '';'' (show_int \<circ> sc_body)])"

lemma text_fields_unbroken:
  assumes "compiler_clean c"
  shows "\<forall>ws \<in> set (text_fields getenv c). \<forall>w \<in> set ws. unbroken w"
proof -
  note sf = scope_facts [OF assms] and kf = kept_facts [OF assms]
  have semi: "unbroken (join_with '';'' (map f (class_scopes c ci)))" if "\<forall>s \<in> set (tl (co_scopes c)). clean (f s)" for f ci
  proof -
    have "\<forall>w \<in> set (map f (class_scopes c ci)). clean w" using that class_in [of _ c ci] by simp
    then show ?thesis by (rule plain_unbroken [OF join_plain]) simp
  qed
  have pct: "unbroken (join_with ''%7C'' (map f (class_scopes c ci)))" if "\<forall>s \<in> set (tl (co_scopes c)). plain_chars (f s)" for f ci
  proof -
    have "\<forall>w \<in> set (map f (class_scopes c ci)). plain_chars w" using that class_in [of _ c ci] by simp
    then show ?thesis by (rule pct_join_unbroken)
  qed
  have fs: "\<forall>s \<in> set (free_scopes getenv c). unbroken (str_of (sc_name s)) \<and> unbroken (param_names s)
      \<and> unbroken (param_tags c s) \<and> unbroken (free_ret_tag c s)"
  proof
    fix s assume "s \<in> set (free_scopes getenv c)"
    then have "s \<in> set (tl (co_scopes c))" by (rule free_in)
    from sf [OF this] show "unbroken (str_of (sc_name s)) \<and> unbroken (param_names s) \<and> unbroken (param_tags c s) \<and> unbroken (free_ret_tag c s)"
      by (simp add: plain_unbroken clean_plain)
  qed
  have ks: "\<forall>(ci, cl) \<in> set (kept_classes c). unbroken (str_of (cl_name cl)) \<and> unbroken (cc_emit_parent_tag c cl)
      \<and> unbroken (join_with '';'' (map fst (cl_ivars cl))) \<and> unbroken (join_with '';'' (map (ivar_tag c \<circ> snd) (cl_ivars cl)))"
  proof (intro ballI, clarsimp simp only: split_paired_all prod.case)
    fix ci cl assume "(ci, cl) \<in> set (kept_classes c)"
    from kf [OF this] show "unbroken (str_of (cl_name cl)) \<and> unbroken (cc_emit_parent_tag c cl)
      \<and> unbroken (join_with '';'' (map fst (cl_ivars cl))) \<and> unbroken (join_with '';'' (map (ivar_tag c \<circ> snd) (cl_ivars cl)))"
      by (simp add: plain_unbroken clean_plain)
  qed
  have ms: "unbroken (join_with '';'' (map (str_of \<circ> sc_name) (class_scopes c ci)))"
    "unbroken (join_with '';'' (map (class_ret_tag c) (class_scopes c ci)))"
    "unbroken (join_with ''%7C'' (map (param_tags c) (class_scopes c ci)))"
    "unbroken (join_with ''%7C'' (map param_names (class_scopes c ci)))"
    "unbroken (join_with '';'' (map (show_int \<circ> sc_body) (class_scopes c ci)))" for ci
    using sf by (simp_all add: semi pct show_int_clean)
  show ?thesis
    unfolding text_fields_def Let_def using fs ks ms by (simp add: split_def)
qed

definition line_whole :: "string \<Rightarrow> bool" where
  "line_whole l = (l \<noteq> [] \<and> CHR 0x0A \<notin> set l)"

lemma join_no_lf: "\<forall>w \<in> set ws. CHR 0x0A \<notin> set w \<Longrightarrow> CHR 0x0A \<notin> set sep \<Longrightarrow> CHR 0x0A \<notin> set (join_with sep ws)"
  using set_join_with [of sep ws] by blast

lemma field_whole:
  assumes "CHR 0x0A \<notin> set tag" "CHR 0x0A \<notin> set key" "CHR 0x0A \<notin> set v"
  shows "line_whole (ir_field tag key n v)"
proof -
  have "CHR 0x0A \<notin> set (dec_of n)" using dec_of_props [of n] by (auto simp: list_all_iff is_digit_def)
  then show ?thesis using assms by (simp add: line_whole_def ir_field_def)
qed

lemma bar_field_whole:
  "CHR 0x0A \<notin> set tag \<Longrightarrow> CHR 0x0A \<notin> set key \<Longrightarrow> \<forall>w \<in> set ws. unbroken w \<Longrightarrow> line_whole (ir_field tag key n (join_with [bar] ws))"
  by (intro field_whole join_no_lf) (simp_all add: unbroken_def)

lemma scope_lines_whole:
  assumes "compiler_clean c"
  shows "\<forall>l \<in> set (concat (map (scope_lines c) (co_scopes c))). line_whole l"
proof
  fix l assume "l \<in> set (concat (map (scope_lines c) (co_scopes c)))"
  then obtain s where s: "s \<in> set (co_scopes c)" "l \<in> set (scope_lines c s)" by auto
  then have "scope_clean c s" using assms by (simp add: compiler_clean_def list_all_iff)
  then have "\<forall>w \<in> set (map (str_of \<circ> fst) (sc_locals s)). CHR 0x0A \<notin> set w"
      "\<forall>w \<in> set (map (cc_ty_tag_into c \<circ> snd) (sc_locals s)). CHR 0x0A \<notin> set w"
    by (auto simp: scope_clean_def list_all_iff split_def dest!: bspec [of _ _ "(_, _)"] dest: clean_chars)
  then have "CHR 0x0A \<notin> set (join_with [bar] (map (str_of \<circ> fst) (sc_locals s)))"
      "CHR 0x0A \<notin> set (join_with [bar] (map (cc_ty_tag_into c \<circ> snd) (sc_locals s)))"
    by (simp_all add: join_no_lf del: set_map)
  then show "line_whole l"
    using s(2) clean_chars [OF show_int_clean, of "sc_body s"] by (auto simp: scope_lines_def line_whole_def split: if_splits)
qed

lemma text_lines_whole:
  assumes "compiler_clean c"
  shows "\<forall>l \<in> set (ir_text_lines getenv c). line_whole l"
proof -
  note u = text_fields_unbroken [OF assms, of getenv, unfolded text_fields_def Let_def, simplified list.set ball_simps simp_thms]
  have b: "line_whole (ir_field ''IA'' ''@meth_body_ids'' n (join_with '','' (map (show_int \<circ> sc_body) fs)))" for n fs
    by (intro field_whole join_no_lf) (auto dest: clean_chars [OF show_int_clean, THEN conjunct2, THEN conjunct1, THEN notE])
  show ?thesis
    unfolding ir_text_lines_def Let_def set_append list.set
    using u b scope_lines_whole [OF assms]
    by (simp add: bar_field_whole ball_Un) (simp add: line_whole_def)
qed

lemma text_tables_parse:
  assumes "compiler_clean c"
  shows "fold ir_line (c_strtok CHR 0x0A (cc_build_ir_text getenv c)) ir_tables0 = text_tables getenv c"
proof -
  note u = text_fields_unbroken [OF assms, of getenv]
  have l: "c_strtok CHR 0x0A (cc_build_ir_text getenv c) = ir_text_lines getenv c"
    unfolding cc_build_ir_text_def using text_lines_whole [OF assms, of getenv] by (intro c_strtok_lines) (simp add: line_whole_def)
  have b: "c_split CHR '','' (join_with '','' (map (show_int \<circ> sc_body) fs)) = or_empty (map (show_int \<circ> sc_body) fs)" for fs
    by (rule c_split_join') (simp add: clean_chars [OF show_int_clean])
  have "\<forall>ws \<in> set (text_fields getenv c). c_split bar (join_with [bar] ws) = or_empty ws"
    using u by (auto intro!: c_split_join' simp: unbroken_def)
  note sp = this [unfolded text_fields_def Let_def, simplified list.set ball_simps simp_thms]
  have fa: "fold f (xs @ ys) z = fold f ys (fold f xs z)" for f :: "string \<Rightarrow> ir_tables \<Rightarrow> ir_tables" and xs ys z by simp
  show ?thesis
    unfolding l ir_text_lines_def Let_def fa other_lines(2) scope_lines_other
    unfolding fold_simps other_lines(1) ir_line_fields b
    using sp by (simp add: text_tables_def Let_def ir_tables0_def)
qed

lemma set_params_ret [simp]: "me_ret (method_set_params me pn pt) = me_ret me"
  by (simp add: method_set_params_def Let_def)

lemma class_owner_ret [simp]: "me_ret (class_owner p cls n me) = me_ret me"
  by (simp add: class_owner_def split_def Let_def)

lemma untyped_ineligible: "me_ret me = CC_TY_UNKNOWN \<Longrightarrow> \<not> cc_method_eligible getenv me"
  by (simp add: cc_method_eligible_def cc_sig_eligible_def)

lemma legacy_empty [simp]: "ty_from_legacy [] = CC_TY_UNKNOWN"
  by (simp add: ty_from_legacy_def ty_base_def)

text \<open>An empty table is read as one empty entry, which gives a method without a return type.\<close>

lemma top_methods_agree:
  assumes "compiler_clean c"
  shows "filter (cc_method_eligible getenv') (map (top_method (text_tables getenv c)) [0..<length (it_names (text_tables getenv c))])
    = filter (cc_method_eligible getenv') (map (free_method c) (free_scopes getenv c))"
proof (cases "free_scopes getenv c = []")
  case True
  then show ?thesis
    by (simp add: text_tables_def Let_def or_empty_def top_method_def untyped_ineligible)
next
  case False
  have "map (top_method (text_tables getenv c)) [0..<length (free_scopes getenv c)] = map (free_method c) (free_scopes getenv c)"
    by (rule nth_equalityI)
      (simp_all add: text_tables_def Let_def or_empty_def False top_method_def free_method_def cc_fill_params_def nth_or_def c_atoi_show_int)
  then show ?thesis by (simp add: text_tables_def Let_def or_empty_def False)
qed

lemma class_methods_agree:
  assumes "compiler_clean c" "k < length (kept_classes c)" "kept_classes c ! k = (ci, cl)"
  shows "filter (cc_method_eligible getenv') (class_methods (text_tables getenv c) k)
    = filter (cc_method_eligible getenv') (map (class_method c cl) (class_scopes c ci))"
proof -
  let ?ss = "class_scopes c ci" and ?T = "text_tables getenv c"
  have ne: "kept_classes c \<noteq> []" using assms(2) by auto
  have clean: "clean (str_of (sc_name s))" "clean (class_ret_tag c s)" "plain_chars (param_names s)" "plain_chars (param_tags c s)"
    if "s \<in> set ?ss" for s using scope_facts [OF assms(1) class_in [OF that]] by auto
  have mn: "c_split CHR '';'' (it_cmn ?T ! k) = or_empty (map (str_of \<circ> sc_name) ?ss)"
    using clean assms(2,3) by (simp add: text_tables_def Let_def or_empty_def [of "map _ (kept_classes c)"] ne)
      (rule c_split_join', auto dest!: clean_chars)
  have rr: "c_split CHR '';'' (it_cmr ?T ! k) = or_empty (map (class_ret_tag c) ?ss)"
    using clean assms(2,3) by (simp add: text_tables_def Let_def or_empty_def [of "map _ (kept_classes c)"] ne)
      (rule c_split_join', auto dest!: clean_chars)
  have bb: "c_split CHR '';'' (it_cmb ?T ! k) = or_empty (map (show_int \<circ> sc_body) ?ss)"
    using assms(2,3) by (simp add: text_tables_def Let_def or_empty_def [of "map _ (kept_classes c)"] ne)
      (rule c_split_join', auto dest!: clean_chars [OF show_int_clean, THEN conjunct2, THEN conjunct2, THEN conjunct2, THEN conjunct1, THEN notE])
  have pj: "c_split bar (pct_decode (join_with ''%7C'' (map f ?ss))) = or_empty (map f ?ss)" if "\<forall>s \<in> set ?ss. plain_chars (f s)" for f
  proof -
    have p: "\<forall>w \<in> set (map f ?ss). plain_chars w" and b: "\<forall>w \<in> set (map f ?ss). bar \<notin> set w"
      using that by (auto simp: plain_chars_def list_all_iff)
    show ?thesis unfolding pct_decode_join [OF p] by (rule c_split_join' [OF b])
  qed
  have pp: "c_split bar (pct_decode (it_cmp ?T ! k)) = or_empty (map param_names ?ss)"
    "c_split bar (pct_decode (it_cmpt ?T ! k)) = or_empty (map (param_tags c) ?ss)"
    using assms(2,3) clean by (simp_all add: text_tables_def Let_def or_empty_def [of "map _ (kept_classes c)"] ne pj)
  have o: "nth_or (it_cls_parents ?T) k [] = cc_emit_parent_tag c cl" "it_cls_names ?T ! k = str_of (cl_name cl)"
    "k < length (it_cmr ?T)" "k < length (it_cmb ?T)" "k < length (it_cmp ?T)" "k < length (it_cmpt ?T)"
    using assms(2,3) by (simp_all add: text_tables_def Let_def or_empty_def ne nth_or_def)
  show ?thesis
  proof (cases "?ss = []")
    case True
    then show ?thesis unfolding class_methods_def Let_def mn rr bb pp o(1,2) using o(3-6)
      by (simp add: or_empty_def untyped_ineligible)
  next
    case False
    have "class_methods ?T k = map (class_method c cl) ?ss"
      unfolding class_methods_def Let_def mn rr bb pp o(1,2) using o(3-6)
      by (intro nth_equalityI)
        (simp_all add: or_empty_def False class_method_def cc_fill_params_def nth_or_def c_atoi_show_int)
    then show ?thesis by simp
  qed
qed

text \<open>C15: the text and the in-process path agree.  For every analysed program whose names and type tags
  do not contain the separators of the format, writing the methods as text and parsing that text gives
  exactly the eligible methods, in the same order and with the same signatures, that are read directly
  from the program.  (Without free functions or without classes the parser also produces a nameless
  method, which is never eligible.)\<close>

theorem ir_text_agrees:
  assumes "compiler_clean c"
  shows "filter (cc_method_eligible env) (ir_m (ir_parse (cc_build_ir_text getenv c)))
    = filter (cc_method_eligible env) (ir_m (fill_ir_from_compiler getenv c))"
proof -
  let ?T = "text_tables getenv c" and ?ks = "kept_classes c"
  have cls: "filter (cc_method_eligible env) (concat (map (class_methods ?T) [0..<min (length (it_cls_names ?T)) (length (it_cmn ?T))]))
      = filter (cc_method_eligible env) (concat (map (\<lambda>(ci, cl). map (class_method c cl) (class_scopes c ci)) ?ks))"
  proof (cases "?ks = []")
    case True
    then show ?thesis
      by (simp add: text_tables_def Let_def or_empty_def class_methods_def untyped_ineligible)
  next
    case False
    have "map (filter (cc_method_eligible env) \<circ> class_methods ?T) [0..<length ?ks]
        = map (filter (cc_method_eligible env) \<circ> (\<lambda>(ci, cl). map (class_method c cl) (class_scopes c ci))) ?ks"
      by (rule nth_equalityI) (simp_all add: split_def class_methods_agree [OF assms])
    then show ?thesis using False by (simp add: filter_concat text_tables_def Let_def or_empty_def)
  qed
  show ?thesis
    using top_methods_agree [OF assms] cls
    by (simp add: ir_parse_def Let_def text_tables_parse [OF assms] fill_ir_from_compiler_def)
qed

definition demo_compiler :: Compiler where
  "demo_compiler = \<lparr>
     co_scopes =
       [\<lparr> sc_name = None, sc_class_id = - 1, sc_ret = TY_UNKNOWN, sc_body = 0, sc_params = [], sc_locals = [] \<rparr>,
        \<lparr> sc_name = Some ''tick'', sc_class_id = - 1, sc_ret = TY_POLY, sc_body = 4, sc_params = [], sc_locals = [] \<rparr>,
        \<lparr> sc_name = Some ''enqueue'', sc_class_id = 0, sc_ret = TY_INT, sc_body = 9,
           sc_params = [(Some ''int'', Some TY_INT), (Some ''flags'', None)], sc_locals = [(Some ''n'', TY_INT)] \<rparr>],
     co_classes = [\<lparr> cl_name = Some ''S'', cl_parent = - 1, cl_def_node = 0, cl_ivars = [] \<rparr>],
     co_nt = [\<lparr> nd_type = Some ''ClassNode'', nd_s = [], nd_i = [], nd_r = [(''superclass'', 1)], nd_a = [] \<rparr>,
              \<lparr> nd_type = Some ''ConstantReadNode'', nd_s = [(''name'', ''BPF_SchedExt'')], nd_i = [], nd_r = [], nd_a = [] \<rparr>],
     co_ty_name = (\<lambda>t. if t = TY_INT then ''int'' else ''poly'') \<rparr>"

theorem ir_text_agrees_witness:
  "map (\<lambda>me. (me_name me, me_pnames me, me_ret me))
     (filter (cc_method_eligible (\<lambda>_. None)) (ir_m (ir_parse (cc_build_ir_text (\<lambda>_. None) demo_compiler))))
   = [(''tick'', [], CC_TY_VOID), (''sched_ext__enqueue'', [''int_'', ''flags''], CC_TY_INT)]"
proof -
  have c: "compiler_clean demo_compiler" by code_simp
  show ?thesis unfolding ir_text_agrees [OF c] by code_simp
qed

end
