(* ===== verification/Cc_Amp.thy ===== *)
theory Cc_Amp
  imports Cc_Expr Cc_Ir
begin

text \<open>
  The code generator for the real-time core (\<open>src/codegen_c/spinel_ebpf_cc.c\<close>, target
  \<open>amp-m7\<close>): the scan for unsupported calls, the lowering of expressions, statements and method bodies
  to C text, and the program around them.  On this target the scan leaves three kinds of call: binary
  operators, \<open>spnl_emit\<close> and \<open>ktime_ns\<close>; the branches of the lowering for other calls, for
  struct\_ops members and for loop captures are not reached and are left out.

  The lowering recurses over node numbers; the first argument of each function bounds the depth of
  the recursion, and running out of it stands for running out of stack.
\<close>

type_synonym 'a result = "die + 'a"

definition bindE :: "'a result \<Rightarrow> ('a \<Rightarrow> 'b result) \<Rightarrow> 'b result" where
  "bindE r f = (case r of Inl d \<Rightarrow> Inl d | Inr a \<Rightarrow> f a)"

primrec foldE :: "('a \<Rightarrow> 's \<Rightarrow> 's result) \<Rightarrow> 'a list \<Rightarrow> 's \<Rightarrow> 's result" where
  "foldE f [] s = Inr s"
| "foldE f (x # xs) s = bindE (f x s) (foldE f xs)"

subsection \<open>Tables\<close>

definition binary_ops :: "string list" where
  "binary_ops = [''+'', ''-'', ''*'', ''/'', ''%'', ''=='', ''!='', ''<'', ''>'', ''<='', ''>='', ''&'', ''|'', ''^'', ''<<'', ''>>'']"

definition cc_is_binary_op :: "string \<Rightarrow> bool" where
  "cc_is_binary_op name = (name \<in> set binary_ops)"

definition known_consts :: "(string \<times> int) list" where
  "known_consts =
    [(''XDP_ABORTED'', 0), (''XDP_DROP'', 1), (''XDP_PASS'', 2), (''XDP_TX'', 3), (''XDP_REDIRECT'', 4),
      (''IPPROTO_IP'', 0), (''IPPROTO_ICMP'', 1), (''IPPROTO_TCP'', 6), (''IPPROTO_UDP'', 17),
      (''IPPROTO_ICMPV6'', 58), (''ETH_P_IP'', 2048), (''ETH_P_IPV6'', 34525), (''ETH_P_ARP'', 2054),
      (''TC_ACT_OK'', 0), (''TC_ACT_RECLASSIFY'', 1), (''TC_ACT_SHOT'', 2), (''TC_ACT_PIPE'', 3),
      (''TC_ACT_STOLEN'', 4), (''TC_ACT_QUEUED'', 5), (''TC_ACT_REPEAT'', 6), (''TC_ACT_REDIRECT'', 7),
      (''TC_ACT_TRAP'', 8), (''SK_DROP'', 0), (''SK_PASS'', 1), (''TCP_FLAG_FIN'', 1), (''TCP_FLAG_SYN'', 2),
      (''TCP_FLAG_RST'', 4), (''TCP_FLAG_PSH'', 8), (''TCP_FLAG_ACK'', 16), (''TCP_FLAG_URG'', 32),
      (''TCP_FLAG_ECE'', 64), (''TCP_FLAG_CWR'', 128), (''TCP_STATE_ESTABLISHED'', 1), (''TCP_STATE_SYN_SENT'', 2),
      (''TCP_STATE_SYN_RECV'', 3), (''TCP_STATE_FIN_WAIT1'', 4), (''TCP_STATE_FIN_WAIT2'', 5),
      (''TCP_STATE_TIME_WAIT'', 6), (''TCP_STATE_CLOSE'', 7), (''TCP_STATE_CLOSE_WAIT'', 8),
      (''TCP_STATE_LAST_ACK'', 9), (''TCP_STATE_LISTEN'', 10), (''TCP_STATE_CLOSING'', 11),
      (''BPF_SOCK_OPS_TIMEOUT_INIT'', 1), (''BPF_SOCK_OPS_RWND_INIT'', 2), (''BPF_SOCK_OPS_TCP_CONNECT_CB'', 3),
      (''BPF_SOCK_OPS_ACTIVE_ESTABLISHED_CB'', 4), (''BPF_SOCK_OPS_PASSIVE_ESTABLISHED_CB'', 5),
      (''BPF_SOCK_OPS_NEEDS_ECN'', 6), (''BPF_SOCK_OPS_BASE_RTT'', 7), (''BPF_SOCK_OPS_RTO_CB'', 8),
      (''BPF_SOCK_OPS_RETRANS_CB'', 9), (''BPF_SOCK_OPS_STATE_CB'', 10), (''BPF_SOCK_OPS_TCP_LISTEN_CB'', 11),
      (''BPF_SOCK_OPS_RTT_CB'', 12), (''AF_INET'', 2), (''AF_INET6'', 10), (''CAP_CHOWN'', 0),
      (''CAP_DAC_OVERRIDE'', 1), (''CAP_DAC_READ_SEARCH'', 2), (''CAP_FOWNER'', 3), (''CAP_FSETID'', 4),
      (''CAP_KILL'', 5), (''CAP_SETGID'', 6), (''CAP_SETUID'', 7), (''CAP_SETPCAP'', 8), (''CAP_LINUX_IMMUTABLE'', 9),
      (''CAP_NET_BIND_SERVICE'', 10), (''CAP_NET_BROADCAST'', 11), (''CAP_NET_ADMIN'', 12), (''CAP_NET_RAW'', 13),
      (''CAP_IPC_LOCK'', 14), (''CAP_IPC_OWNER'', 15), (''CAP_SYS_MODULE'', 16), (''CAP_SYS_RAWIO'', 17),
      (''CAP_SYS_CHROOT'', 18), (''CAP_SYS_PTRACE'', 19), (''CAP_SYS_PACCT'', 20), (''CAP_SYS_ADMIN'', 21),
      (''CAP_SYS_BOOT'', 22), (''CAP_SYS_NICE'', 23), (''CAP_SYS_RESOURCE'', 24), (''CAP_SYS_TIME'', 25),
      (''CAP_SYS_TTY_CONFIG'', 26), (''CAP_MKNOD'', 27), (''CAP_LEASE'', 28), (''CAP_AUDIT_WRITE'', 29),
      (''CAP_AUDIT_CONTROL'', 30), (''CAP_SETFCAP'', 31), (''CAP_MAC_OVERRIDE'', 32), (''CAP_MAC_ADMIN'', 33),
      (''CAP_SYSLOG'', 34), (''CAP_WAKE_ALARM'', 35), (''CAP_BLOCK_SUSPEND'', 36), (''CAP_AUDIT_READ'', 37),
      (''CAP_PERFMON'', 38), (''CAP_BPF'', 39), (''CAP_CHECKPOINT_RESTORE'', 40), (''S_IFREG'', 32768),
      (''S_IFDIR'', 16384), (''S_IFLNK'', 40960), (''S_IFSOCK'', 49152), (''S_IFBLK'', 24576), (''S_IFCHR'', 8192),
      (''S_IFIFO'', 4096)]"

definition cc_known_const :: "string \<Rightarrow> int option" where
  "cc_known_const name = map_of known_consts name"

definition cc_macro_path :: "string \<Rightarrow> string option" where
  "cc_macro_path path =
     map_of [(''SCX::DSQ::GLOBAL'', ''SCX_DSQ_GLOBAL''), (''SCX::DSQ::LOCAL'', ''SCX_DSQ_LOCAL''),
       (''SCX::SLICE_DFL'', ''SCX_SLICE_DFL''), (''SCX::SLICE_INF'', ''SCX_SLICE_INF''),
       (''SCX::KICK_PREEMPT'', ''SCX_KICK_PREEMPT''), (''SCX::ENQ_PREEMPT'', ''SCX_ENQ_PREEMPT'')] path"

definition const_prefixes :: "(string \<times> string) list" where
  "const_prefixes =
     [(''BPF::SockOps::'', ''BPF_SOCK_OPS_''), (''TCP::Flag::'', ''TCP_FLAG_''), (''TCP::State::'', ''TCP_STATE_''),
      (''IP::Proto::'', ''IPPROTO_''), (''TC::Act::'', ''TC_ACT_''), (''Eth::P::'', ''ETH_P_''),
      (''CAP::'', ''CAP_''), (''FileType::'', ''S_IF''), (''XDP::'', ''XDP_''), (''SK::'', ''SK_'')]"

definition cc_const_path_value :: "string \<Rightarrow> int option" where
  "cc_const_path_value path =
     (case filter (\<lambda>(pp, _). c_starts path pp) const_prefixes of
        [] \<Rightarrow> None
      | (pp, fp) # _ \<Rightarrow> cc_known_const (c_trunc 128 (fp @ drop (length pp) path)))"

definition cc_declared_arity :: "(string \<times> nat) list" where
  "cc_declared_arity =
    [(''ktime_ns'', 0), (''pid'', 0), (''tgid'', 0), (''tid'', 0), (''cpu_id'', 0), (''uid'', 0), (''gid'', 0),
      (''ppid'', 0), (''cgroup_id'', 0), (''comm_hash'', 0), (''emit_comm'', 0), (''cap_effective'', 0),
      (''latency_start'', 0), (''latency_end'', 0), (''stack_id'', 0), (''user_stack_id'', 0), (''queue_pop'', 0),
      (''fifo_pop'', 0), (''lifo_pop'', 0), (''task_load'', 0), (''sock_addr_ip4'', 0), (''sock_addr_port'', 0),
      (''pkt_len'', 0), (''pkt_eth_proto'', 0), (''pkt_ip4_src'', 0), (''pkt_ip4_dst'', 0), (''pkt_ip6_src_hi'', 0),
      (''pkt_ip6_src_lo'', 0), (''pkt_ip6_dst_hi'', 0), (''pkt_ip6_dst_lo'', 0), (''pkt_l4_proto'', 0),
      (''pkt_l4_sport'', 0), (''pkt_l4_dport'', 0), (''pkt_l4_payload_len'', 0), (''pkt_tcp_flags'', 0),
      (''pkt_tcp_seq'', 0), (''pkt_tcp_ack'', 0), (''flow_del'', 1)]"

definition CC_TGT_LINUX :: nat where "CC_TGT_LINUX = 1"

definition CC_TGT_AMP :: nat where "CC_TGT_AMP = 2"

definition cc_builtin_targets :: "(string \<times> nat) list" where
  "cc_builtin_targets = [(''spnl_emit'', CC_TGT_LINUX + CC_TGT_AMP), (''ktime_ns'', CC_TGT_LINUX + CC_TGT_AMP)]"

definition cc_builtin_on_target :: "string \<Rightarrow> nat \<Rightarrow> bool" where
  "cc_builtin_on_target name tgt =
     (case map_of cc_builtin_targets name of Some ts \<Rightarrow> and ts tgt \<noteq> 0 | None \<Rightarrow> tgt = CC_TGT_LINUX)"

subsection \<open>State of the generator\<close>

text \<open>The unit being compiled, and what the lowering changes: the counter for fresh names, the
  registered instance variables and the lines of the current body.  \<open>body\<close> and \<open>g_body\<close> are the same
  list on this target.\<close>

record cunit =
  un_ast :: AST
  un_methods :: "Method list"
  un_env :: "string \<Rightarrow> string option"
  un_me :: Method

record cg =
  cg_ctr :: nat
  cg_ivars :: "string list"
  cg_lines :: "string list"

definition push_line :: "string \<Rightarrow> cg \<Rightarrow> cg" where
  "push_line l g = g \<lparr> cg_lines := cg_lines g @ [l] \<rparr>"

definition strip_at :: "string \<Rightarrow> string" where
  "strip_at iv = (if iv \<noteq> [] \<and> hd iv = CHR ''@'' then tl iv else iv)"

definition AMP_MAX_IVARS :: nat where "AMP_MAX_IVARS = 64"

definition amp_ivar_slot :: "string \<Rightarrow> cg \<Rightarrow> (nat \<times> cg) result" where
  "amp_ivar_slot iv g =
     (let bare = strip_at iv; i = length (takeWhile (\<lambda>x. x \<noteq> bare) (cg_ivars g)) in
      if i < length (cg_ivars g) then Inr (i, g)
      else if AMP_MAX_IVARS \<le> length (cg_ivars g) then Inl (Die ''amp-m7: too many ivars (max 64)'')
      else Inr (length (cg_ivars g), g \<lparr> cg_ivars := cg_ivars g @ [bare] \<rparr>))"

definition ivar_lvalue :: "nat \<Rightarrow> string" where
  "ivar_lvalue slot = ''(*(volatile __u32 *)(SPNL_AMP_IVARS_BASE + '' @ dec_of (4 * slot) @ ''u))''"

definition cc_ivar_map :: "string \<Rightarrow> cg \<Rightarrow> (string \<times> cg) result" where
  "cc_ivar_map iv g = bindE (amp_ivar_slot (strip_at iv) g) (\<lambda>(i, g'). Inr (ivar_lvalue i, g'))"

definition cc_emit_ivar_write :: "string \<Rightarrow> string \<Rightarrow> cg \<Rightarrow> cg" where
  "cc_emit_ivar_write lv rhs g = push_line (lv @ '' = ('' @ rhs @ '');'') g"

definition cc_emit_ivar_rmw :: "string \<Rightarrow> string \<Rightarrow> string \<Rightarrow> cg \<Rightarrow> cg" where
  "cc_emit_ivar_rmw lv op rhs g = push_line (lv @ '' = '' @ lv @ '' '' @ op @ '' ('' @ rhs @ '');'') g"

definition cc_is_ebpf_method :: "cunit \<Rightarrow> string \<Rightarrow> bool" where
  "cc_is_ebpf_method u name = list_ex (\<lambda>me. cc_method_eligible (un_env u) me \<and> me_name me = name) (un_methods u)"

definition call_args :: "AST \<Rightarrow> int \<Rightarrow> int list" where
  "call_args t nid = (let a = nt_ref t nid ''arguments'' in if 0 \<le> a then nt_arr t a ''arguments'' else [])"

definition cc_require_declared_arity :: "AST \<Rightarrow> int \<Rightarrow> string \<Rightarrow> unit result" where
  "cc_require_declared_arity t nid name =
     (if 0 \<le> nt_ref t nid ''receiver'' then Inr ()
      else case map_of cc_declared_arity name of
        None \<Rightarrow> Inr ()
      | Some ar \<Rightarrow> if length (call_args t nid) \<noteq> ar then Inl (Die name) else Inr ())"

subsection \<open>Structured statements\<close>

datatype CStmt = CS_RAW string | CS_BLOCK "CStmt list" | CS_IF CExpr CStmt "CStmt option"

definition cc_indent_each :: "string \<Rightarrow> string" where
  "cc_indent_each s = join_with [CHR 0x0A] (map (\<lambda>l. ''    '' @ l) (c_split CHR 0x0A s))"

definition cs_push :: "string \<Rightarrow> nat \<Rightarrow> string" where
  "cs_push line depth = (cc_indent_each ^^ depth) line"

fun cs_emit :: "CStmt \<Rightarrow> nat \<Rightarrow> string list option" where
  "cs_emit (CS_RAW l) depth = Some [cs_push l depth]"
| "cs_emit (CS_BLOCK ss) depth = map_option concat (those (map (\<lambda>s. cs_emit s depth) ss))"
| "cs_emit (CS_IF cond t e) depth =
     (case (ce_print cond, cs_emit t (Suc depth), map_option (\<lambda>s. cs_emit s (Suc depth)) e) of
        (Some c, Some ts, None) \<Rightarrow>
          Some ([cs_push (''if ('' @ c @ '') {'') depth] @ ts @ [cs_push ''}'' depth])
      | (Some c, Some ts, Some (Some es)) \<Rightarrow>
          Some ([cs_push (''if ('' @ c @ '') {'') depth] @ ts @ [cs_push ''} else {'' depth] @ es @ [cs_push ''}'' depth])
      | _ \<Rightarrow> None)"

subsection \<open>Lowering of expressions and statements\<close>

text \<open>The constant path of a node, root first: at most eight parts; a path that does not fit its
  buffer of 128 bytes overruns it in the source and stops here.\<close>

primrec path_parts :: "nat \<Rightarrow> AST \<Rightarrow> int \<Rightarrow> string list" where
  "path_parts 0 t cur = []"
| "path_parts (Suc guard) t cur =
     (if cur < 0 then []
      else case (nt_type t cur, nt_str t cur ''name'') of
        (Some ct, Some nm) \<Rightarrow>
          if ct = ''ConstantPathNode'' then nm # path_parts guard t (nt_ref t cur ''parent'')
          else if ct = ''ConstantReadNode'' then [nm] else []
      | _ \<Rightarrow> [])"

fun intersperse_colons :: "string list \<Rightarrow> string list" where
  "intersperse_colons [] = []"
| "intersperse_colons [p] = [p]"
| "intersperse_colons (p # ps) = p # ''::'' # intersperse_colons ps"

text \<open>A constant path.  The C code joins the parts in a buffer of 128 bytes without a length check; where
  it would write past the buffer the model stops with an error.\<close>

definition lower_const_path :: "AST \<Rightarrow> int \<Rightarrow> string result" where
  "lower_const_path t nid =
     (let path = concat (intersperse_colons (rev (path_parts 8 t nid))) in
      if 127 < length path then Inl (Die ''path overflow'')
      else case cc_macro_path path of
        Some m \<Rightarrow> Inr m
      | None \<Rightarrow> (case cc_const_path_value path of
          Some v \<Rightarrow> Inr (show_int v)
        | None \<Rightarrow> Inl (Die path)))"

text \<open>The arguments of a call, lowered from left to right; the statements of a body, where an
  expression that is not the last one and emitted no line is kept as \<open>(void)(e);\<close>.\<close>

primrec lower_args :: "(int \<Rightarrow> cg \<Rightarrow> (string \<times> cg) result) \<Rightarrow> int list \<Rightarrow> cg \<Rightarrow> (string list \<times> cg) result" where
  "lower_args f [] g = Inr ([], g)"
| "lower_args f (i # ids) g =
     bindE (f i g) (\<lambda>(s, g1). bindE (lower_args f ids g1) (\<lambda>(ss, g2). Inr (s # ss, g2)))"

primrec lower_seq ::
  "(int \<Rightarrow> cg \<Rightarrow> (string option \<times> cg) result) \<Rightarrow> int list \<Rightarrow> cg \<Rightarrow> (string option \<times> cg) result" where
  "lower_seq f [] g = Inr (None, g)"
| "lower_seq f (i # ids) g =
     bindE (f i g) (\<lambda>(last, g1).
       if ids = [] then Inr (last, g1)
       else lower_seq f ids
              (case last of
                 Some e \<Rightarrow> if length (cg_lines g1) = length (cg_lines g) \<and> e \<noteq> []
                           then push_line (''(void)('' @ e @ '');'') g1 else g1
               | None \<Rightarrow> g1))"

definition print_expr :: "CExpr \<times> cg \<Rightarrow> (string \<times> cg) result" where
  "print_expr = (\<lambda>(e, g). case ce_print e of Some s \<Rightarrow> Inr (s, g) | None \<Rightarrow> Inl (Die ''ce_binop_prec: unknown op''))"

definition void_method :: "Method \<Rightarrow> bool" where
  "void_method me = (me_ret me = CC_TY_VOID \<and> me_so_kind me = SO_NONE)"

text \<open>Each function of the lowering is written over the functions it calls; the recursion is tied below.\<close>

type_synonym expr_builder = "int \<Rightarrow> cg \<Rightarrow> (CExpr \<times> cg) result"
type_synonym expr_lowerer = "int \<Rightarrow> cg \<Rightarrow> (string \<times> cg) result"
type_synonym stmt_lowerer = "int \<Rightarrow> cg \<Rightarrow> (string option \<times> cg) result"

definition build_expr_step :: "expr_builder \<Rightarrow> expr_lowerer \<Rightarrow> cunit \<Rightarrow> int \<Rightarrow> cg \<Rightarrow> (CExpr \<times> cg) result" where
  "build_expr_step B L u nid g =
     (let t = un_ast u; ty = nt_type t nid in
      if ty = Some ''ParenthesesNode'' then
        let body = nt_ref t nid ''body'' in
        if body < 0 then Inr (CE_RAW ''0'', g)
        else bindE (B body g) (\<lambda>(e, g1). Inr (CE_PAREN e, g1))
      else if ty = Some ''OrNode'' \<or> ty = Some ''AndNode'' then
        let l = nt_ref t nid ''left''; r = nt_ref t nid ''right'' in
        if l < 0 \<or> r < 0 then Inl (Die ''OrNode/AndNode missing operand'')
        else bindE (B l g) (\<lambda>(lhs, g1).
             bindE (B r g1) (\<lambda>(rhs, g2).
             Inr (CE_BINOP (if ty = Some ''OrNode'' then ''||'' else ''&&'') lhs rhs, g2)))
      else case (ty = Some ''CallNode'', nt_str t nid ''name'') of
        (True, Some name) \<Rightarrow>
          if cc_is_binary_op name then
            let recv = nt_ref t nid ''receiver''; args_id = nt_ref t nid ''arguments'' in
            if recv < 0 \<or> args_id < 0 then Inl (Die ''binop CallNode missing operand'')
            else if nt_type t args_id \<noteq> Some ''ArgumentsNode'' then Inl (Die ''binop args not ArgumentsNode'')
            else case nt_arr t args_id ''arguments'' of
              [a] \<Rightarrow> bindE (B recv g) (\<lambda>(lhs, g1).
                     bindE (B a g1) (\<lambda>(rhs, g2). Inr (CE_BINOP name lhs rhs, g2)))
            | _ \<Rightarrow> Inl (Die ''binop expects 1 arg'')
          else bindE (L nid g) (\<lambda>(s, g1). Inr (CE_RAW s, g1))
      | _ \<Rightarrow> bindE (L nid g) (\<lambda>(s, g1). Inr (CE_RAW s, g1)))"

definition lower_expr_step :: "expr_builder \<Rightarrow> expr_lowerer \<Rightarrow> stmt_lowerer \<Rightarrow> cunit \<Rightarrow> int \<Rightarrow> cg \<Rightarrow> (string \<times> cg) result" where
  "lower_expr_step B L S u nid g =
     (let t = un_ast u in
      case nt_type t nid of
        None \<Rightarrow> Inl (Die ''missing node'')
      | Some ty \<Rightarrow>
        if ty = ''LocalVariableReadNode'' then
          (case nt_str t nid ''name'' of
             None \<Rightarrow> Inl (Die ''LocalVariableReadNode missing name'')
           | Some nm \<Rightarrow> Inr (cc_safe_dup nm, g))
        else if ty = ''IntegerNode'' then Inr (show_int (nt_int t nid ''value'' 0), g)
        else if ty = ''OrNode'' \<or> ty = ''AndNode'' then bindE (B nid g) print_expr
        else if ty = ''ParenthesesNode'' then
          let body = nt_ref t nid ''body'' in
          if body < 0 then Inr (''0'', g)
          else bindE (L body g) (\<lambda>(s, g1). Inr (''('' @ s @ '')'', g1))
        else if ty = ''StatementsNode'' \<or> ty = ''IfNode'' then
          bindE (S nid g) (\<lambda>(v, g1). Inr (case v of Some s \<Rightarrow> s | None \<Rightarrow> ''0'', g1))
        else if ty = ''ConstantReadNode'' then
          (case Option.bind (nt_str t nid ''name'') cc_known_const of
             Some v \<Rightarrow> Inr (show_int v, g)
           | None \<Rightarrow> Inl (Die ''constant not lowerable (Stage 1 KNOWN_CONSTANTS)''))
        else if ty = ''ConstantPathNode'' then bindE (lower_const_path t nid) (\<lambda>s. Inr (s, g))
        else if ty = ''InstanceVariableReadNode'' then
          (case nt_str t nid ''name'' of
             None \<Rightarrow> Inl (Die ''InstanceVariableReadNode missing name'')
           | Some iv \<Rightarrow> cc_ivar_map iv g)
        else if ty = ''CallNode'' then
          (case nt_str t nid ''name'' of
             None \<Rightarrow> Inl (Die ''CallNode'')
           | Some name \<Rightarrow>
             bindE (cc_require_declared_arity t nid name) (\<lambda>_.
             if cc_is_binary_op name then bindE (B nid g) print_expr
             else if cc_is_ebpf_method u name then
               bindE (lower_args L (call_args t nid) g)
                 (\<lambda>(ss, g1). Inr (name @ ''_inner('' @ comma_join ss @ '')'', g1))
             else if name = ''ktime_ns'' then Inr (''((__s64)amp_ktime())'', g)
             else Inl (Die name)))
        else Inl (Die ty))"

definition cc_branch_block :: "stmt_lowerer \<Rightarrow> int \<Rightarrow> string \<Rightarrow> cg \<Rightarrow> (CStmt \<times> cg) result" where
  "cc_branch_block S bid rv g =
     (if bid < 0 then Inr (CS_BLOCK [], g)
      else bindE (S bid (g \<lparr> cg_lines := [] \<rparr>)) (\<lambda>(last, g1).
        Inr (CS_BLOCK (map CS_RAW (cg_lines g1 @ (case last of Some v \<Rightarrow> [rv @ '' = '' @ v @ '';''] | None \<Rightarrow> []))),
             g1 \<lparr> cg_lines := cg_lines g \<rparr>)))"

definition cc_if_node :: "expr_builder \<Rightarrow> stmt_lowerer \<Rightarrow> cunit \<Rightarrow> int \<Rightarrow> cg \<Rightarrow> (string option \<times> cg) result" where
  "cc_if_node B S u nid g =
     (let t = un_ast u; pred = nt_ref t nid ''predicate''; then_id = nt_ref t nid ''statements'';
          else_id = nt_ref t nid ''subsequent'' in
      if pred < 0 then Inl (Die ''IfNode missing predicate'')
      else bindE (B pred g) (\<lambda>(cond, g1).
           let tmp = ''_if'' @ dec_of (Suc (cg_ctr g1));
               g2 = push_line (''__s64 '' @ tmp @ '' = 0;'') (g1 \<lparr> cg_ctr := Suc (cg_ctr g1) \<rparr>) in
           bindE (cc_branch_block S then_id tmp g2) (\<lambda>(then_b, g3).
           bindE (if 0 \<le> else_id then bindE (cc_branch_block S else_id tmp g3) (\<lambda>(e, g4). Inr (Some e, g4))
                  else Inr (None, g3)) (\<lambda>(else_b, g4).
           case cs_emit (CS_IF cond then_b else_b) 0 of
             None \<Rightarrow> Inl (Die ''ce_binop_prec: unknown op'')
           | Some ls \<Rightarrow> Inr (Some tmp, g4 \<lparr> cg_lines := cg_lines g4 @ ls \<rparr>)))))"

definition lower_stmt_step :: "expr_builder \<Rightarrow> expr_lowerer \<Rightarrow> stmt_lowerer \<Rightarrow> cunit \<Rightarrow> int \<Rightarrow> cg \<Rightarrow> (string option \<times> cg) result" where
  "lower_stmt_step B L S u nid g =
     (let t = un_ast u in
      case nt_type t nid of
        None \<Rightarrow> Inl (Die ''missing node'')
      | Some ty \<Rightarrow>
        if ty = ''LocalVariableWriteNode'' then
          (case nt_str t nid ''name'' of
             None \<Rightarrow> Inl (Die ''LocalVariableWriteNode missing name/value'')
           | Some nm \<Rightarrow>
             if nt_ref t nid ''value'' < 0 then Inl (Die ''LocalVariableWriteNode missing name/value'')
             else bindE (L (nt_ref t nid ''value'') g) (\<lambda>(e, g1).
               Inr (Some (cc_safe_dup nm), push_line (cc_safe_dup nm @ '' = '' @ e @ '';'') g1)))
        else if ty = ''InstanceVariableWriteNode'' then
          (case nt_str t nid ''name'' of
             None \<Rightarrow> Inl (Die ''InstanceVariableWriteNode missing name/value'')
           | Some iv \<Rightarrow>
             if nt_ref t nid ''value'' < 0 then Inl (Die ''InstanceVariableWriteNode missing name/value'')
             else bindE (L (nt_ref t nid ''value'') g) (\<lambda>(rhs, g1).
                  bindE (cc_ivar_map iv g1) (\<lambda>(lv, g2). Inr (Some lv, cc_emit_ivar_write lv rhs g2))))
        else if ty = ''InstanceVariableOperatorWriteNode'' then
          (case (nt_str t nid ''name'', nt_str t nid ''binary_operator'') of
             (Some iv, Some op) \<Rightarrow>
               if op \<notin> {''+'', ''-'', ''*''} then Inl (Die ''ivar operator not supported (Stage 1)'')
               else bindE (L (nt_ref t nid ''value'') g) (\<lambda>(rhs, g1).
                    bindE (cc_ivar_map iv g1) (\<lambda>(lv, g2). Inr (Some lv, cc_emit_ivar_rmw lv op rhs g2)))
           | _ \<Rightarrow> Inl (Die ''ivar operator not supported (Stage 1)''))
        else if ty = ''ReturnNode'' then
          (case call_args t nid of
             [] \<Rightarrow> Inr (None, push_line (if void_method (un_me u) then ''return;'' else ''return 0;'') g)
           | [a] \<Rightarrow>
             if void_method (un_me u) then Inl (Die ''`return <value>` in a handler whose value is never used.'')
             else bindE (L a g) (\<lambda>(v, g1). Inr (None, push_line (''return '' @ v @ '';'') g1))
           | _ \<Rightarrow> Inl (Die ''`return a, b` returns a tuple, and a BPF program returns one integer.''))
        else if ty = ''IfNode'' then cc_if_node B S u nid g
        else if ty = ''ElseNode'' then
          (if 0 \<le> nt_ref t nid ''statements'' then S (nt_ref t nid ''statements'') g else Inr (None, g))
        else if ty = ''StatementsNode'' then lower_seq S (nt_arr t nid ''body'') g
        else if ty = ''CallOperatorWriteNode'' then Inl (Die ''op-write only supported on tcp_sock fields in tcp_cc context (Stage 1)'')
        else if ty = ''CallNode'' \<and> nt_str t nid ''name'' = Some ''spnl_emit'' then
          (case call_args t nid of
             [a] \<Rightarrow> bindE (L a g) (\<lambda>(v, g1).
                    Inr (Some ''0'', push_line (''amp_emit('' @ v @ '');'') g1))
           | _ \<Rightarrow> Inl (Die ''spnl_emit expects 1 arg''))
        else bindE (L nid g) (\<lambda>(s, g1). Inr (Some s, g1)))"

fun cc_build_expr :: "nat \<Rightarrow> cunit \<Rightarrow> int \<Rightarrow> cg \<Rightarrow> (CExpr \<times> cg) result"
and cc_lower_expr :: "nat \<Rightarrow> cunit \<Rightarrow> int \<Rightarrow> cg \<Rightarrow> (string \<times> cg) result"
and cc_lower_stmt :: "nat \<Rightarrow> cunit \<Rightarrow> int \<Rightarrow> cg \<Rightarrow> (string option \<times> cg) result" where
  "cc_build_expr 0 u nid g = Inl Stack_overflow"
| "cc_build_expr (Suc n) u nid g = build_expr_step (cc_build_expr n u) (cc_lower_expr n u) u nid g"
| "cc_lower_expr 0 u nid g = Inl Stack_overflow"
| "cc_lower_expr (Suc n) u nid g =
     lower_expr_step (cc_build_expr n u) (cc_lower_expr n u) (cc_lower_stmt n u) u nid g"
| "cc_lower_stmt 0 u nid g = Inl Stack_overflow"
| "cc_lower_stmt (Suc n) u nid g =
     lower_stmt_step (cc_build_expr n u) (cc_lower_expr n u) (cc_lower_stmt n u) u nid g"

subsection \<open>Walks over the tree\<close>

text \<open>The successors of a node in the order the walks visit them: its references, then its arrays.\<close>

definition node_succs :: "AST \<Rightarrow> int \<Rightarrow> int list" where
  "node_succs t nid =
     (case node_at t nid of None \<Rightarrow> [] | Some n \<Rightarrow> map snd (nd_r n) @ concat (map snd (nd_a n)))"

definition nested_scope :: "string \<Rightarrow> bool" where
  "nested_scope ty = (ty \<in> {''DefNode'', ''ClassNode'', ''ModuleNode''})"

definition add_name :: "string \<Rightarrow> string list \<Rightarrow> string list" where
  "add_name s names = (if s \<in> set names then names else names @ [s])"

fun cc_collect_locals :: "nat \<Rightarrow> AST \<Rightarrow> int \<Rightarrow> string list \<Rightarrow> string list result" where
  "cc_collect_locals 0 t nid names = Inl Stack_overflow"
| "cc_collect_locals (Suc n) t nid names =
     (case nt_type t nid of
        None \<Rightarrow> Inr names
      | Some ty \<Rightarrow>
        if nested_scope ty then Inr names
        else foldE (cc_collect_locals n t) (node_succs t nid)
               (case (ty = ''LocalVariableWriteNode'', nt_str t nid ''name'') of
                  (True, Some nm) \<Rightarrow> add_name (cc_safe_dup nm) names
                | _ \<Rightarrow> names))"

fun amp_scan_supported :: "nat \<Rightarrow> AST \<Rightarrow> int \<Rightarrow> unit \<Rightarrow> unit result" where
  "amp_scan_supported 0 t nid _ = Inl Stack_overflow"
| "amp_scan_supported (Suc n) t nid _ =
     (case nt_type t nid of
        None \<Rightarrow> Inr ()
      | Some ty \<Rightarrow>
        if nested_scope ty then Inr ()
        else case (ty = ''CallNode'', nt_str t nid ''name'') of
          (True, Some nm) \<Rightarrow>
            if \<not> cc_is_binary_op nm \<and> \<not> cc_builtin_on_target nm CC_TGT_AMP then Inl (Die nm)
            else foldE (amp_scan_supported n t) (node_succs t nid) ()
        | _ \<Rightarrow> foldE (amp_scan_supported n t) (node_succs t nid) ())"

subsection \<open>Methods and the program\<close>

definition cc_emit_method_body :: "nat \<Rightarrow> cunit \<Rightarrow> string list \<Rightarrow> (string list \<times> string list) result" where
  "cc_emit_method_body n u ivars =
     (let t = un_ast u; me = un_me u; bid = me_body_id me in
      if nt_type t bid \<noteq> Some ''StatementsNode'' then Inl (Die ''body not StatementsNode (Stage 1)'')
      else bindE (cc_collect_locals n t bid []) (\<lambda>locals.
           let decls = map (\<lambda>x. ''__s64 '' @ x @ '' = 0;'') (filter (\<lambda>x. x \<notin> set (me_pnames me)) locals) in
           bindE (cc_lower_stmt n u bid \<lparr> cg_ctr = 0, cg_ivars = ivars, cg_lines = decls \<rparr>) (\<lambda>(v, g).
           Inr (cg_lines g @ (if void_method me then []
                              else [''return '' @ (case v of Some s \<Rightarrow> s | None \<Rightarrow> ''0'') @ '';'']),
                cg_ivars g))))"

definition cc_lower :: "string \<Rightarrow> string" where
  "cc_lower s = map (\<lambda>c. let n = of_char c :: nat in if 65 \<le> n \<and> n \<le> 90 then char_of (n + 32) else c) s"

definition cc_func_name :: "Method \<Rightarrow> string" where
  "cc_func_name me =
     (case me_cls me of Some c \<Rightarrow> cc_lower c @ ''_'' @ me_name me | None \<Rightarrow> cc_safe_dup (me_name me))"

datatype amp_trig = AMP_TRIG_MANUAL | AMP_TRIG_TIMER | AMP_TRIG_IRQ | AMP_TRIG_CMD

definition amp_all_digits :: "string \<Rightarrow> bool" where
  "amp_all_digits s = (s \<noteq> [] \<and> list_all is_digit s)"

text \<open>\<open>strtoul\<close> saturates at 64 bits; the cast to \<open>unsigned\<close> keeps the low 32.\<close>

definition strtoul32 :: "string \<Rightarrow> nat" where
  "strtoul32 ds = min (digits_val ds) (2 ^ 64 - 1) mod 2 ^ 32"

definition amp_trigger_of :: "string \<Rightarrow> amp_trig \<times> nat" where
  "amp_trigger_of name =
     (if c_starts name ''timer_'' \<and> amp_all_digits (drop 6 name) then (AMP_TRIG_TIMER, strtoul32 (drop 6 name))
      else if c_starts name ''irq_'' \<and> amp_all_digits (drop 4 name) then (AMP_TRIG_IRQ, strtoul32 (drop 4 name))
      else if name = ''cmd'' then (AMP_TRIG_CMD, 0)
      else (AMP_TRIG_MANUAL, 0))"

fun amp_trigger_kw :: "amp_trig \<Rightarrow> string" where
  "amp_trigger_kw AMP_TRIG_TIMER = ''AMP_TRIG_TIMER''"
| "amp_trigger_kw AMP_TRIG_IRQ = ''AMP_TRIG_IRQ''"
| "amp_trigger_kw AMP_TRIG_CMD = ''AMP_TRIG_CMD''"
| "amp_trigger_kw AMP_TRIG_MANUAL = ''AMP_TRIG_MANUAL''"

text \<open>\<open>filter_by\<close> declarations at the top level of the unit: the state is the flag and the set of keys
  seen so far.\<close>

definition CC_FILTER_KEYS :: "string list" where
  "CC_FILTER_KEYS = [''pid'', ''tid'', ''uid'', ''gid'', ''cgroup_id'', ''comm'']"

definition filter_key :: "AST \<Rightarrow> int \<Rightarrow> string list \<Rightarrow> string list result" where
  "filter_key t a keys =
     (if nt_type t a \<noteq> Some ''SymbolNode'' then Inl (Die ''filter_by: every key must be a symbol literal'')
      else case nt_str t a ''value'' of
        None \<Rightarrow> Inl (Die ''filter_by: unknown key'')
      | Some k \<Rightarrow>
        if k \<notin> set CC_FILTER_KEYS then Inl (Die ''filter_by: unknown key'')
        else if k \<in> set keys then Inl (Die ''filter_by: key listed twice'')
        else Inr (k # keys))"

definition is_filter_by :: "AST \<Rightarrow> int \<Rightarrow> bool" where
  "is_filter_by t i =
     (nt_type t i = Some ''CallNode'' \<and> nt_str t i ''name'' = Some ''filter_by'' \<and> nt_ref t i ''receiver'' < 0)"

definition filter_stmt :: "AST \<Rightarrow> int \<Rightarrow> bool \<times> string list \<Rightarrow> (bool \<times> string list) result" where
  "filter_stmt t i st =
     (if \<not> is_filter_by t i then Inr st
      else if fst st then Inl (Die ''filter_by: declared twice'')
      else if call_args t i = [] then Inl (Die ''filter_by expects at least one key'')
      else bindE (foldE (filter_key t) (call_args t i) (snd st)) (\<lambda>keys. Inr (True, keys)))"

definition cc_scan_common_filter :: "AST \<Rightarrow> (bool \<times> string list) result" where
  "cc_scan_common_filter t =
     (let stmts = nt_ref t 0 ''statements'' in
      if stmts < 0 then Inr (False, [])
      else foldE (filter_stmt t) (nt_arr t stmts ''body'') (False, []))"

text \<open>The text of the program, as lines.\<close>

definition AMP_ABI_VERSION_MIRROR :: nat where "AMP_ABI_VERSION_MIRROR = 1"

definition AMP_IVARS_BASE_MIRROR :: int where "AMP_IVARS_BASE_MIRROR = 0x2003FF00"

primrec hex_digits :: "nat \<Rightarrow> int \<Rightarrow> string" where
  "hex_digits 0 v = []"
| "hex_digits (Suc k) v = hex_digits k (v div 16) @ [''0123456789abcdef'' ! nat (v mod 16)]"

definition amp_head :: "string \<Rightarrow> string list" where
  "amp_head base =
     [''/* generated by spinel-ebpf --target amp-m7. Build:'',
      '' *   clang -O2 -target bpf -c '' @ base @ ''.bpf.c -o '' @ base @ ''.bpf.o'',
      '' * then host-AOT to ARMv7E-M via the micro-bpf JIT. */'',
      ''typedef unsigned int __u32;'',
      ''typedef long long __s64;'',
      ''#ifndef SPNL_AMP_IVARS_BASE'',
      ''#define SPNL_AMP_IVARS_BASE 0x'' @ hex_digits 8 AMP_IVARS_BASE_MIRROR @
        ''u   /* = AMP_IVARS_BASE (spnl/amp_abi_imx95m7.h); single-pass default, override at build */'',
      ''#endif'',
      ''/* spnl_emit -> amp_emit(): helper id 1; the M7 runtime publishes to the DDR ring. */'',
      ''static unsigned long long (*amp_emit)(unsigned long long) = (void *)1;'',
      ''/* ktime_ns -> amp_ktime(): helper id 2; the M7 runtime returns NETC PHC ns (gPTP-synced). */'',
      ''static unsigned long long (*amp_ktime)(void) = (void *)2;'']"

definition amp_function :: "Method \<times> string list \<Rightarrow> string list" where
  "amp_function = (\<lambda>(me, body).
     [[], ''int '' @ cc_func_name me @ ''(void *ctx)'', ''{'', ''    (void)ctx;''] @
     map (\<lambda>l. ''    '' @ l) body @
     (if me_ret me = CC_TY_VOID then [''    return 0;''] else []) @ [''}''])"

definition amp_trigger_row :: "Method \<Rightarrow> string" where
  "amp_trigger_row me =
     (let fn = cc_func_name me; (kind, param) = amp_trigger_of fn in
      ''    { '' @ [CHR 0x22] @ fn @ [CHR 0x22] @ '', '' @ amp_trigger_kw kind @ '', '' @ dec_of param @ '' },'')"

definition amp_manifest :: "Method list \<Rightarrow> nat \<Rightarrow> string list" where
  "amp_manifest ms nivars =
     [[], ''#ifdef SPNL_AMP_MANIFEST   /* M7 loader reads this; clang -target bpf skips it */'',
      ''enum { AMP_TRIG_MANUAL = 0, AMP_TRIG_TIMER = 1, AMP_TRIG_IRQ = 2, AMP_TRIG_CMD = 3 };'',
      ''/* fixed-ABI manifest fields the M7 loader gates on.'',
      '' *   amp_abi_version -- must equal the board profile'' @ [CHR 0x27] @ ''s AMP_ABI_VERSION'',
      '' *                     (spnl/amp_abi.h); the loader rejects a mismatch loudly,'',
      '' *                     so neither a firmware/blob ABI revision nor a blob built'',
      '' *                     for another board'' @ [CHR 0x27] @ ''s address map goes through silently.'',
      '' *                     Override with -DSPNL_AMP_ABI_VERSION when building for a'',
      '' *                     board other than the default profile.'',
      '' *   amp_ivars_size  -- bytes of the IVARS carveout this probe uses (= 4 * #ivars);'',
      '' *                     the loader zeroes exactly this span per slot-install so a'',
      '' *                     hot-swapped probe never reads the previous probe'' @ [CHR 0x27] @ ''s ivars. */'',
      ''#ifndef SPNL_AMP_ABI_VERSION'',
      ''#define SPNL_AMP_ABI_VERSION '' @ dec_of AMP_ABI_VERSION_MIRROR @ ''u'',
      ''#endif'',
      ''static const unsigned amp_abi_version = SPNL_AMP_ABI_VERSION;'',
      ''static const unsigned amp_ivars_size  = '' @ dec_of (nivars * 4) @ ''u;'',
      ''struct amp_trigger { const char *fn; int kind; unsigned param; };'',
      ''static const struct amp_trigger amp_triggers[] = {''] @
     map amp_trigger_row ms @
     [''};'',
      ''static const unsigned amp_triggers_n = sizeof(amp_triggers)/sizeof(amp_triggers[0]);'',
      ''#endif /* SPNL_AMP_MANIFEST */'']"

text \<open>The handlers are lowered first, in order, sharing the registry of instance variables.\<close>

definition amp_handler ::
  "nat \<Rightarrow> (string \<Rightarrow> string option) \<Rightarrow> Method list \<Rightarrow> AST \<Rightarrow> Method \<Rightarrow>
    (Method \<times> string list) list \<times> string list \<Rightarrow> ((Method \<times> string list) list \<times> string list) result" where
  "amp_handler n env ms t me st =
     (if me_pnames me \<noteq> [] then Inl (Die ''amp-m7 handler takes no params (v0)'')
      else bindE (amp_scan_supported n t (me_body_id me) ()) (\<lambda>_.
           bindE (cc_emit_method_body n \<lparr> un_ast = t, un_methods = ms, un_env = env, un_me = me \<rparr> (snd st)) (\<lambda>(ls, iv).
           Inr (fst st @ [(me, ls)], iv))))"

definition amp_codegen_program ::
  "nat \<Rightarrow> (string \<Rightarrow> string option) \<Rightarrow> Method list \<Rightarrow> AST \<Rightarrow> string \<Rightarrow> string result" where
  "amp_codegen_program n env ms t base =
     bindE (cc_scan_common_filter t) (\<lambda>(declared, _).
     if declared then Inl (Die ''filter_by is not available on the AMP target'')
     else let es = filter (cc_method_eligible env) ms in
       if es = [] then Inl (Die ''amp-m7: no eBPF-eligible handler method found'')
       else bindE (foldE (amp_handler n env ms t) es ([], [])) (\<lambda>(bodies, ivars).
         Inr (print_lines (amp_head base @ concat (map amp_function bodies) @ amp_manifest es (length ivars)))))"

end
