(* ===== verification/C_Stmt.thy ===== *)
theory C_Stmt
  imports C_Syntax
begin

text \<open>
  Statements of C, for the functions that the code generator emits: a parser from tokens, and an
  evaluator with the integer types of the target (\<open>int\<close>, \<open>__u32\<close>, \<open>__s64\<close>, \<open>unsigned long long\<close>),
  the usual arithmetic conversions, undefined behaviour as \<^term>\<open>None\<close>, and block scope.  Like
  \<open>C_Syntax\<close> it is a specification, written from the C standard and not from the generator.  The
  environment of such a function is the memory word at the address of each instance variable, the helper
  \<open>amp_emit\<close> that appends to the output and the helper \<open>amp_ktime\<close> that reads the clock.
\<close>

subsection \<open>Syntax\<close>

datatype cstmt = CDecl string cx | CAsg cx cx | CRet "cx option" | CExp cx
  | CIf cx "cstmt list" | CIfElse cx "cstmt list" "cstmt list"

text \<open>An expression and the semicolon after it; a list of statements up to a closing brace or the end.\<close>

definition expr_semi :: "token list \<Rightarrow> (cx \<times> token list) option" where
  "expr_semi ts = Option.bind (cparse (PBin 0) ts) (\<lambda>(e, r). if take 1 r = [TOp '';''] then Some (e, tl r) else None)"

partial_function (option) c_stmts :: "token list \<Rightarrow> (cstmt list \<times> token list) option" where
  "c_stmts ts =
     (if ts = [] \<or> take 1 ts = [TOp ''}''] then Some ([], ts)
      else if take 2 ts = [TId ''return'', TOp '';''] then
        Option.bind (c_stmts (drop 2 ts)) (\<lambda>(ss, r). Some (CRet None # ss, r))
      else if take 1 ts = [TId ''return''] then
        Option.bind (expr_semi (tl ts)) (\<lambda>(e, r1).
        Option.bind (c_stmts r1) (\<lambda>(ss, r). Some (CRet (Some e) # ss, r)))
      else if take 2 ts = [TId ''if'', TOp ''(''] then
        Option.bind (cparse (PBin 0) (drop 2 ts)) (\<lambda>(c, r1).
          if take 2 r1 \<noteq> [TOp '')'', TOp ''{''] then None
          else Option.bind (c_stmts (drop 2 r1)) (\<lambda>(t, r2).
            if take 1 r2 \<noteq> [TOp ''}''] then None
            else if take 2 (tl r2) = [TId ''else'', TOp ''{''] then
              Option.bind (c_stmts (drop 3 r2)) (\<lambda>(f, r3).
                if take 1 r3 \<noteq> [TOp ''}''] then None
                else Option.bind (c_stmts (tl r3)) (\<lambda>(ss, r). Some (CIfElse c t f # ss, r)))
            else Option.bind (c_stmts (tl r2)) (\<lambda>(ss, r). Some (CIf c t # ss, r))))
      else if take 1 ts = [TId ''__s64''] then
        (case tl ts of
           TId x # TOp eq # r0 \<Rightarrow>
             if eq = ''='' then
               Option.bind (expr_semi r0) (\<lambda>(e, r1).
               Option.bind (c_stmts r1) (\<lambda>(ss, r). Some (CDecl x e # ss, r)))
             else None
         | _ \<Rightarrow> None)
      else
        Option.bind (cparse (PBin 0) ts) (\<lambda>(l, r0).
          if take 1 r0 = [TOp ''=''] then
            Option.bind (expr_semi (tl r0)) (\<lambda>(e, r1).
            Option.bind (c_stmts r1) (\<lambda>(ss, r). Some (CAsg l e # ss, r)))
          else if take 1 r0 = [TOp '';''] then
            Option.bind (c_stmts (tl r0)) (\<lambda>(ss, r). Some (CExp l # ss, r))
          else None))"

text \<open>A definition of the form \<open>int f(void *ctx) { ... }\<close>.\<close>

definition c_function :: "token list \<Rightarrow> (string \<times> cstmt list) option" where
  "c_function ts =
     (if take 1 ts = [TId ''int''] \<and> take 6 (drop 2 ts) = [TOp ''('', TId ''void'', TOp ''*'', TId ''ctx'', TOp '')'', TOp ''{''] then
        (case (ts ! 1, c_stmts (drop 8 ts)) of (TId f, Some (ss, [TOp close])) \<Rightarrow> if close = ''}'' then Some (f, ss) else None | _ \<Rightarrow> None)
      else None)"

subsection \<open>Integer types\<close>

datatype cty = I32 | U32 | S64 | U64

fun in_ty :: "cty \<Rightarrow> int \<Rightarrow> bool" where
  "in_ty I32 v = (- (2 ^ 31) \<le> v \<and> v < 2 ^ 31)"
| "in_ty U32 v = (0 \<le> v \<and> v < 2 ^ 32)"
| "in_ty S64 v = (- (2 ^ 63) \<le> v \<and> v < 2 ^ 63)"
| "in_ty U64 v = (0 \<le> v \<and> v < 2 ^ 64)"

fun conv :: "cty \<Rightarrow> int \<Rightarrow> int" where
  "conv I32 v = (v + 2 ^ 31) mod 2 ^ 32 - 2 ^ 31"
| "conv U32 v = v mod 2 ^ 32"
| "conv S64 v = (v + 2 ^ 63) mod 2 ^ 64 - 2 ^ 63"
| "conv U64 v = v mod 2 ^ 64"

fun signed :: "cty \<Rightarrow> bool" where
  "signed I32 = True" | "signed U32 = False" | "signed S64 = True" | "signed U64 = False"

fun rank :: "cty \<Rightarrow> nat" where
  "rank I32 = 0" | "rank U32 = 1" | "rank S64 = 2" | "rank U64 = 3"

fun width :: "cty \<Rightarrow> int" where
  "width I32 = 32" | "width U32 = 32" | "width S64 = 64" | "width U64 = 64"

definition usual :: "cty \<Rightarrow> cty \<Rightarrow> cty" where
  "usual a b = (if rank a \<le> rank b then b else a)"

text \<open>The result of an arithmetic operation: signed overflow is undefined, unsigned arithmetic wraps.\<close>

definition arith :: "cty \<Rightarrow> int \<Rightarrow> (cty \<times> int) option" where
  "arith T v = (if signed T then (if in_ty T v then Some (T, v) else None) else Some (T, conv T v))"

definition compare_ops :: "(string \<times> (int \<Rightarrow> int \<Rightarrow> bool)) list" where
  "compare_ops = [(''=='', \<lambda>a b. a = b), (''!='', \<lambda>a b. a \<noteq> b), (''<'', \<lambda>a b. a < b), (''>'', \<lambda>a b. a > b),
     (''<='', \<lambda>a b. a \<le> b), (''>='', \<lambda>a b. a \<ge> b)]"

definition arith_ops :: "(string \<times> (int \<Rightarrow> int \<Rightarrow> int)) list" where
  "arith_ops = [(''+'', \<lambda>a b. a + b), (''-'', \<lambda>a b. a - b), (''*'', \<lambda>a b. a * b), (''&'', and), (''|'', or), (''^'', xor)]"

text \<open>Division truncates toward zero; the remainder has the sign of the dividend.  A shift takes the
  type of its left operand, and its count is below the width.  A left shift of a negative number is
  undefined.\<close>

definition trunc_div :: "int \<Rightarrow> int \<Rightarrow> int" where
  "trunc_div a b = sgn a * sgn b * (\<bar>a\<bar> div \<bar>b\<bar>)"

definition c_binop :: "string \<Rightarrow> cty \<times> int \<Rightarrow> cty \<times> int \<Rightarrow> (cty \<times> int) option" where
  "c_binop op x y =
     (let T = usual (fst x) (fst y); a = conv T (snd x); b = conv T (snd y); L = fst x in
      case map_of compare_ops op of
        Some f \<Rightarrow> Some (I32, of_bool (f a b))
      | None \<Rightarrow> (case map_of arith_ops op of
          Some f \<Rightarrow> arith T (f a b)
        | None \<Rightarrow>
            if op = ''/'' then (if b = 0 then None else arith T (trunc_div a b))
            else if op = ''%'' then
              (if b = 0 then None else Option.bind (arith T (trunc_div a b)) (\<lambda>_. arith T (a - b * trunc_div a b)))
            else if op = ''<<'' then
              (if snd y < 0 \<or> width L \<le> snd y \<or> signed L \<and> snd x < 0 then None
               else arith L (snd x * 2 ^ nat (snd y)))
            else if op = ''>>'' then
              (if snd y < 0 \<or> width L \<le> snd y then None else Some (L, snd x div 2 ^ nat (snd y)))
            else None))"

text \<open>Constants: decimal, with an optional suffix \<open>u\<close>.\<close>

definition c_literal :: "string \<Rightarrow> (cty \<times> int) option" where
  "c_literal s =
     (let ds = takeWhile is_digit s; sfx = dropWhile is_digit s; v = int (digits_val ds) in
      if ds = [] \<or> hd ds = CHR ''0'' \<and> tl ds \<noteq> [] then None
      else if sfx = ''u'' then (if v < 2 ^ 32 then Some (U32, v) else None)
      else if sfx \<noteq> [] then None
      else if v < 2 ^ 31 then Some (I32, v)
      else if v < 2 ^ 63 then Some (S64, v)
      else None)"

subsection \<open>Evaluation\<close>

record cstate =
  c_loc :: "string \<rightharpoonup> int"
  c_mem :: "int \<Rightarrow> int"
  c_out :: "int list"
  c_tick :: nat

record cenv =
  ce_base :: int
  ce_clock :: "nat \<Rightarrow> int"

definition IVARS_MACRO :: string where "IVARS_MACRO = ''SPNL_AMP_IVARS_BASE''"

definition ptr_type :: "token list" where
  "ptr_type = [TId ''volatile'', TId ''__u32'', TOp ''*'']"

fun has_call :: "cx \<Rightarrow> bool" where
  "has_call (XId _) = False"
| "has_call (XNum _) = False"
| "has_call (XCast _ a) = has_call a"
| "has_call (XUn _ a) = has_call a"
| "has_call (XBin _ a b) = (has_call a \<or> has_call b)"
| "has_call (XCall _ _) = True"
| "has_call (XIdx a b) = (has_call a \<or> has_call b)"

text \<open>The value of an expression, with its type and the state after it; the value of an expression
  of type \<open>void\<close> is \<^term>\<open>None\<close>.  The operands of a binary operator other than \<open>&&\<close> and \<open>||\<close> are
  unsequenced, so two operands that both call a helper have no meaning here.\<close>

type_synonym 'a cres = "((cty \<times> int) option \<times> cstate) option"

definition c_truth :: "(cty \<times> int) option \<times> cstate \<Rightarrow> (bool \<times> cstate) option" where
  "c_truth = (\<lambda>(v, s). case v of Some (_, n) \<Rightarrow> Some (n \<noteq> 0, s) | None \<Rightarrow> None)"

fun c_eval :: "cenv \<Rightarrow> cx \<Rightarrow> cstate \<Rightarrow> ((cty \<times> int) option \<times> cstate) option" where
  "c_eval E (XId x) s =
     (if x = IVARS_MACRO then Some (Some (U32, ce_base E), s)
      else case c_loc s x of Some v \<Rightarrow> Some (Some (S64, v), s) | None \<Rightarrow> None)"
| "c_eval E (XNum n) s = map_option (\<lambda>v. (Some v, s)) (c_literal n)"
| "c_eval E (XCast ty a) s =
     (if ty = [TId ''void''] then map_option (\<lambda>(_, s'). (None, s')) (c_eval E a s)
      else if ty = [TId ''__s64''] then
        (case c_eval E a s of Some (Some (_, v), s') \<Rightarrow> Some (Some (S64, conv S64 v), s') | _ \<Rightarrow> None)
      else None)"
| "c_eval E (XUn op a) s =
     (if op = ''-'' then
        (case c_eval E a s of
           Some (Some (T, v), s') \<Rightarrow> map_option (\<lambda>r. (Some r, s')) (arith T (- v))
         | _ \<Rightarrow> None)
      else if op = ''*'' then
        (case a of
           XCast ty b \<Rightarrow>
             if ty = ptr_type then
               (case c_eval E b s of Some (Some (_, v), s') \<Rightarrow> Some (Some (U32, c_mem s' v), s') | _ \<Rightarrow> None)
             else None
         | _ \<Rightarrow> None)
      else None)"
| "c_eval E (XBin op a b) s =
     (if op = ''&&'' \<or> op = ''||'' then
        Option.bind (Option.bind (c_eval E a s) c_truth) (\<lambda>(p, s1).
          if p = (op = ''||'') then Some (Some (I32, of_bool p), s1)
          else Option.bind (Option.bind (c_eval E b s1) c_truth) (\<lambda>(q, s2). Some (Some (I32, of_bool q), s2)))
      else if has_call a \<and> has_call b then None
      else case c_eval E a s of
        Some (Some x, s1) \<Rightarrow>
          (case c_eval E b s1 of
             Some (Some y, s2) \<Rightarrow> map_option (\<lambda>r. (Some r, s2)) (c_binop op x y)
           | _ \<Rightarrow> None)
      | _ \<Rightarrow> None)"
| "c_eval E (XCall f args) s =
     (case (f, args) of
        (XId h, []) \<Rightarrow>
          if h = ''amp_ktime'' \<and> c_loc s h = None
          then Some (Some (U64, ce_clock E (c_tick s)), s \<lparr> c_tick := Suc (c_tick s) \<rparr>) else None
      | (XId h, [a]) \<Rightarrow>
          if h = ''amp_emit'' \<and> c_loc s h = None then
            (case c_eval E a s of
               Some (Some (_, v), s') \<Rightarrow> Some (None, s' \<lparr> c_out := c_out s' @ [conv U64 v] \<rparr>)
             | _ \<Rightarrow> None)
          else None
      | _ \<Rightarrow> None)"
| "c_eval E (XIdx a b) s = None"

datatype coutcome = CNext cstate | CReturned int cstate

text \<open>Leaving a block ends the scope of its declarations.  A declaration does not hide another one.\<close>

definition leave_block :: "cstate \<Rightarrow> coutcome \<Rightarrow> coutcome" where
  "leave_block s0 r =
     (case r of
        CNext s \<Rightarrow> CNext (s \<lparr> c_loc := c_loc s |` dom (c_loc s0) \<rparr>)
      | CReturned v s \<Rightarrow> CReturned v (s \<lparr> c_loc := c_loc s |` dom (c_loc s0) \<rparr>))"

definition c_assign :: "cenv \<Rightarrow> cx \<Rightarrow> int \<Rightarrow> cstate \<Rightarrow> coutcome option" where
  "c_assign E l v s =
     (case l of
        XId x \<Rightarrow> if c_loc s x = None then None else Some (CNext (s \<lparr> c_loc := (c_loc s)(x \<mapsto> conv S64 v) \<rparr>))
      | XUn op (XCast ty a) \<Rightarrow>
          if op = ''*'' \<and> ty = ptr_type then
            (case c_eval E a s of
               Some (Some (_, p), s') \<Rightarrow> Some (CNext (s' \<lparr> c_mem := (c_mem s')(p := conv U32 v) \<rparr>))
             | _ \<Rightarrow> None)
          else None
      | _ \<Rightarrow> None)"

fun c_exec :: "cenv \<Rightarrow> cstmt \<Rightarrow> cstate \<Rightarrow> coutcome option"
and c_execs :: "cenv \<Rightarrow> cstmt list \<Rightarrow> cstate \<Rightarrow> coutcome option" where
  "c_exec E (CDecl x e) s =
     (case c_eval E e s of
        Some (Some (_, v), s') \<Rightarrow>
          if c_loc s' x = None \<and> x \<noteq> IVARS_MACRO then Some (CNext (s' \<lparr> c_loc := (c_loc s')(x \<mapsto> conv S64 v) \<rparr>)) else None
      | _ \<Rightarrow> None)"
| "c_exec E (CAsg l e) s =
     (case c_eval E e s of Some (Some (_, v), s') \<Rightarrow> c_assign E l v s' | _ \<Rightarrow> None)"
| "c_exec E (CRet e) s =
     (case e of
        None \<Rightarrow> None
      | Some a \<Rightarrow> (case c_eval E a s of Some (Some (_, v), s') \<Rightarrow> Some (CReturned (conv I32 v) s') | _ \<Rightarrow> None))"
| "c_exec E (CExp e) s = map_option (\<lambda>(_, s'). CNext s') (c_eval E e s)"
| "c_exec E (CIf c t) s =
     Option.bind (Option.bind (c_eval E c s) c_truth) (\<lambda>(p, s1).
       if p then map_option (leave_block s1) (c_execs E t s1) else Some (CNext s1))"
| "c_exec E (CIfElse c t f) s =
     Option.bind (Option.bind (c_eval E c s) c_truth) (\<lambda>(p, s1).
       map_option (leave_block s1) (if p then c_execs E t s1 else c_execs E f s1))"
| "c_execs E [] s = Some (CNext s)"
| "c_execs E (c # cs) s =
     Option.bind (c_exec E c s) (\<lambda>r. case r of CNext s' \<Rightarrow> c_execs E cs s' | CReturned v s' \<Rightarrow> Some r)"

text \<open>A call of a function: the parameter is in scope, and the value it returns is that of a \<open>return\<close>.\<close>

definition c_call :: "cenv \<Rightarrow> string \<Rightarrow> cstate \<Rightarrow> (int \<times> cstate) option" where
  "c_call E src s =
     Option.bind (c_function (c_lex src)) (\<lambda>(f, ss).
       case c_execs E ss (s \<lparr> c_loc := [''ctx'' \<mapsto> 0] \<rparr>) of
         Some (CReturned v s') \<Rightarrow> Some (v, s' \<lparr> c_loc := c_loc s \<rparr>)
       | _ \<Rightarrow> None)"

end
