(* ===== verification/Amp_Ruby.thy ===== *)
theory Amp_Ruby
  imports Cc_Amp C_Stmt
begin

text \<open>
  What a handler for the real-time core means: the Ruby program that the node table stands for, as a
  tree, and its evaluation.  Integers are unbounded and division floors, as in Ruby; the evaluation has
  no result (\<^term>\<open>None\<close>) where a value leaves the range of the C type that its expression has in the
  generated code, where an integer is used as a condition (zero is true in Ruby and false in C), or
  where two operands of one operator both read the clock.
\<close>

subsection \<open>Programs\<close>

datatype rexp = RInt int | RLoc string | RIvar string | RKtime | RParen rexp | RBin string rexp rexp

datatype rst = SVal rexp | SLocal string rst | SIvar string rst | SOp string string rexp | SRet0 | SRet rst
  | SEmit rst | SIf rexp "rst list" | SIfElse rexp "rst list" "rst list"

text \<open>The name of an instance variable without its sigil.\<close>

definition ivar_key :: "string \<Rightarrow> string" where
  "ivar_key iv = strip_at (strip_at iv)"

text \<open>The tree at a node of the table.  Statements stand in bodies and, as \<open>if\<close>, on the right-hand
  side of an assignment, in \<open>return\<close> and in \<open>spnl_emit\<close>; operands are expressions.\<close>

definition has_args :: "AST \<Rightarrow> int \<Rightarrow> bool" where
  "has_args t nid = (nt_type t (nt_ref t nid ''arguments'') = Some ''ArgumentsNode'')"

definition rb_step :: "(int \<Rightarrow> rexp option) \<Rightarrow> AST \<Rightarrow> int \<Rightarrow> string \<Rightarrow> rexp option" where
  "rb_step E t nid ty =
     (if ty = ''LocalVariableReadNode'' then map_option RLoc (nt_str t nid ''name'')
      else if ty = ''IntegerNode'' then Some (RInt (nt_int t nid ''value'' 0))
      else if ty = ''ConstantReadNode'' then map_option RInt (Option.bind (nt_str t nid ''name'') cc_known_const)
      else if ty = ''InstanceVariableReadNode'' then map_option (\<lambda>x. RIvar (ivar_key x)) (nt_str t nid ''name'')
      else if ty = ''ParenthesesNode'' then
        let body = nt_ref t nid ''body'' in
        if nt_type t body = Some ''StatementsNode'' then
          (case nt_arr t body ''body'' of [x] \<Rightarrow> map_option RParen (E x) | _ \<Rightarrow> None)
        else None
      else if ty = ''OrNode'' \<or> ty = ''AndNode'' then
        (case (E (nt_ref t nid ''left''), E (nt_ref t nid ''right'')) of
           (Some a, Some b) \<Rightarrow> Some (RBin (if ty = ''OrNode'' then ''||'' else ''&&'') a b)
         | _ \<Rightarrow> None)
      else if ty = ''CallNode'' then
        (case nt_str t nid ''name'' of
           None \<Rightarrow> None
         | Some nm \<Rightarrow>
           if cc_is_binary_op nm then
             (case (has_args t nid, call_args t nid) of
                (True, [x]) \<Rightarrow>
                  (case (E (nt_ref t nid ''receiver''), E x) of
                     (Some a, Some b) \<Rightarrow> Some (RBin nm a b)
                   | _ \<Rightarrow> None)
              | _ \<Rightarrow> None)
           else if nm = ''ktime_ns'' \<and> call_args t nid = [] then Some RKtime
           else None)
      else None)"

fun rb_exp :: "nat \<Rightarrow> AST \<Rightarrow> int \<Rightarrow> rexp option" where
  "rb_exp 0 t nid = None"
| "rb_exp (Suc k) t nid = Option.bind (nt_type t nid) (rb_step (rb_exp k t) t nid)"

definition rb_seq :: "(int \<Rightarrow> rst option) \<Rightarrow> AST \<Rightarrow> int \<Rightarrow> rst list option" where
  "rb_seq S t nid =
     (if nid < 0 then Some []
      else if nt_type t nid = Some ''StatementsNode'' then those (map S (nt_arr t nid ''body''))
      else None)"

definition rb_rhs :: "(int \<Rightarrow> rexp option) \<Rightarrow> (int \<Rightarrow> rst option) \<Rightarrow> AST \<Rightarrow> int \<Rightarrow> rst option" where
  "rb_rhs E S t nid = (if nt_type t nid = Some ''IfNode'' then S nid else map_option SVal (E nid))"

definition rb_if :: "(int \<Rightarrow> rexp option) \<Rightarrow> (int \<Rightarrow> rst option) \<Rightarrow> AST \<Rightarrow> int \<Rightarrow> rst option" where
  "rb_if E S t nid =
     (case (E (nt_ref t nid ''predicate''), rb_seq S t (nt_ref t nid ''statements'')) of
        (Some c, Some ss) \<Rightarrow>
          let e = nt_ref t nid ''subsequent'' in
          if e < 0 then Some (SIf c ss)
          else if nt_type t e = Some ''ElseNode'' then
            map_option (SIfElse c ss) (rb_seq S t (nt_ref t e ''statements''))
          else if nt_type t e = Some ''IfNode'' then map_option (\<lambda>s. SIfElse c ss [s]) (S e)
          else None
      | _ \<Rightarrow> None)"

definition rb_stmt_step :: "(int \<Rightarrow> rexp option) \<Rightarrow> (int \<Rightarrow> rst option) \<Rightarrow> AST \<Rightarrow> int \<Rightarrow> string \<Rightarrow> rst option" where
  "rb_stmt_step E S t nid ty =
     (if ty = ''LocalVariableWriteNode'' then
        Option.bind (nt_str t nid ''name'') (\<lambda>x. map_option (SLocal x) (rb_rhs E S t (nt_ref t nid ''value'')))
      else if ty = ''InstanceVariableWriteNode'' then
        Option.bind (nt_str t nid ''name'') (\<lambda>x. map_option (SIvar (ivar_key x)) (rb_rhs E S t (nt_ref t nid ''value'')))
      else if ty = ''InstanceVariableOperatorWriteNode'' then
        (case (nt_str t nid ''name'', nt_str t nid ''binary_operator'') of
           (Some x, Some op) \<Rightarrow>
             if op \<in> {''+'', ''-'', ''*''} then map_option (SOp (ivar_key x) op) (E (nt_ref t nid ''value'')) else None
         | _ \<Rightarrow> None)
      else if ty = ''ReturnNode'' then
        (case call_args t nid of
           [] \<Rightarrow> Some SRet0
         | [a] \<Rightarrow> if has_args t nid then map_option SRet (rb_rhs E S t a) else None
         | _ \<Rightarrow> None)
      else if ty = ''IfNode'' then rb_if E S t nid
      else if ty = ''CallNode'' \<and> nt_str t nid ''name'' = Some ''spnl_emit'' then
        (case call_args t nid of
           [a] \<Rightarrow> if has_args t nid then map_option SEmit (rb_rhs E S t a) else None
         | _ \<Rightarrow> None)
      else map_option SVal (E nid))"

fun rb_stmt :: "nat \<Rightarrow> AST \<Rightarrow> int \<Rightarrow> rst option" where
  "rb_stmt 0 t nid = None"
| "rb_stmt (Suc k) t nid = Option.bind (nt_type t nid) (rb_stmt_step (rb_exp k t) (rb_stmt k t) t nid)"

definition rb_body :: "nat \<Rightarrow> AST \<Rightarrow> int \<Rightarrow> rst list option" where
  "rb_body k t nid = (if nt_type t nid = Some ''StatementsNode'' then rb_seq (rb_stmt k t) t nid else None)"

subsection \<open>Names\<close>

text \<open>Names of instance variables in the order the generator meets them, and of locals.\<close>

fun exp_ivars :: "rexp \<Rightarrow> string list" where
  "exp_ivars (RIvar x) = [x]"
| "exp_ivars (RParen e) = exp_ivars e"
| "exp_ivars (RBin _ a b) = exp_ivars a @ exp_ivars b"
| "exp_ivars _ = []"

fun st_ivars :: "rst \<Rightarrow> string list" where
  "st_ivars (SVal e) = exp_ivars e"
| "st_ivars (SLocal x r) = st_ivars r"
| "st_ivars (SIvar x r) = st_ivars r @ [x]"
| "st_ivars (SOp x op e) = exp_ivars e @ [x]"
| "st_ivars SRet0 = []"
| "st_ivars (SRet r) = st_ivars r"
| "st_ivars (SEmit r) = st_ivars r"
| "st_ivars (SIf c t) = exp_ivars c @ concat (map st_ivars t)"
| "st_ivars (SIfElse c t f) = exp_ivars c @ concat (map st_ivars t) @ concat (map st_ivars f)"

fun exp_locals :: "rexp \<Rightarrow> string list" where
  "exp_locals (RLoc x) = [x]"
| "exp_locals (RParen e) = exp_locals e"
| "exp_locals (RBin _ a b) = exp_locals a @ exp_locals b"
| "exp_locals _ = []"

fun st_locals :: "rst \<Rightarrow> string list" where
  "st_locals (SVal e) = exp_locals e"
| "st_locals (SLocal x r) = x # st_locals r"
| "st_locals (SIvar x r) = st_locals r"
| "st_locals (SOp x op e) = exp_locals e"
| "st_locals SRet0 = []"
| "st_locals (SRet r) = st_locals r"
| "st_locals (SEmit r) = st_locals r"
| "st_locals (SIf c t) = exp_locals c @ concat (map st_locals t)"
| "st_locals (SIfElse c t f) = exp_locals c @ concat (map st_locals t) @ concat (map st_locals f)"

subsection \<open>Evaluation\<close>

datatype rval = RVInt int | RVBool bool | RVNil

fun rep :: "rval \<Rightarrow> int" where
  "rep (RVInt n) = n" | "rep (RVBool b) = of_bool b" | "rep RVNil = 0"

record rstate =
  r_loc :: "string \<rightharpoonup> rval"
  r_iv :: "string \<Rightarrow> rval"
  r_out :: "int list"
  r_tick :: nat

text \<open>The C type of an expression.\<close>

fun ctype :: "rexp \<Rightarrow> cty" where
  "ctype (RInt v) = (if \<bar>v\<bar> < 2 ^ 31 then I32 else S64)"
| "ctype (RLoc x) = S64"
| "ctype (RIvar x) = U32"
| "ctype RKtime = S64"
| "ctype (RParen e) = ctype e"
| "ctype (RBin op a b) =
     (if op \<in> {''&&'', ''||''} \<or> map_of compare_ops op \<noteq> None then I32
      else if op \<in> {''<<'', ''>>''} then ctype a
      else usual (ctype a) (ctype b))"

fun reads_clock :: "rexp \<Rightarrow> bool" where
  "reads_clock RKtime = True"
| "reads_clock (RParen e) = reads_clock e"
| "reads_clock (RBin _ a b) = (reads_clock a \<or> reads_clock b)"
| "reads_clock _ = False"

text \<open>A binary operator on integers whose operands have the C types given.\<close>

definition ranged :: "cty \<Rightarrow> int \<Rightarrow> rval option" where
  "ranged T v = (if in_ty T v then Some (RVInt v) else None)"

definition r_binop :: "string \<Rightarrow> cty \<Rightarrow> cty \<Rightarrow> int \<Rightarrow> int \<Rightarrow> rval option" where
  "r_binop op A B a b =
     (let T = usual A B in
      if op = ''<<'' then (if 0 \<le> a \<and> 0 \<le> b \<and> b < width A then ranged A (a * 2 ^ nat b) else None)
      else if op = ''>>'' then (if 0 \<le> b \<and> b < width A then Some (RVInt (a div 2 ^ nat b)) else None)
      else if \<not> in_ty T a \<or> \<not> in_ty T b then None
      else case map_of compare_ops op of
        Some f \<Rightarrow> Some (RVBool (f a b))
      | None \<Rightarrow> (case map_of arith_ops op of
          Some f \<Rightarrow> ranged T (f a b)
        | None \<Rightarrow>
            if \<not> (0 \<le> a \<and> 0 < b) then None
            else if op = ''/'' then Some (RVInt (a div b))
            else if op = ''%'' then Some (RVInt (a mod b))
            else None))"

fun r_eval :: "(nat \<Rightarrow> int) \<Rightarrow> rexp \<Rightarrow> rstate \<Rightarrow> (rval \<times> rstate) option" where
  "r_eval clk (RInt v) s = (if \<bar>v\<bar> < 2 ^ 63 then Some (RVInt v, s) else None)"
| "r_eval clk (RLoc x) s = Some (case r_loc s x of Some v \<Rightarrow> v | None \<Rightarrow> RVNil, s)"
| "r_eval clk (RIvar x) s = Some (r_iv s x, s)"
| "r_eval clk RKtime s =
     (let v = clk (r_tick s) in
      if in_ty S64 v then Some (RVInt v, s \<lparr> r_tick := Suc (r_tick s) \<rparr>) else None)"
| "r_eval clk (RParen e) s = r_eval clk e s"
| "r_eval clk (RBin op a b) s =
     (if op = ''&&'' \<or> op = ''||'' then
        (case r_eval clk a s of
           Some (RVBool p, s1) \<Rightarrow>
             if p = (op = ''||'') then Some (RVBool p, s1)
             else (case r_eval clk b s1 of Some (RVBool q, s2) \<Rightarrow> Some (RVBool q, s2) | _ \<Rightarrow> None)
         | _ \<Rightarrow> None)
      else if reads_clock a \<and> reads_clock b then None
      else case r_eval clk a s of
        Some (RVInt x, s1) \<Rightarrow>
          (case r_eval clk b s1 of
             Some (RVInt y, s2) \<Rightarrow> map_option (\<lambda>v. (v, s2)) (r_binop op (ctype a) (ctype b) x y)
           | _ \<Rightarrow> None)
      | _ \<Rightarrow> None)"

datatype routcome = RNext rval rstate | RReturned rval rstate

definition r_then :: "routcome option \<Rightarrow> (rval \<Rightarrow> rstate \<Rightarrow> routcome option) \<Rightarrow> routcome option" where
  "r_then r f = Option.bind r (\<lambda>r. case r of RNext v s \<Rightarrow> f v s | RReturned v s \<Rightarrow> Some r)"

fun r_exec :: "(nat \<Rightarrow> int) \<Rightarrow> rst \<Rightarrow> rstate \<Rightarrow> routcome option"
and r_execs :: "(nat \<Rightarrow> int) \<Rightarrow> rst list \<Rightarrow> rstate \<Rightarrow> routcome option" where
  "r_exec clk (SVal e) s = map_option (\<lambda>(v, s'). RNext v s') (r_eval clk e s)"
| "r_exec clk (SLocal x r) s =
     r_then (r_exec clk r s) (\<lambda>v s'. Some (RNext v (s' \<lparr> r_loc := (r_loc s')(x \<mapsto> v) \<rparr>)))"
| "r_exec clk (SIvar x r) s =
     r_then (r_exec clk r s) (\<lambda>v s'.
       if in_ty U32 (rep v) then Some (RNext v (s' \<lparr> r_iv := (r_iv s')(x := v) \<rparr>)) else None)"
| "r_exec clk (SOp x op e) s =
     (case (r_iv s x, r_eval clk e s) of
        (RVInt a, Some (RVInt b, s')) \<Rightarrow>
          (case r_binop op U32 (ctype e) a b of
             Some v \<Rightarrow> if in_ty U32 (rep v) then Some (RNext v (s' \<lparr> r_iv := (r_iv s')(x := v) \<rparr>)) else None
           | None \<Rightarrow> None)
      | _ \<Rightarrow> None)"
| "r_exec clk SRet0 s = Some (RReturned RVNil s)"
| "r_exec clk (SRet r) s = r_then (r_exec clk r s) (\<lambda>v s'. Some (RReturned v s'))"
| "r_exec clk (SEmit r) s =
     r_then (r_exec clk r s) (\<lambda>v s'. Some (RNext RVNil (s' \<lparr> r_out := r_out s' @ [conv U64 (rep v)] \<rparr>)))"
| "r_exec clk (SIf c t) s =
     (case r_eval clk c s of
        Some (RVBool p, s1) \<Rightarrow> if p then r_execs clk t s1 else Some (RNext RVNil s1)
      | _ \<Rightarrow> None)"
| "r_exec clk (SIfElse c t f) s =
     (case r_eval clk c s of
        Some (RVBool p, s1) \<Rightarrow> if p then r_execs clk t s1 else r_execs clk f s1
      | _ \<Rightarrow> None)"
| "r_execs clk [] s = Some (RNext RVNil s)"
| "r_execs clk (x # xs) s =
     r_then (r_exec clk x s) (\<lambda>v s'. if xs = [] then Some (RNext v s') else r_execs clk xs s')"

text \<open>A call of a handler: locals start unassigned.\<close>

definition r_call :: "(nat \<Rightarrow> int) \<Rightarrow> rst list \<Rightarrow> rstate \<Rightarrow> (rval \<times> rstate) option" where
  "r_call clk b s =
     (case r_execs clk b (s \<lparr> r_loc := Map.empty \<rparr>) of
        Some (RNext v s') \<Rightarrow> Some (v, s' \<lparr> r_loc := r_loc s \<rparr>)
      | Some (RReturned v s') \<Rightarrow> Some (v, s' \<lparr> r_loc := r_loc s \<rparr>)
      | None \<Rightarrow> None)"

end
