(* ===== verification/Cc_Amp_Tree.thy ===== *)
theory Cc_Amp_Tree
  imports Amp_Ruby "HOL-Library.Sublist"
begin

text \<open>
  The lowering of a handler, as a function of its tree: the generator, which walks the node table,
  returns the text of the statements that this function gives.
\<close>

subsection \<open>Expressions\<close>

definition slot :: "string list \<Rightarrow> string \<Rightarrow> nat" where
  "slot R x = length (takeWhile (\<lambda>y. y \<noteq> x) R)"

definition reg :: "string list \<Rightarrow> string list \<Rightarrow> string list" where
  "reg R xs = fold add_name xs R"

definition iv_lv :: "string list \<Rightarrow> string \<Rightarrow> CExpr" where
  "iv_lv R x = CE_PAREN (CE_UNARY ''*'' (CE_CAST ''volatile __u32 *''
     (CE_PAREN (CE_BINOP ''+'' (CE_RAW IVARS_MACRO) (CE_RAW (dec_of (4 * slot R x) @ ''u''))))))"

fun ax :: "string list \<Rightarrow> rexp \<Rightarrow> CExpr" where
  "ax R (RInt v) = CE_RAW (show_int v)"
| "ax R (RLoc x) = CE_RAW (cc_safe_dup x)"
| "ax R (RIvar x) = iv_lv R x"
| "ax R RKtime = CE_PAREN (CE_CAST ''__s64'' (CE_CALL ''amp_ktime'' []))"
| "ax R (RParen e) = CE_PAREN (ax R e)"
| "ax R (RBin op a b) = CE_BINOP op (ax R a) (ax R b)"

definition pr :: "CExpr \<Rightarrow> string" where
  "pr e = the (ce_print e)"

fun ops_ok :: "rexp \<Rightarrow> bool" where
  "ops_ok (RParen e) = ops_ok e"
| "ops_ok (RBin op a b) = (op \<in> set (''&&'' # ''||'' # binary_ops) \<and> ops_ok a \<and> ops_ok b)"
| "ops_ok _ = True"

lemma binop_prec_ok: "op \<in> set (''&&'' # ''||'' # binary_ops) \<Longrightarrow> \<exists>p. ce_binop_prec op = Some p"
proof -
  have "list_all (\<lambda>op. ce_binop_prec op \<noteq> None) (''&&'' # ''||'' # binary_ops)" by code_simp
  then show "op \<in> set (''&&'' # ''||'' # binary_ops) \<Longrightarrow> \<exists>p. ce_binop_prec op = Some p"
    unfolding list_all_iff by blast
qed

lemma iv_lv_print: "ce_print (iv_lv R x) = Some (ivar_lvalue (slot R x))"
  by (simp add: iv_lv_def ivar_lvalue_def IVARS_MACRO_def ce_child_def ce_binop_prec_def CE_PREC_CAST_def CE_PREC_UNARY_def CE_PREC_PRIMARY_def)

lemma ax_prints: "ops_ok e \<Longrightarrow> \<exists>s p. ce_print (ax R e) = Some s \<and> ce_prec (ax R e) = Some p"
proof (induction e)
  case (RBin op a b)
  then show ?case using binop_prec_ok [of op] by auto
qed (auto simp: iv_lv_print, auto simp: iv_lv_def)

lemma ax_pr: "ops_ok e \<Longrightarrow> ce_print (ax R e) = Some (pr (ax R e))"
  using ax_prints [of e R] by (auto simp: pr_def)

subsection \<open>The registry of instance variables\<close>

lemma add_name_prefix: "prefix R (add_name x R)"
  by (simp add: add_name_def)

lemma reg_simps [simp]: "reg R [] = R" "reg R (xs @ ys) = reg (reg R xs) ys" "reg R [x] = add_name x R"
  by (simp_all add: reg_def)

lemma reg_prefix: "prefix R (reg R xs)"
proof (induction xs arbitrary: R)
  case (Cons x xs)
  have "prefix R (reg (add_name x R) xs)"
    using Cons [of "add_name x R"] add_name_prefix [of R x] prefix_order.trans by blast
  then show ?case by (simp add: reg_def)
qed simp

lemma slot_prefix: "x \<in> set R \<Longrightarrow> prefix R R' \<Longrightarrow> slot R' x = slot R x"
  by (auto simp: slot_def prefix_def takeWhile_append1)

lemma slot_less: "slot R x < length R \<longleftrightarrow> x \<in> set R"
  unfolding slot_def by (induction R) auto

lemma slot_new: "x \<notin> set R \<Longrightarrow> slot (R @ [x]) x = length R"
  unfolding slot_def by (induction R) auto

lemma amp_ivar_slot_slot:
  "amp_ivar_slot iv g =
     (let k = strip_at iv; I = cg_ivars g in
      if k \<in> set I then Inr (slot I k, g)
      else if AMP_MAX_IVARS \<le> length I then Inl (Die ''amp-m7: too many ivars (max 64)'')
      else Inr (length I, g \<lparr> cg_ivars := I @ [k] \<rparr>))"
  unfolding amp_ivar_slot_def slot_def [symmetric] by (simp add: slot_less Let_def)

lemma cc_ivar_map_reg:
  assumes "length (add_name (ivar_key iv) (cg_ivars g)) \<le> AMP_MAX_IVARS" "prefix (add_name (ivar_key iv) (cg_ivars g)) R"
  shows "cc_ivar_map iv g = Inr (ivar_lvalue (slot R (ivar_key iv)), g \<lparr> cg_ivars := add_name (ivar_key iv) (cg_ivars g) \<rparr>)"
proof -
  have "ivar_key iv \<in> set (add_name (ivar_key iv) (cg_ivars g))" by (simp add: add_name_def)
  then have "slot R (ivar_key iv) = slot (add_name (ivar_key iv) (cg_ivars g)) (ivar_key iv)"
    using assms(2) by (rule slot_prefix)
  then show ?thesis
    using assms(1) by (auto simp: cc_ivar_map_def amp_ivar_slot_slot bindE_def add_name_def ivar_key_def Let_def slot_new split: if_splits)
qed

subsection \<open>Lowering an expression\<close>

lemma nt_type_nonneg: "nt_type t nid = Some ty \<Longrightarrow> 0 \<le> nid"
  by (auto simp: nt_type_def node_at_def split: if_splits)

lemma rb_exp_type: "rb_exp k t nid = Some e \<Longrightarrow> \<exists>k' ty. k = Suc k' \<and> nt_type t nid = Some ty \<and> rb_step (rb_exp k' t) t nid ty = Some e"
  by (cases k) (auto split: bind_splits)

lemma rb_exp_nonneg: "rb_exp k t nid = Some e \<Longrightarrow> 0 \<le> nid"
  using rb_exp_type nt_type_nonneg by blast

definition exp_types :: "string list" where
  "exp_types = [''LocalVariableReadNode'', ''IntegerNode'', ''ConstantReadNode'', ''InstanceVariableReadNode'', ''ParenthesesNode'',
     ''OrNode'', ''AndNode'', ''CallNode'']"

lemma rb_step_cases:
  assumes "rb_step E t nid ty = Some e"
  obtains
    (Loc) x where "ty = ''LocalVariableReadNode''" "nt_str t nid ''name'' = Some x" "e = RLoc x"
  | (Int) "ty = ''IntegerNode''" "e = RInt (nt_int t nid ''value'' 0)"
  | (Const) x v where "ty = ''ConstantReadNode''" "nt_str t nid ''name'' = Some x" "cc_known_const x = Some v" "e = RInt v"
  | (Ivar) x where "ty = ''InstanceVariableReadNode''" "nt_str t nid ''name'' = Some x" "e = RIvar (ivar_key x)"
  | (Paren) x a where "ty = ''ParenthesesNode''" "nt_type t (nt_ref t nid ''body'') = Some ''StatementsNode''"
      "nt_arr t (nt_ref t nid ''body'') ''body'' = [x]" "E x = Some a" "e = RParen a"
  | (Or) a b where "ty = ''OrNode''" "E (nt_ref t nid ''left'') = Some a" "E (nt_ref t nid ''right'') = Some b" "e = RBin ''||'' a b"
  | (And) a b where "ty = ''AndNode''" "E (nt_ref t nid ''left'') = Some a" "E (nt_ref t nid ''right'') = Some b" "e = RBin ''&&'' a b"
  | (Bin) nm x a b where "ty = ''CallNode''" "nt_str t nid ''name'' = Some nm" "cc_is_binary_op nm"
      "nt_type t (nt_ref t nid ''arguments'') = Some ''ArgumentsNode''" "call_args t nid = [x]"
      "E (nt_ref t nid ''receiver'') = Some a" "E x = Some b" "e = RBin nm a b"
  | (Ktime) "ty = ''CallNode''" "nt_str t nid ''name'' = Some ''ktime_ns''" "call_args t nid = []" "e = RKtime"
  using assms unfolding rb_step_def has_args_def
  by (auto split: if_splits option.splits list.splits bool.splits bind_splits prod.splits simp: Let_def)

lemma rb_exp_ops: "rb_exp k t nid = Some e \<Longrightarrow> ops_ok e"
proof (induction k arbitrary: nid e)
  case (Suc k)
  obtain ty where "rb_step (rb_exp k t) t nid ty = Some e" using rb_exp_type [OF Suc.prems] by auto
  then show ?case
  proof (cases rule: rb_step_cases)
    case Paren then show ?thesis using Suc.IH by simp
  next
    case Or then show ?thesis using Suc.IH by (simp del: ops_ok.simps add: ops_ok.simps(2))
  next
    case And then show ?thesis using Suc.IH by (simp del: ops_ok.simps add: ops_ok.simps(2))
  next
    case Bin then show ?thesis using Suc.IH by (simp add: cc_is_binary_op_def)
  qed simp_all
qed simp

lemma build_leaf:
  assumes "nt_type (un_ast u) nid = Some ty" "ty \<notin> {''ParenthesesNode'', ''OrNode'', ''AndNode''}"
    "\<And>nm. nt_str (un_ast u) nid ''name'' = Some nm \<Longrightarrow> ty = ''CallNode'' \<Longrightarrow> \<not> cc_is_binary_op nm"
  shows "cc_build_expr (Suc n) u nid g = bindE (cc_lower_expr n u nid g) (\<lambda>(s, g1). Inr (CE_RAW s, g1))"
proof -
  let ?t = "un_ast u" and ?leaf = "bindE (cc_lower_expr n u nid g) (\<lambda>(s, g1). Inr (CE_RAW s, g1))"
  have "Some ty \<noteq> Some ''ParenthesesNode''" "\<not> (Some ty = Some ''OrNode'' \<or> Some ty = Some ''AndNode'')"
    using assms(2) by simp_all
  note ifs = if_not_P [OF this(1)] if_not_P [OF this(2)]
  show ?thesis
  proof (cases "ty = ''CallNode''")
    case True
    show ?thesis
    proof (cases "nt_str ?t nid ''name''")
      case None
      then show ?thesis unfolding cc_build_expr.simps build_expr_step_def Let_def assms(1) ifs by (simp add: True)
    next
      case (Some nm)
      have "\<not> cc_is_binary_op nm" by (rule assms(3) [OF Some True])
      then show ?thesis unfolding cc_build_expr.simps build_expr_step_def Let_def assms(1) ifs by (simp add: True Some)
    qed
  next
    case False
    then show ?thesis unfolding cc_build_expr.simps build_expr_step_def Let_def assms(1) ifs by simp
  qed
qed

text \<open>An expression in statement position is lowered as one.\<close>

lemma stmt_of_exp:
  assumes "rb_exp k (un_ast u) nid = Some e"
  shows "cc_lower_stmt (Suc n) u nid g = bindE (cc_lower_expr n u nid g) (\<lambda>(s, g1). Inr (Some s, g1))"
proof -
  obtain k' ty where ty: "nt_type (un_ast u) nid = Some ty" "rb_step (rb_exp k' (un_ast u)) (un_ast u) nid ty = Some e"
    using rb_exp_type [OF assms] by auto
  have e: "\<not> cc_is_binary_op ''spnl_emit''" by code_simp
  from ty(2) show ?thesis
  proof (cases rule: rb_step_cases)
    case (Bin nm x a b)
    then have "nm \<noteq> ''spnl_emit''" using e by blast
    then show ?thesis using ty(1) Bin(1,2) by (simp add: lower_stmt_step_def)
  qed (simp_all add: ty(1) lower_stmt_step_def)
qed

definition exp_lowered :: "string list \<Rightarrow> nat \<Rightarrow> cunit \<Rightarrow> int \<Rightarrow> cg \<Rightarrow> rexp \<Rightarrow> bool" where
  "exp_lowered R n u nid g e =
     (let g' = g \<lparr> cg_ivars := reg (cg_ivars g) (exp_ivars e) \<rparr> in
      cc_lower_expr n u nid g = Inr (pr (ax R e), g') \<and>
      (\<exists>ce. cc_build_expr n u nid g = Inr (ce, g') \<and> ce_print ce = Some (pr (ax R e)) \<and> ce_prec ce = ce_prec (ax R e)))"

text \<open>The registry after a tree fits, and the final registry extends it.\<close>

definition fits :: "string list \<Rightarrow> string list \<Rightarrow> string list \<Rightarrow> bool" where
  "fits R I xs = (length (reg I xs) \<le> AMP_MAX_IVARS \<and> prefix (reg I xs) R)"

lemma fits_append: "fits R I (xs @ ys) \<longleftrightarrow> fits R I xs \<and> fits R (reg I xs) ys"
  using reg_prefix [of "reg I xs" ys] prefix_length_le [of "reg I xs" "reg (reg I xs) ys"]
    prefix_order.trans [of "reg I xs" "reg (reg I xs) ys" R] by (auto simp: fits_def)

lemma exp_lowered_leaf:
  assumes "nt_type (un_ast u) nid = Some ty" "ty \<notin> {''ParenthesesNode'', ''OrNode'', ''AndNode''}"
    "\<And>nm. nt_str (un_ast u) nid ''name'' = Some nm \<Longrightarrow> ty = ''CallNode'' \<Longrightarrow> \<not> cc_is_binary_op nm"
    "\<And>n. cc_lower_expr (Suc n) u nid g = Inr (pr (ax R e), g \<lparr> cg_ivars := reg (cg_ivars g) (exp_ivars e) \<rparr>)"
    "ce_prec (ax R e) = Some CE_PREC_PRIMARY" "2 \<le> n"
  shows "exp_lowered R n u nid g e"
proof -
  obtain m where "n = Suc (Suc m)" using assms(6) le_Suc_ex [of 2 n] by auto
  then show ?thesis
    using build_leaf [OF assms(1-3), of "Suc m" g] assms(4) [of m] assms(4) [of "Suc m"] assms(5)
    by (simp add: exp_lowered_def bindE_def Let_def del: cc_lower_expr.simps cc_build_expr.simps)
qed

lemma exp_lowered_binop:
  assumes "exp_lowered R n u l g a" "exp_lowered R n u r (g \<lparr> cg_ivars := reg (cg_ivars g) (exp_ivars a) \<rparr>) b"
    "ops_ok (RBin op a b)"
    "cc_build_expr (Suc n) u nid g = bindE (cc_build_expr n u l g) (\<lambda>(lhs, g1).
       bindE (cc_build_expr n u r g1) (\<lambda>(rhs, g2). Inr (CE_BINOP op lhs rhs, g2)))"
    "cc_lower_expr (Suc (Suc n)) u nid g = bindE (cc_build_expr (Suc n) u nid g) print_expr"
  shows "\<exists>ce. cc_build_expr (Suc n) u nid g = Inr (ce, g \<lparr> cg_ivars := reg (cg_ivars g) (exp_ivars (RBin op a b)) \<rparr>)
      \<and> ce_print ce = Some (pr (ax R (RBin op a b))) \<and> ce_prec ce = ce_prec (ax R (RBin op a b))"
    "cc_lower_expr (Suc (Suc n)) u nid g = Inr (pr (ax R (RBin op a b)), g \<lparr> cg_ivars := reg (cg_ivars g) (exp_ivars (RBin op a b)) \<rparr>)"
proof -
  obtain ca cb where c: "cc_build_expr n u l g = Inr (ca, g \<lparr> cg_ivars := reg (cg_ivars g) (exp_ivars a) \<rparr>)"
      "ce_print ca = Some (pr (ax R a))" "ce_prec ca = ce_prec (ax R a)"
      "cc_build_expr n u r (g \<lparr> cg_ivars := reg (cg_ivars g) (exp_ivars a) \<rparr>)
         = Inr (cb, g \<lparr> cg_ivars := reg (cg_ivars g) (exp_ivars (RBin op a b)) \<rparr>)"
      "ce_print cb = Some (pr (ax R b))" "ce_prec cb = ce_prec (ax R b)"
    using assms(1,2) by (auto simp: exp_lowered_def Let_def)
  have b: "cc_build_expr (Suc n) u nid g = Inr (CE_BINOP op ca cb, g \<lparr> cg_ivars := reg (cg_ivars g) (exp_ivars (RBin op a b)) \<rparr>)"
    using assms(4) c(1,4) by (simp add: bindE_def)
  have p: "ce_print (CE_BINOP op ca cb) = Some (pr (ax R (RBin op a b)))"
  proof -
    have "ce_print (CE_BINOP op ca cb) = ce_print (ax R (RBin op a b))"
      using ax_pr [of a R] ax_pr [of b R] assms(3) by (simp only: ce_print.simps ax.simps c ops_ok.simps)
    then show ?thesis using ax_pr [OF assms(3)] by simp
  qed
  show "\<exists>ce. cc_build_expr (Suc n) u nid g = Inr (ce, g \<lparr> cg_ivars := reg (cg_ivars g) (exp_ivars (RBin op a b)) \<rparr>)
      \<and> ce_print ce = Some (pr (ax R (RBin op a b))) \<and> ce_prec ce = ce_prec (ax R (RBin op a b))"
    using b p by (intro exI [of _ "CE_BINOP op ca cb"]) simp
  show "cc_lower_expr (Suc (Suc n)) u nid g = Inr (pr (ax R (RBin op a b)), g \<lparr> cg_ivars := reg (cg_ivars g) (exp_ivars (RBin op a b)) \<rparr>)"
    unfolding assms(5) b using p by (simp add: bindE_def print_expr_def)
qed

lemma known_arity: "map_of cc_declared_arity ''ktime_ns'' = Some 0"
  by (simp add: cc_declared_arity_def)

lemma ktime_not_op: "\<not> cc_is_binary_op ''ktime_ns''"
  by code_simp

lemma lower_ktime:
  assumes "nt_type (un_ast u) nid = Some ''CallNode''" "nt_str (un_ast u) nid ''name'' = Some ''ktime_ns''"
    "call_args (un_ast u) nid = []" "\<not> cc_is_ebpf_method u ''ktime_ns''"
  shows "cc_lower_expr (Suc n) u nid g = Inr (''((__s64)amp_ktime())'', g)"
proof -
  have "cc_require_declared_arity (un_ast u) nid ''ktime_ns'' = Inr ()"
    using assms(3) by (simp add: cc_require_declared_arity_def known_arity)
  then show ?thesis using assms ktime_not_op by (simp add: lower_expr_step_def bindE_def)
qed

lemma lower_paren:
  assumes "nt_type (un_ast u) nid = Some ''ParenthesesNode''" "nt_type (un_ast u) (nt_ref (un_ast u) nid ''body'') = Some ''StatementsNode''"
    "nt_arr (un_ast u) (nt_ref (un_ast u) nid ''body'') ''body'' = [x]" "rb_exp k (un_ast u) x = Some a"
    "cc_lower_expr n u x g = Inr (s, g')"
  shows "cc_lower_expr (Suc (Suc (Suc (Suc n)))) u nid g = Inr (''('' @ s @ '')'', g')"
    "cc_build_expr (Suc (Suc (Suc (Suc (Suc n))))) u nid g = Inr (CE_PAREN (CE_RAW s), g')"
proof -
  let ?b = "nt_ref (un_ast u) nid ''body''"
  have b: "\<not> ?b < 0" using nt_type_nonneg [OF assms(2)] by simp
  have "cc_lower_stmt (Suc n) u x g = Inr (Some s, g')" using stmt_of_exp [OF assms(4)] assms(5) by (simp add: bindE_def)
  then have "cc_lower_stmt (Suc (Suc n)) u ?b g = Inr (Some s, g')"
    using assms(2,3) by (subst cc_lower_stmt.simps) (simp add: lower_stmt_step_def bindE_def del: cc_lower_stmt.simps)
  then have l: "cc_lower_expr (Suc (Suc (Suc n))) u ?b g = Inr (s, g')"
    using assms(2) by (subst cc_lower_expr.simps) (simp add: lower_expr_step_def bindE_def del: cc_lower_stmt.simps)
  then show "cc_lower_expr (Suc (Suc (Suc (Suc n)))) u nid g = Inr (''('' @ s @ '')'', g')"
    using assms(1) b by (subst cc_lower_expr.simps) (simp add: lower_expr_step_def bindE_def del: cc_lower_expr.simps)
  have "cc_build_expr (Suc (Suc (Suc (Suc n)))) u ?b g = Inr (CE_RAW s, g')"
    using build_leaf [OF assms(2), of "Suc (Suc (Suc n))" g] l by (simp add: bindE_def del: cc_build_expr.simps cc_lower_expr.simps)
  then show "cc_build_expr (Suc (Suc (Suc (Suc (Suc n))))) u nid g = Inr (CE_PAREN (CE_RAW s), g')"
    using assms(1) b by (subst cc_build_expr.simps) (simp add: build_expr_step_def bindE_def Let_def del: cc_build_expr.simps)
qed

lemma build_logical:
  assumes "nt_type (un_ast u) nid = Some ty" "ty = ''OrNode'' \<and> op = ''||'' \<or> ty = ''AndNode'' \<and> op = ''&&''"
    "0 \<le> nt_ref (un_ast u) nid ''left''" "0 \<le> nt_ref (un_ast u) nid ''right''"
  shows "cc_build_expr (Suc n) u nid g = bindE (cc_build_expr n u (nt_ref (un_ast u) nid ''left'') g) (\<lambda>(lhs, g1).
       bindE (cc_build_expr n u (nt_ref (un_ast u) nid ''right'') g1) (\<lambda>(rhs, g2). Inr (CE_BINOP op lhs rhs, g2)))"
    "cc_lower_expr (Suc (Suc n)) u nid g = bindE (cc_build_expr (Suc n) u nid g) print_expr"
proof -
  from assms(2) consider "ty = ''OrNode''" "op = ''||''" | "ty = ''AndNode''" "op = ''&&''" by blast
  then show "cc_build_expr (Suc n) u nid g = bindE (cc_build_expr n u (nt_ref (un_ast u) nid ''left'') g) (\<lambda>(lhs, g1).
       bindE (cc_build_expr n u (nt_ref (un_ast u) nid ''right'') g1) (\<lambda>(rhs, g2). Inr (CE_BINOP op lhs rhs, g2)))"
    by cases (use assms(1,3,4) in \<open>simp_all add: build_expr_step_def Let_def\<close>)
  from assms(2) consider "ty = ''OrNode''" | "ty = ''AndNode''" by blast
  then show "cc_lower_expr (Suc (Suc n)) u nid g = bindE (cc_build_expr (Suc n) u nid g) print_expr"
    by cases (use assms(1) in \<open>simp_all add: lower_expr_step_def del: cc_build_expr.simps\<close>)
qed

lemma build_call:
  assumes "nt_type (un_ast u) nid = Some ''CallNode''" "nt_str (un_ast u) nid ''name'' = Some nm" "cc_is_binary_op nm"
    "nt_type (un_ast u) (nt_ref (un_ast u) nid ''arguments'') = Some ''ArgumentsNode''" "call_args (un_ast u) nid = [x]"
    "0 \<le> nt_ref (un_ast u) nid ''receiver''"
  shows "cc_build_expr (Suc n) u nid g = bindE (cc_build_expr n u (nt_ref (un_ast u) nid ''receiver'') g) (\<lambda>(lhs, g1).
       bindE (cc_build_expr n u x g1) (\<lambda>(rhs, g2). Inr (CE_BINOP nm lhs rhs, g2)))"
    "cc_lower_expr (Suc (Suc n)) u nid g = bindE (cc_build_expr (Suc n) u nid g) print_expr"
proof -
  have a: "0 \<le> nt_ref (un_ast u) nid ''arguments''" by (rule nt_type_nonneg [OF assms(4)])
  then have "nt_arr (un_ast u) (nt_ref (un_ast u) nid ''arguments'') ''arguments'' = [x]"
    using assms(5) by (simp add: call_args_def Let_def)
  then show "cc_build_expr (Suc n) u nid g = bindE (cc_build_expr n u (nt_ref (un_ast u) nid ''receiver'') g) (\<lambda>(lhs, g1).
       bindE (cc_build_expr n u x g1) (\<lambda>(rhs, g2). Inr (CE_BINOP nm lhs rhs, g2)))"
    using assms a by (simp add: build_expr_step_def Let_def)
  have "cc_require_declared_arity (un_ast u) nid nm = Inr ()"
    using assms(6) by (simp add: cc_require_declared_arity_def)
  then show "cc_lower_expr (Suc (Suc n)) u nid g = bindE (cc_build_expr (Suc n) u nid g) print_expr"
    using assms(1-3) by (simp add: lower_expr_step_def bindE_def del: cc_build_expr.simps)
qed

lemma exp_lowered_pair:
  assumes "\<And>nid e n g. rb_exp k (un_ast u) nid = Some e \<Longrightarrow> 6 * k \<le> n \<Longrightarrow> fits R (cg_ivars g) (exp_ivars e) \<Longrightarrow> exp_lowered R n u nid g e"
    "rb_exp k (un_ast u) l = Some a" "rb_exp k (un_ast u) r = Some b" "6 * Suc k \<le> n" "fits R (cg_ivars g) (exp_ivars (RBin op a b))"
    "ops_ok (RBin op a b)"
    "\<And>n. cc_build_expr (Suc n) u nid g = bindE (cc_build_expr n u l g) (\<lambda>(lhs, g1).
       bindE (cc_build_expr n u r g1) (\<lambda>(rhs, g2). Inr (CE_BINOP op lhs rhs, g2)))"
    "\<And>n. cc_lower_expr (Suc (Suc n)) u nid g = bindE (cc_build_expr (Suc n) u nid g) print_expr"
  shows "exp_lowered R n u nid g (RBin op a b)"
proof -
  obtain m where m: "n = Suc (Suc m)" using assms(4) le_Suc_ex [of 2 n] by auto
  have l: "exp_lowered R m' u l g a" "exp_lowered R m' u r (g \<lparr> cg_ivars := reg (cg_ivars g) (exp_ivars a) \<rparr>) b" if "6 * k \<le> m'" for m'
    using that assms(1) [OF assms(2)] assms(1) [OF assms(3)] assms(5) by (auto simp: fits_append)
  have "6 * k \<le> m" using assms(4) m by simp
  then show ?thesis
    unfolding exp_lowered_def Let_def m
    using exp_lowered_binop(2) [OF l [of m] assms(6) assms(7,8)] exp_lowered_binop(1) [OF l [of "Suc m"] assms(6) assms(7,8)]
    by (simp del: cc_lower_expr.simps cc_build_expr.simps)
qed

lemma exp_lowered:
  assumes "\<not> cc_is_ebpf_method u ''ktime_ns''"
  shows "rb_exp k (un_ast u) nid = Some e \<Longrightarrow> 6 * k \<le> n \<Longrightarrow> fits R (cg_ivars g) (exp_ivars e) \<Longrightarrow> exp_lowered R n u nid g e"
proof (induction k arbitrary: nid e n g)
  case (Suc k)
  obtain ty where ty: "nt_type (un_ast u) nid = Some ty" "rb_step (rb_exp k (un_ast u)) (un_ast u) nid ty = Some e"
    using rb_exp_type [OF Suc.prems(1)] by auto
  note ops = rb_exp_ops [OF Suc.prems(1)]
  have n: "2 \<le> n" using Suc.prems(2) by simp
  from ty(2) show ?case
  proof (cases rule: rb_step_cases)
    case (Loc x)
    then show ?thesis using ty(1) n by (intro exp_lowered_leaf [of u nid ty]) (simp_all add: lower_expr_step_def pr_def)
  next
    case Int
    then show ?thesis using ty(1) n by (intro exp_lowered_leaf [of u nid ty]) (simp_all add: lower_expr_step_def pr_def)
  next
    case (Const x v)
    then show ?thesis using ty(1) n by (intro exp_lowered_leaf [of u nid ty]) (simp_all add: lower_expr_step_def pr_def)
  next
    case (Ivar x)
    have "cc_ivar_map x g = Inr (ivar_lvalue (slot R (ivar_key x)), g \<lparr> cg_ivars := add_name (ivar_key x) (cg_ivars g) \<rparr>)"
      using Suc.prems(3) Ivar(3) by (intro cc_ivar_map_reg) (simp_all add: fits_def)
    then show ?thesis
      using Ivar ty(1) n by (intro exp_lowered_leaf [of u nid ty]) (simp_all add: lower_expr_step_def pr_def iv_lv_print, simp add: iv_lv_def)
  next
    case Ktime
    then show ?thesis using ty(1) n lower_ktime [OF _ _ _ assms] ktime_not_op
      by (intro exp_lowered_leaf [of u nid ty]) (simp_all add: pr_def ce_child_def CE_PREC_POSTFIX_def CE_PREC_CAST_def del: cc_lower_expr.simps)
  next
    case (Paren x a)
    obtain m where m: "n = Suc (Suc (Suc (Suc (Suc m))))" "6 * k \<le> m" using Suc.prems(2) le_Suc_ex [of 5 n] by (auto simp: eval_nat_numeral)
    have f: "fits R (cg_ivars g) (exp_ivars a)" using Suc.prems(3) Paren(5) by simp
    have low: "cc_lower_expr m' u x g = Inr (pr (ax R a), g \<lparr> cg_ivars := reg (cg_ivars g) (exp_ivars a) \<rparr>)" if "6 * k \<le> m'" for m'
      using Suc.IH [OF Paren(4) that f] by (simp add: exp_lowered_def Let_def)
    note p = lower_paren [OF ty(1) [unfolded Paren(1)] Paren(2-4) low]
    obtain q where "ce_print (ax R a) = Some q" using ops Paren(5) ax_prints [of a R] by auto
    then have "pr (ax R e) = ''('' @ pr (ax R a) @ '')''" using Paren(5) by (simp add: pr_def)
    then show ?thesis
      unfolding exp_lowered_def Let_def m(1) using p(1) [of "Suc m"] p(2) [OF m(2)] m(2) Paren(5)
      by (simp del: cc_lower_expr.simps cc_build_expr.simps)
  next
    case (Or a b)
    note nn = rb_exp_nonneg [OF Or(2)] rb_exp_nonneg [OF Or(3)]
    show ?thesis unfolding Or(4)
      using Suc.prems ops Or build_logical [OF ty(1) _ nn, of "''||''"]
      by (intro exp_lowered_pair [OF Suc.IH Or(2,3)]) (simp_all only: simp_thms)
  next
    case (And a b)
    note nn = rb_exp_nonneg [OF And(2)] rb_exp_nonneg [OF And(3)]
    show ?thesis unfolding And(4)
      using Suc.prems ops And build_logical [OF ty(1) _ nn, of "''&&''"]
      by (intro exp_lowered_pair [OF Suc.IH And(2,3)]) (simp_all only: simp_thms)
  next
    case (Bin nm x a b)
    note b = build_call [OF ty(1) [unfolded Bin(1)] Bin(2-5) rb_exp_nonneg [OF Bin(6)]]
    show ?thesis unfolding Bin(8)
      using Suc.prems ops Bin b by (intro exp_lowered_pair [OF Suc.IH Bin(6,7)]) (simp_all only: simp_thms)
  qed
qed simp

subsection \<open>Statements\<close>

datatype ist = IDecl string | IAsg CExpr CExpr | IRet "CExpr option" | IExp CExpr
  | IIf CExpr "ist list" | IIfElse CExpr "ist list" "ist list"

fun ilines :: "ist \<Rightarrow> string list" where
  "ilines (IDecl x) = [''__s64 '' @ x @ '' = 0;'']"
| "ilines (IAsg l e) = [pr l @ '' = '' @ pr e @ '';'']"
| "ilines (IRet e) = [case e of None \<Rightarrow> ''return;'' | Some e \<Rightarrow> ''return '' @ pr e @ '';'']"
| "ilines (IExp e) = [pr e @ '';'']"
| "ilines (IIf c t) = [''if ('' @ pr c @ '') {''] @ map cc_indent_each (concat (map ilines t)) @ [''}'']"
| "ilines (IIfElse c t f) = [''if ('' @ pr c @ '') {''] @ map cc_indent_each (concat (map ilines t)) @ [''} else {''] @
     map cc_indent_each (concat (map ilines f)) @ [''}'']"

definition tmp_name :: "nat \<Rightarrow> string" where
  "tmp_name c = ''_if'' @ dec_of c"

definition value_of :: "CExpr option \<Rightarrow> CExpr" where
  "value_of v = (case v of Some e \<Rightarrow> e | None \<Rightarrow> CE_RAW ''0'')"

definition tmp_asg :: "nat \<Rightarrow> CExpr option \<Rightarrow> ist list" where
  "tmp_asg c v = (case v of Some e \<Rightarrow> [IAsg (CE_RAW (tmp_name c)) e] | None \<Rightarrow> [])"

definition void_line :: "ist list \<Rightarrow> CExpr option \<Rightarrow> ist list" where
  "void_line is v = (case v of Some e \<Rightarrow> if is = [] \<and> pr e \<noteq> [] then [IExp (CE_CAST ''void'' (CE_PAREN e))] else [] | None \<Rightarrow> [])"

text \<open>The statements of a tree, its value and the next temporary, from the number of the last one.\<close>

fun lw :: "bool \<Rightarrow> string list \<Rightarrow> rst \<Rightarrow> nat \<Rightarrow> ist list \<times> CExpr option \<times> nat"
and lws :: "bool \<Rightarrow> string list \<Rightarrow> rst list \<Rightarrow> nat \<Rightarrow> ist list \<times> CExpr option \<times> nat" where
  "lw vd R (SVal e) c = ([], Some (ax R e), c)"
| "lw vd R (SLocal x r) c =
     (let (is, v, c1) = lw vd R r c in
      (is @ [IAsg (CE_RAW (cc_safe_dup x)) (value_of v)], Some (CE_RAW (cc_safe_dup x)), c1))"
| "lw vd R (SIvar x r) c =
     (let (is, v, c1) = lw vd R r c in (is @ [IAsg (iv_lv R x) (CE_PAREN (value_of v))], Some (iv_lv R x), c1))"
| "lw vd R (SOp x op e) c =
     ([IAsg (iv_lv R x) (CE_BINOP op (iv_lv R x) (CE_PAREN (ax R e)))], Some (iv_lv R x), c)"
| "lw vd R SRet0 c = ([IRet (if vd then None else Some (CE_RAW ''0''))], None, c)"
| "lw vd R (SRet r) c = (let (is, v, c1) = lw vd R r c in (is @ [IRet (Some (value_of v))], None, c1))"
| "lw vd R (SEmit r) c =
     (let (is, v, c1) = lw vd R r c in (is @ [IExp (CE_CALL ''amp_emit'' [value_of v])], Some (CE_RAW ''0''), c1))"
| "lw vd R (SIf e t) c =
     (let (ti, tv, c1) = lws vd R t (Suc c) in
      ([IDecl (tmp_name (Suc c)), IIf (ax R e) (ti @ tmp_asg (Suc c) tv)], Some (CE_RAW (tmp_name (Suc c))), c1))"
| "lw vd R (SIfElse e t f) c =
     (let (ti, tv, c1) = lws vd R t (Suc c); (fi, fv, c2) = lws vd R f c1 in
      ([IDecl (tmp_name (Suc c)), IIfElse (ax R e) (ti @ tmp_asg (Suc c) tv) (fi @ tmp_asg (Suc c) fv)],
       Some (CE_RAW (tmp_name (Suc c))), c2))"
| "lws vd R [] c = ([], None, c)"
| "lws vd R (s # ss) c =
     (let (is, v, c1) = lw vd R s c in
      if ss = [] then (is, v, c1)
      else let (js, w, c2) = lws vd R ss c1 in (is @ void_line is v @ js, w, c2))"

fun returns :: "rst \<Rightarrow> bool" where
  "returns (SVal e) = False"
| "returns (SLocal x r) = returns r"
| "returns (SIvar x r) = returns r"
| "returns (SOp x op e) = False"
| "returns SRet0 = True"
| "returns (SRet r) = True"
| "returns (SEmit r) = returns r"
| "returns (SIf c t) = list_ex returns t"
| "returns (SIfElse c t f) = (list_ex returns t \<or> list_ex returns f)"

definition lowered_to :: "cg \<Rightarrow> string list \<Rightarrow> ist list \<times> CExpr option \<times> nat \<Rightarrow> (string option \<times> cg) result" where
  "lowered_to g xs r =
     (case r of (is, v, c) \<Rightarrow>
        Inr (map_option pr v, g \<lparr> cg_ctr := c, cg_ivars := reg (cg_ivars g) xs, cg_lines := cg_lines g @ concat (map ilines is) \<rparr>))"

lemma concat_ilines_Nil: "concat (map ilines is) = [] \<longleftrightarrow> is = []"
proof (cases "is")
  case (Cons a list)
  then show ?thesis by (cases a) auto
qed simp

lemma lw_Nil: "lw vd R s c = ([], v, c') \<Longrightarrow> \<exists>e. s = SVal e"
  by (cases s) (auto simp: Let_def split: prod.splits)

lemma pr_void: "ce_print a = Some q \<Longrightarrow> pr (CE_CAST ''void'' (CE_PAREN a)) = ''(void)('' @ pr a @ '')''"
  by (simp add: pr_def ce_child_def CE_PREC_CAST_def CE_PREC_PRIMARY_def)

lemma void_line_lines:
  assumes "lw vd R s c = (is, v, c')" "\<And>e. s = SVal e \<Longrightarrow> ops_ok e"
  shows "concat (map ilines (void_line is v)) =
    (case map_option pr v of Some e \<Rightarrow> if is = [] \<and> e \<noteq> [] then [''(void)('' @ e @ '');''] else [] | None \<Rightarrow> [])"
proof (cases "is = []")
  case True
  then obtain e where e: "s = SVal e" using lw_Nil assms(1) by blast
  obtain q where "ce_print (ax R e) = Some q" using ax_prints assms(2) [OF e] by blast
  then show ?thesis using assms(1) e by (auto simp: void_line_def pr_void)
qed (auto simp: void_line_def split: option.splits)

text \<open>A sequence, given its statements.\<close>

lemma seq_lowered:
  assumes "those (map S ids) = Some ss" "fits R (cg_ivars g) (concat (map st_ivars ss))"
    "\<And>i s g. i \<in> set ids \<Longrightarrow> S i = Some s \<Longrightarrow> s \<in> set ss \<Longrightarrow> fits R (cg_ivars g) (st_ivars s) \<Longrightarrow> f i g = lowered_to g (st_ivars s) (lw vd R s (cg_ctr g))"
    "\<And>i e. S i = Some (SVal e) \<Longrightarrow> ops_ok e"
  shows "lower_seq f ids g = lowered_to g (concat (map st_ivars ss)) (lws vd R ss (cg_ctr g))"
  using assms(1-3)
proof (induction ids arbitrary: ss g)
  case Nil
  then show ?case by (simp add: lowered_to_def)
next
  case (Cons i ids)
  obtain s ss' where s: "S i = Some s" "those (map S ids) = Some ss'" "ss = s # ss'"
    using Cons.prems(1) by (auto split: option.splits)
  obtain "is" v c where l: "lw vd R s (cg_ctr g) = (is, v, c)" by (cases "lw vd R s (cg_ctr g)")
  let ?g = "g \<lparr> cg_ctr := c, cg_ivars := reg (cg_ivars g) (st_ivars s), cg_lines := cg_lines g @ concat (map ilines is) \<rparr>"
  have ft: "fits R (cg_ivars g) (st_ivars s)" "fits R (reg (cg_ivars g) (st_ivars s)) (concat (map st_ivars ss'))"
    using Cons.prems(2) s(3) by (simp_all add: fits_append)
  have f: "f i g = Inr (map_option pr v, ?g)"
    using Cons.prems(3) [OF _ s(1) _ ft(1)] s(3) l by (simp add: lowered_to_def)
  have e: "ids = [] \<longleftrightarrow> ss' = []" using s(2) by (cases ids) (auto split: option.splits)
  let ?g2 = "?g \<lparr> cg_lines := cg_lines ?g @ concat (map ilines (void_line is v)) \<rparr>"
  have vl: "(case map_option pr v of
                 Some e \<Rightarrow> if length (cg_lines ?g) = length (cg_lines g) \<and> e \<noteq> [] then push_line (''(void)('' @ e @ '');'') ?g else ?g
               | None \<Rightarrow> ?g) = ?g2"
  proof -
    have "\<And>e. s = SVal e \<Longrightarrow> ops_ok e" using assms(4) s(1) by blast
    note vv = void_line_lines [OF l this]
    have len: "length (cg_lines ?g) = length (cg_lines g) \<longleftrightarrow> is = []" using concat_ilines_Nil [of "is"] by (simp del: concat_eq_Nil_conv)
    show ?thesis
    proof (cases v)
      case None
      then show ?thesis using vv by (simp add: void_line_def)
    next
      case (Some a)
      have "concat (map ilines (void_line is (Some a))) = (if is = [] \<and> pr a \<noteq> [] then [''(void)('' @ pr a @ '');''] else [])"
        using vv unfolding Some by (simp del: concat_eq_Nil_conv)
      then show ?thesis unfolding Some option.map option.case len by (simp add: push_line_def del: concat_eq_Nil_conv)
    qed
  qed
  show ?case
  proof (cases "ids = []")
    case True
    then show ?thesis using f e s(3) l by (simp add: lowered_to_def bindE_def)
  next
    case False
    have "lower_seq f ids ?g2 = lowered_to ?g2 (concat (map st_ivars ss')) (lws vd R ss' (cg_ctr ?g2))"
      using Cons.IH [OF s(2), of ?g2] Cons.prems(3) ft(2) s(3) by simp
    then show ?thesis using f False e s(3) l vl by (simp add: lowered_to_def bindE_def split: prod.split)
  qed
qed

lemma rb_stmt_type: "rb_stmt k t nid = Some s \<Longrightarrow>
    \<exists>k' ty. k = Suc k' \<and> nt_type t nid = Some ty \<and> rb_stmt_step (rb_exp k' t) (rb_stmt k' t) t nid ty = Some s"
  by (cases k) (auto split: bind_splits)

lemma rb_stmt_step_cases:
  assumes "rb_stmt_step E S t nid ty = Some s"
  obtains
    (Local) x r where "ty = ''LocalVariableWriteNode''" "nt_str t nid ''name'' = Some x"
      "rb_rhs E S t (nt_ref t nid ''value'') = Some r" "s = SLocal x r"
  | (Ivar) x r where "ty = ''InstanceVariableWriteNode''" "nt_str t nid ''name'' = Some x"
      "rb_rhs E S t (nt_ref t nid ''value'') = Some r" "s = SIvar (ivar_key x) r"
  | (Op) x op e where "ty = ''InstanceVariableOperatorWriteNode''" "nt_str t nid ''name'' = Some x"
      "nt_str t nid ''binary_operator'' = Some op" "op \<in> {''+'', ''-'', ''*''}"
      "E (nt_ref t nid ''value'') = Some e" "s = SOp (ivar_key x) op e"
  | (Ret0) "ty = ''ReturnNode''" "call_args t nid = []" "s = SRet0"
  | (Ret) a r where "ty = ''ReturnNode''" "call_args t nid = [a]" "rb_rhs E S t a = Some r" "s = SRet r" "has_args t nid"
  | (If) "ty = ''IfNode''" "rb_if E S t nid = Some s"
  | (Emit) a r where "ty = ''CallNode''" "nt_str t nid ''name'' = Some ''spnl_emit''" "call_args t nid = [a]"
      "rb_rhs E S t a = Some r" "s = SEmit r" "has_args t nid"
  | (Val) e where "E nid = Some e" "s = SVal e"
  using assms unfolding rb_stmt_step_def
  by (auto split: if_splits option.splits list.splits bind_splits prod.splits)

lemma rb_if_cases:
  assumes "rb_if E S t nid = Some s"
  obtains c ss where "E (nt_ref t nid ''predicate'') = Some c" "rb_seq S t (nt_ref t nid ''statements'') = Some ss"
    "nt_ref t nid ''subsequent'' < 0" "s = SIf c ss"
  | c ss fs where "E (nt_ref t nid ''predicate'') = Some c" "rb_seq S t (nt_ref t nid ''statements'') = Some ss"
    "nt_type t (nt_ref t nid ''subsequent'') = Some ''ElseNode''"
    "rb_seq S t (nt_ref t (nt_ref t nid ''subsequent'') ''statements'') = Some fs" "s = SIfElse c ss fs"
  | c ss f where "E (nt_ref t nid ''predicate'') = Some c" "rb_seq S t (nt_ref t nid ''statements'') = Some ss"
    "nt_type t (nt_ref t nid ''subsequent'') = Some ''IfNode''" "S (nt_ref t nid ''subsequent'') = Some f" "s = SIfElse c ss [f]"
  using assms unfolding rb_if_def Let_def by (auto split: if_splits option.splits prod.splits)

lemma pr_raw [simp]: "pr (CE_RAW t) = t"
  by (simp add: pr_def)

lemma value_of_simps [simp]: "value_of (Some e) = e" "value_of None = CE_RAW ''0''"
  by (simp_all add: value_of_def)

lemma indent_block: "cs_emit (CS_BLOCK (map CS_RAW ls)) (Suc 0) = Some (map cc_indent_each ls)"
proof -
  have "those (map (\<lambda>l. Some [cc_indent_each l]) ls) = Some (map (\<lambda>l. [cc_indent_each l]) ls)" by (induction ls) auto
  moreover have "concat (map (\<lambda>l. [cc_indent_each l]) ls) = map cc_indent_each ls" by (induction ls) auto
  ultimately show ?thesis by (simp add: comp_def cs_push_def)
qed

lemma indent_block_append:
  "cs_emit (CS_BLOCK (map CS_RAW as @ map CS_RAW bs)) (Suc 0) = Some (map cc_indent_each as @ map cc_indent_each bs)"
  using indent_block [of "as @ bs"] by (simp del: cs_emit.simps)

text \<open>A branch of an \<open>if\<close>.\<close>

lemma branch_lowered:
  assumes "S bid (g \<lparr> cg_lines := [] \<rparr>) = lowered_to (g \<lparr> cg_lines := [] \<rparr>) xs (is, v, c1)" "0 \<le> bid"
  shows "cc_branch_block S bid (tmp_name c) g =
    Inr (CS_BLOCK (map CS_RAW (concat (map ilines (is @ tmp_asg c v)))), g \<lparr> cg_ctr := c1, cg_ivars := reg (cg_ivars g) xs \<rparr>)"
  using assms by (cases v) (simp_all add: cc_branch_block_def lowered_to_def bindE_def tmp_asg_def)

lemma branch_empty: "bid < 0 \<Longrightarrow> cc_branch_block S bid (tmp_name c) g = Inr (CS_BLOCK (map CS_RAW (concat (map ilines ([] @ tmp_asg c None)))), g)"
  by (simp add: cc_branch_block_def tmp_asg_def)

definition branch_ok :: "bool \<Rightarrow> string list \<Rightarrow> stmt_lowerer \<Rightarrow> int \<Rightarrow> rst list \<Rightarrow> bool" where
  "branch_ok vd R S bid ss =
     (\<forall>g c. fits R (cg_ivars g) (concat (map st_ivars ss)) \<longrightarrow>
        cc_branch_block S bid (tmp_name c) g =
          (case lws vd R ss (cg_ctr g) of (is, v, c1) \<Rightarrow>
             Inr (CS_BLOCK (map CS_RAW (concat (map ilines (is @ tmp_asg c v)))),
                  g \<lparr> cg_ctr := c1, cg_ivars := reg (cg_ivars g) (concat (map st_ivars ss)) \<rparr>)))"

lemma branch_okI:
  assumes "0 \<le> bid"
    "\<And>g. fits R (cg_ivars g) (concat (map st_ivars ss)) \<Longrightarrow> S bid g = lowered_to g (concat (map st_ivars ss)) (lws vd R ss (cg_ctr g))"
  shows "branch_ok vd R S bid ss"
  unfolding branch_ok_def
proof (intro allI impI)
  fix g :: cg and c assume f: "fits R (cg_ivars g) (concat (map st_ivars ss))"
  obtain "is" v c1 where l: "lws vd R ss (cg_ctr g) = (is, v, c1)" by (cases "lws vd R ss (cg_ctr g)")
  show "cc_branch_block S bid (tmp_name c) g = (case lws vd R ss (cg_ctr g) of (is, v, c1) \<Rightarrow>
             Inr (CS_BLOCK (map CS_RAW (concat (map ilines (is @ tmp_asg c v)))),
                  g \<lparr> cg_ctr := c1, cg_ivars := reg (cg_ivars g) (concat (map st_ivars ss)) \<rparr>))"
    unfolding l prod.case
    by (rule branch_lowered) (use assms(2) [of "g \<lparr> cg_lines := [] \<rparr>"] f l assms(1) in simp_all)
qed

lemma branch_ok_empty: "bid < 0 \<Longrightarrow> branch_ok vd R S bid []"
  using branch_empty by (simp add: branch_ok_def)

lemmas cc_if_node_tmp = cc_if_node_def [folded tmp_name_def]

lemma if_lowered:
  assumes "exp_lowered R n u (nt_ref (un_ast u) nid ''predicate'') g e" "0 \<le> nt_ref (un_ast u) nid ''predicate''"
    "branch_ok vd R S (nt_ref (un_ast u) nid ''statements'') ss" "fits R (cg_ivars g) (st_ivars (SIf e ss))"
    "nt_ref (un_ast u) nid ''subsequent'' < 0"
  shows "cc_if_node (cc_build_expr n u) S u nid g = lowered_to g (st_ivars (SIf e ss)) (lw vd R (SIf e ss) (cg_ctr g))"
proof -
  obtain "is" v c1 where l: "lws vd R ss (Suc (cg_ctr g)) = (is, v, c1)" by (cases "lws vd R ss (Suc (cg_ctr g))")
  have b: "cc_branch_block S (nt_ref (un_ast u) nid ''statements'') (tmp_name (Suc (cg_ctr g))) g2 =
      Inr (CS_BLOCK (map CS_RAW (concat (map ilines (is @ tmp_asg (Suc (cg_ctr g)) v)))),
        g2 \<lparr> cg_ctr := c1, cg_ivars := reg (cg_ivars g2) (concat (map st_ivars ss)) \<rparr>)"
    if "cg_ctr g2 = Suc (cg_ctr g)" "cg_ivars g2 = reg (cg_ivars g) (exp_ivars e)" for g2
    using assms(3,4) that l by (simp add: branch_ok_def fits_append)
  obtain ce where ce: "cc_build_expr n u (nt_ref (un_ast u) nid ''predicate'') g = Inr (ce, g \<lparr> cg_ivars := reg (cg_ivars g) (exp_ivars e) \<rparr>)"
      "ce_print ce = Some (pr (ax R e))"
    using assms(1) by (auto simp: exp_lowered_def Let_def)
  show ?thesis
    using assms(2,5) ce l
    by (simp add: cc_if_node_tmp push_line_def b bindE_def Let_def indent_block_append lowered_to_def cs_push_def del: cs_emit.simps(2))
qed

lemma if_else_lowered:
  assumes "exp_lowered R n u (nt_ref (un_ast u) nid ''predicate'') g e" "0 \<le> nt_ref (un_ast u) nid ''predicate''"
    "branch_ok vd R S (nt_ref (un_ast u) nid ''statements'') ss" "fits R (cg_ivars g) (st_ivars (SIfElse e ss fs))"
    "branch_ok vd R S (nt_ref (un_ast u) nid ''subsequent'') fs" "0 \<le> nt_ref (un_ast u) nid ''subsequent''"
  shows "cc_if_node (cc_build_expr n u) S u nid g = lowered_to g (st_ivars (SIfElse e ss fs)) (lw vd R (SIfElse e ss fs) (cg_ctr g))"
proof -
  obtain "is" v c1 where l: "lws vd R ss (Suc (cg_ctr g)) = (is, v, c1)" by (cases "lws vd R ss (Suc (cg_ctr g))")
  obtain js w c2 where l2: "lws vd R fs c1 = (js, w, c2)" by (cases "lws vd R fs c1")
  have b: "cc_branch_block S (nt_ref (un_ast u) nid ''statements'') (tmp_name (Suc (cg_ctr g))) g2 =
      Inr (CS_BLOCK (map CS_RAW (concat (map ilines (is @ tmp_asg (Suc (cg_ctr g)) v)))),
        g2 \<lparr> cg_ctr := c1, cg_ivars := reg (cg_ivars g2) (concat (map st_ivars ss)) \<rparr>)"
    if "cg_ctr g2 = Suc (cg_ctr g)" "cg_ivars g2 = reg (cg_ivars g) (exp_ivars e)" for g2
    using assms(3,4) that l by (simp add: branch_ok_def fits_append)
  have b2: "cc_branch_block S (nt_ref (un_ast u) nid ''subsequent'') (tmp_name (Suc (cg_ctr g))) g2 =
      Inr (CS_BLOCK (map CS_RAW (concat (map ilines (js @ tmp_asg (Suc (cg_ctr g)) w)))),
        g2 \<lparr> cg_ctr := c2, cg_ivars := reg (cg_ivars g2) (concat (map st_ivars fs)) \<rparr>)"
    if "cg_ctr g2 = c1" "cg_ivars g2 = reg (reg (cg_ivars g) (exp_ivars e)) (concat (map st_ivars ss))" for g2
    using assms(4,5) that l2 by (simp add: branch_ok_def fits_append)
  obtain ce where ce: "cc_build_expr n u (nt_ref (un_ast u) nid ''predicate'') g = Inr (ce, g \<lparr> cg_ivars := reg (cg_ivars g) (exp_ivars e) \<rparr>)"
      "ce_print ce = Some (pr (ax R e))"
    using assms(1) by (auto simp: exp_lowered_def Let_def)
  show ?thesis
    using assms(2,6) ce l l2
    by (simp add: cc_if_node_tmp push_line_def b b2 bindE_def Let_def indent_block_append lowered_to_def cs_push_def del: cs_emit.simps(2))
qed

text \<open>Statements are lowered to their tree's statements, by induction on the depth of the tree.\<close>

definition stmts_lowered :: "nat \<Rightarrow> cunit \<Rightarrow> string list \<Rightarrow> bool" where
  "stmts_lowered k u R =
     (\<forall>nid s n g. rb_stmt k (un_ast u) nid = Some s \<longrightarrow> 10 * k \<le> n \<longrightarrow> fits R (cg_ivars g) (st_ivars s) \<longrightarrow>
        (void_method (un_me u) \<longrightarrow> \<not> returns s) \<longrightarrow>
        cc_lower_stmt n u nid g = lowered_to g (st_ivars s) (lw (void_method (un_me u)) R s (cg_ctr g)))"

definition lowered_exp :: "cg \<Rightarrow> string list \<Rightarrow> ist list \<times> CExpr option \<times> nat \<Rightarrow> (string \<times> cg) result" where
  "lowered_exp g xs r =
     (case r of (is, v, c) \<Rightarrow>
        Inr (pr (value_of v), g \<lparr> cg_ctr := c, cg_ivars := reg (cg_ivars g) xs, cg_lines := cg_lines g @ concat (map ilines is) \<rparr>))"

lemma rhs_lowered:
  assumes "\<not> cc_is_ebpf_method u ''ktime_ns''" "stmts_lowered k u R"
    "rb_rhs (rb_exp k (un_ast u)) (rb_stmt k (un_ast u)) (un_ast u) nid = Some r" "10 * k < n" "fits R (cg_ivars g) (st_ivars r)"
    "void_method (un_me u) \<Longrightarrow> \<not> returns r"
  shows "cc_lower_expr n u nid g = lowered_exp g (st_ivars r) (lw (void_method (un_me u)) R r (cg_ctr g))"
proof (cases "nt_type (un_ast u) nid = Some ''IfNode''")
  case True
  obtain m where m: "n = Suc m" using assms(4) by (cases n) auto
  have r: "rb_stmt k (un_ast u) nid = Some r" using assms(3) True by (simp add: rb_rhs_def)
  have "cc_lower_stmt m u nid g = lowered_to g (st_ivars r) (lw (void_method (un_me u)) R r (cg_ctr g))"
    using assms(2,4-6) r m by (simp add: stmts_lowered_def)
  then show ?thesis
    using True m by (cases "lw (void_method (un_me u)) R r (cg_ctr g)")
      (auto simp: lower_expr_step_def bindE_def lowered_to_def lowered_exp_def simp del: cc_lower_stmt.simps split: option.split)
next
  case False
  then obtain e where e: "rb_exp k (un_ast u) nid = Some e" "r = SVal e" using assms(3) by (auto simp: rb_rhs_def)
  then show ?thesis
    using exp_lowered [OF assms(1) e(1), of n R g] assms(4,5) by (simp add: exp_lowered_def Let_def lowered_exp_def)
qed

lemma rb_seq_cases:
  assumes "rb_seq S t nid = Some ss"
  obtains "nid < 0" "ss = []" | "0 \<le> nid" "nt_type t nid = Some ''StatementsNode''" "those (map S (nt_arr t nid ''body'')) = Some ss"
  using assms by (auto simp: rb_seq_def split: if_splits)

lemma those_member: "those xs = Some ys \<Longrightarrow> x \<in> set xs \<Longrightarrow> x = Some y \<Longrightarrow> y \<in> set ys"
  by (induction xs arbitrary: ys) (auto split: option.splits)

lemma rb_stmt_val: "rb_stmt k t i = Some (SVal e) \<Longrightarrow> \<exists>k'. rb_exp k' t i = Some e"
proof -
  assume "rb_stmt k t i = Some (SVal e)"
  then obtain k' ty where "rb_stmt_step (rb_exp k' t) (rb_stmt k' t) t i ty = Some (SVal e)" using rb_stmt_type by blast
  then show ?thesis by (cases rule: rb_stmt_step_cases) (auto elim!: rb_if_cases)
qed

lemma statements_lowered:
  assumes "stmts_lowered k u R" "10 * k \<le> n" "nt_type (un_ast u) nid = Some ''StatementsNode''"
    "those (map (rb_stmt k (un_ast u)) (nt_arr (un_ast u) nid ''body'')) = Some ss" "fits R (cg_ivars g) (concat (map st_ivars ss))"
    "void_method (un_me u) \<Longrightarrow> \<not> list_ex returns ss"
  shows "cc_lower_stmt (Suc n) u nid g = lowered_to g (concat (map st_ivars ss)) (lws (void_method (un_me u)) R ss (cg_ctr g))"
proof -
  have "lower_seq (cc_lower_stmt n u) (nt_arr (un_ast u) nid ''body'') g
      = lowered_to g (concat (map st_ivars ss)) (lws (void_method (un_me u)) R ss (cg_ctr g))"
  proof (rule seq_lowered [OF assms(4,5)])
    fix i s and g :: cg
    assume a: "rb_stmt k (un_ast u) i = Some s" "s \<in> set ss" "fits R (cg_ivars g) (st_ivars s)"
    then have "void_method (un_me u) \<longrightarrow> \<not> returns s" using assms(6) by (auto simp: list_ex_iff)
    then show "cc_lower_stmt n u i g = lowered_to g (st_ivars s) (lw (void_method (un_me u)) R s (cg_ctr g))"
      using assms(1,2) a(1,3) unfolding stmts_lowered_def by blast
  next
    show "\<And>i e. rb_stmt k (un_ast u) i = Some (SVal e) \<Longrightarrow> ops_ok e" using rb_stmt_val rb_exp_ops by blast
  qed
  then show ?thesis using assms(3) by (simp add: lower_stmt_step_def)
qed

lemma seq_branch_ok:
  assumes "stmts_lowered k u R" "10 * k < n" "rb_seq (rb_stmt k (un_ast u)) (un_ast u) nid = Some ss"
    "void_method (un_me u) \<Longrightarrow> \<not> list_ex returns ss"
  shows "branch_ok (void_method (un_me u)) R (cc_lower_stmt n u) nid ss"
  using assms(3)
proof (cases rule: rb_seq_cases)
  case 1
  then show ?thesis using branch_ok_empty by simp
next
  case 2
  obtain m where m: "n = Suc m" "10 * k \<le> m" using assms(2) by (cases n) auto
  show ?thesis
    using statements_lowered [OF assms(1) m(2) 2(2,3) _ assms(4)] 2(1) m(1) by (intro branch_okI) (simp_all del: cc_lower_stmt.simps)
qed

lemma else_branch_ok:
  assumes "stmts_lowered k u R" "10 * k + 1 < n" "rb_seq (rb_stmt k (un_ast u)) (un_ast u) (nt_ref (un_ast u) nid ''statements'') = Some ss"
    "void_method (un_me u) \<Longrightarrow> \<not> list_ex returns ss" "nt_type (un_ast u) nid = Some ''ElseNode''"
  shows "branch_ok (void_method (un_me u)) R (cc_lower_stmt n u) nid ss"
proof -
  obtain m where m: "n = Suc (Suc m)" "10 * k \<le> m" using assms(2) le_Suc_ex [of 2 n] by auto
  note nn = nt_type_nonneg [OF assms(5)]
  from assms(3) show ?thesis
  proof (cases rule: rb_seq_cases)
    case 1
    then show ?thesis
      using assms(5) nn m(1) by (intro branch_okI) (simp_all add: lower_stmt_step_def lowered_to_def)
  next
    case 2
    have "cc_lower_stmt (Suc (Suc m)) u nid g = cc_lower_stmt (Suc m) u (nt_ref (un_ast u) nid ''statements'') g" for g
      using assms(5) 2(1) by (subst cc_lower_stmt.simps) (simp add: lower_stmt_step_def del: cc_lower_stmt.simps)
    then show ?thesis
      using statements_lowered [OF assms(1) m(2) 2(2,3) _ assms(4)] nn m(1)
      by (intro branch_okI) (simp_all del: cc_lower_stmt.simps)
  qed
qed

lemma stmts_lowered_0: "stmts_lowered 0 u R"
  by (simp add: stmts_lowered_def)

lemma pr_ivar: "pr (iv_lv R x) = ivar_lvalue (slot R x)"
  by (simp add: pr_def iv_lv_print)

lemma iv_lv_prec: "ce_prec (iv_lv R x) = Some CE_PREC_PRIMARY"
  by (simp add: iv_lv_def)

text \<open>Every value the lowering of a tree gives can be printed.\<close>

fun st_ops :: "rst \<Rightarrow> bool" where
  "st_ops (SVal e) = ops_ok e"
| "st_ops (SLocal x r) = st_ops r"
| "st_ops (SIvar x r) = st_ops r"
| "st_ops (SOp x op e) = (op \<in> {''+'', ''-'', ''*''} \<and> ops_ok e)"
| "st_ops SRet0 = True"
| "st_ops (SRet r) = st_ops r"
| "st_ops (SEmit r) = st_ops r"
| "st_ops (SIf c t) = (ops_ok c \<and> list_all st_ops t)"
| "st_ops (SIfElse c t f) = (ops_ok c \<and> list_all st_ops t \<and> list_all st_ops f)"

lemma rb_rhs_ops:
  assumes "rb_rhs (rb_exp k t) (rb_stmt k t) t nid = Some r" "\<And>nid s. rb_stmt k t nid = Some s \<Longrightarrow> st_ops s"
  shows "st_ops r"
  using assms rb_exp_ops by (auto simp: rb_rhs_def split: if_splits)

lemma rb_seq_ops:
  assumes "rb_seq (rb_stmt k t) t nid = Some ss" "\<And>nid s. rb_stmt k t nid = Some s \<Longrightarrow> st_ops s"
  shows "list_all st_ops ss"
proof -
  have "those (map S ids) = Some ss \<Longrightarrow> (\<And>i s. S i = Some s \<Longrightarrow> st_ops s) \<Longrightarrow> list_all st_ops ss" for S :: "int \<Rightarrow> rst option" and ids
    by (induction ids arbitrary: ss) (auto split: option.splits)
  then show ?thesis using assms by (cases rule: rb_seq_cases [OF assms(1)]) auto
qed

lemma rb_stmt_ops: "rb_stmt k t nid = Some s \<Longrightarrow> st_ops s"
proof (induction k arbitrary: nid s)
  case (Suc k)
  obtain ty where "rb_stmt_step (rb_exp k t) (rb_stmt k t) t nid ty = Some s" using rb_stmt_type [OF Suc.prems] by auto
  then show ?case
  proof (cases rule: rb_stmt_step_cases)
    case If
    note sq = rb_seq_ops [OF _ Suc.IH]
    from If(2) show ?thesis
      by (cases rule: rb_if_cases) (simp_all add: rb_exp_ops sq Suc.IH)
  next
    case Op
    then show ?thesis using rb_exp_ops by simp
  next
    case Val
    then show ?thesis using rb_exp_ops by simp
  qed (simp_all add: rb_rhs_ops [OF _ Suc.IH])
qed simp

lemma lw_value_prints: "lw vd R s c = (is, Some e, c') \<Longrightarrow> st_ops s \<Longrightarrow> \<exists>q. ce_print e = Some q"
  using ax_prints by (cases s) (auto simp: Let_def iv_lv_print split: prod.splits)

lemma pr_paren: "ce_print e = Some q \<Longrightarrow> pr (CE_PAREN e) = ''('' @ pr e @ '')''"
  by (simp add: pr_def)

lemma pr_emit: "ce_print e = Some q \<Longrightarrow> pr (CE_CALL ''amp_emit'' [e]) = ''amp_emit('' @ pr e @ '')''"
  by (simp add: pr_def)

lemma value_prints:
  assumes "lw vd R r c = (is, v, c')" "st_ops r"
  obtains q where "ce_print (value_of v) = Some q"
  using lw_value_prints [of vd R r c "is" _ c'] assms by (cases v) auto

lemma pr_rmw:
  assumes "op \<in> {''+'', ''-'', ''*''}" "ce_print e = Some q"
  shows "pr (CE_BINOP op (iv_lv R x) (CE_PAREN e)) = ivar_lvalue (slot R x) @ '' '' @ op @ '' ('' @ pr e @ '')''"
proof -
  from assms(1) consider "op = ''+''" | "op = ''-''" | "op = ''*''" by blast
  then show ?thesis
    using assms(2) by cases (simp_all add: pr_def iv_lv_print iv_lv_prec ce_binop_prec_def ce_child_def CE_PREC_PRIMARY_def)
qed

lemma lowered_exp_bind:
  "bindE (lowered_exp g xs (is, v, c)) f =
     f (pr (value_of v), g \<lparr> cg_ctr := c, cg_ivars := reg (cg_ivars g) xs, cg_lines := cg_lines g @ concat (map ilines is) \<rparr>)"
  by (simp add: lowered_exp_def bindE_def)

lemma rb_rhs_nonneg: "rb_rhs (rb_exp k t) S t nid = Some r \<Longrightarrow> 0 \<le> nid"
  using rb_exp_nonneg nt_type_nonneg by (auto simp: rb_rhs_def split: if_splits)

lemma stmts_lowered_Suc:
  assumes "\<not> cc_is_ebpf_method u ''ktime_ns''" "stmts_lowered k u R"
  shows "stmts_lowered (Suc k) u R"
  unfolding stmts_lowered_def
proof (intro allI impI)
  let ?t = "un_ast u" and ?vd = "void_method (un_me u)"
  fix nid s n and g :: cg
  assume a: "rb_stmt (Suc k) ?t nid = Some s" "10 * Suc k \<le> n" "fits R (cg_ivars g) (st_ivars s)" "?vd \<longrightarrow> \<not> returns s"
  obtain ty where ty: "nt_type ?t nid = Some ty" "rb_stmt_step (rb_exp k ?t) (rb_stmt k ?t) ?t nid ty = Some s"
    using rb_stmt_type [OF a(1)] by auto
  obtain m where m: "n = Suc m" "10 * k + 2 < m" using a(2) by (cases n) auto
  have m': "10 * k < m" "10 * k + 1 < m" "10 * k \<le> m" using m(2) by simp_all
  note ops = rb_stmt_ops [OF a(1)]
  note rhs = rhs_lowered [OF assms _ m'(1)]
  from ty(2) show "cc_lower_stmt n u nid g = lowered_to g (st_ivars s) (lw ?vd R s (cg_ctr g))"
  proof (cases rule: rb_stmt_step_cases)
    case (Local x r)
    obtain "is" v c where l: "lw ?vd R r (cg_ctr g) = (is, v, c)" by (cases "lw ?vd R r (cg_ctr g)")
    have "cc_lower_expr m u (nt_ref ?t nid ''value'') g = lowered_exp g (st_ivars r) (is, v, c)"
      using rhs [OF Local(3), of g] a(3,4) Local(4) l by simp
    then show ?thesis
      using m(1) ty(1) Local rb_rhs_nonneg [OF Local(3)] l
      by (simp add: lower_stmt_step_def lowered_exp_bind lowered_to_def push_line_def)
  next
    case (Ivar x r)
    obtain "is" v c where l: "lw ?vd R r (cg_ctr g) = (is, v, c)" by (cases "lw ?vd R r (cg_ctr g)")
    obtain q where q: "ce_print (value_of v) = Some q" using value_prints [OF l] ops Ivar(4) by auto
    have f: "fits R (cg_ivars g) (st_ivars r)" "fits R (reg (cg_ivars g) (st_ivars r)) [ivar_key x]"
      using a(3) Ivar(4) by (simp_all add: fits_append)
    have "cc_lower_expr m u (nt_ref ?t nid ''value'') g = lowered_exp g (st_ivars r) (is, v, c)"
      using rhs [OF Ivar(3), of g] f(1) a(4) Ivar(4) l by simp
    moreover have "cc_ivar_map x g' = Inr (ivar_lvalue (slot R (ivar_key x)), g' \<lparr> cg_ivars := add_name (ivar_key x) (cg_ivars g') \<rparr>)"
      if "cg_ivars g' = reg (cg_ivars g) (st_ivars r)" for g'
      using f(2) that by (intro cc_ivar_map_reg) (simp_all add: fits_def)
    ultimately show ?thesis
      using m(1) ty(1) Ivar rb_rhs_nonneg [OF Ivar(3)] l pr_paren [OF q]
      by (simp add: lower_stmt_step_def lowered_exp_bind lowered_to_def push_line_def cc_emit_ivar_write_def bindE_def [of "Inr _"] pr_ivar)
  next
    case (Op x op e)
    obtain q where q: "ce_print (ax R e) = Some q" using ax_prints ops Op(6) by fastforce
    have f: "fits R (cg_ivars g) (exp_ivars e)" "fits R (reg (cg_ivars g) (exp_ivars e)) [ivar_key x]"
      using a(3) Op(6) by (simp_all add: fits_append)
    have "cc_lower_expr m u (nt_ref ?t nid ''value'') g = Inr (pr (ax R e), g \<lparr> cg_ivars := reg (cg_ivars g) (exp_ivars e) \<rparr>)"
      using exp_lowered [OF assms(1) Op(5) _ f(1), of m] m'(3) by (simp add: exp_lowered_def Let_def)
    moreover have "cc_ivar_map x g' = Inr (ivar_lvalue (slot R (ivar_key x)), g' \<lparr> cg_ivars := add_name (ivar_key x) (cg_ivars g') \<rparr>)"
      if "cg_ivars g' = reg (cg_ivars g) (exp_ivars e)" for g'
      using f(2) that by (intro cc_ivar_map_reg) (simp_all add: fits_def)
    ultimately show ?thesis
      using m(1) ty(1) Op pr_rmw [OF Op(4) q]
      by (simp add: lower_stmt_step_def lowered_to_def push_line_def cc_emit_ivar_rmw_def bindE_def [of "Inr _"] pr_ivar)
  next
    case Ret0
    then show ?thesis using m(1) ty(1) by (simp add: lower_stmt_step_def lowered_to_def push_line_def)
  next
    case (Ret b r)
    obtain "is" v c where l: "lw ?vd R r (cg_ctr g) = (is, v, c)" by (cases "lw ?vd R r (cg_ctr g)")
    have nv: "\<not> ?vd" using a(4) Ret(4) by auto
    have "cc_lower_expr m u b g = lowered_exp g (st_ivars r) (is, v, c)"
      using rhs [OF Ret(3), of g] a(3) nv Ret(4) l by simp
    then show ?thesis
      using m(1) ty(1) Ret nv l by (simp add: lower_stmt_step_def lowered_exp_bind lowered_to_def push_line_def)
  next
    case (Emit b r)
    obtain "is" v c where l: "lw ?vd R r (cg_ctr g) = (is, v, c)" by (cases "lw ?vd R r (cg_ctr g)")
    obtain q where q: "ce_print (value_of v) = Some q" using value_prints [OF l] ops Emit(5) by auto
    have "cc_lower_expr m u b g = lowered_exp g (st_ivars r) (is, v, c)"
      using rhs [OF Emit(4), of g] a(3,4) Emit(5) l by simp
    then show ?thesis
      using m(1) ty(1) Emit l pr_emit [OF q] by (simp add: lower_stmt_step_def lowered_exp_bind lowered_to_def push_line_def)
  next
    case (Val e)
    have "cc_lower_expr m u nid g = Inr (pr (ax R e), g \<lparr> cg_ivars := reg (cg_ivars g) (exp_ivars e) \<rparr>)"
      using exp_lowered [OF assms(1) Val(1), of m R g] m'(3) a(3) Val(2) by (simp add: exp_lowered_def Let_def)
    then show ?thesis
      using stmt_of_exp [OF Val(1)] m(1) Val(2) by (simp add: bindE_def lowered_to_def del: cc_lower_stmt.simps)
  next
    case If
    have i: "cc_lower_stmt n u nid g = cc_if_node (cc_build_expr m u) (cc_lower_stmt m u) u nid g"
      using m(1) ty(1) If(1) by (simp add: lower_stmt_step_def)
    note ex = exp_lowered [OF assms(1), of k _ _ m R g]
    note sb = seq_branch_ok [OF assms(2) m'(1)]
    from If(2) show ?thesis
    proof (cases rule: rb_if_cases)
      case (1 c ss)
      show ?thesis
        unfolding i 1(4) using 1 a(3,4) m'(3) rb_exp_nonneg [OF 1(1)]
        by (intro if_lowered ex sb) (simp_all add: fits_append)
    next
      case (2 c ss fs)
      note eb = else_branch_ok [OF assms(2) m'(2) 2(4) _ 2(3)]
      show ?thesis
        unfolding i 2(5) using 2 a(3,4) m'(3) rb_exp_nonneg [OF 2(1)] nt_type_nonneg [OF 2(3)]
        by (intro if_else_lowered ex sb eb) (simp_all add: fits_append)
    next
      case (3 c ss f)
      have "branch_ok ?vd R (cc_lower_stmt m u) (nt_ref ?t nid ''subsequent'') [f]"
        using assms(2) 3 a(4) m'(3) nt_type_nonneg [OF 3(3)] by (intro branch_okI) (auto simp: stmts_lowered_def split: prod.splits)
      then show ?thesis
        unfolding i 3(5) using 3 a(3,4) m'(3) rb_exp_nonneg [OF 3(1)] nt_type_nonneg [OF 3(3)]
        by (intro if_else_lowered ex sb [OF 3(2)]) (simp_all add: fits_append)
    qed
  qed
qed

lemma all_stmts_lowered: "\<not> cc_is_ebpf_method u ''ktime_ns'' \<Longrightarrow> stmts_lowered k u R"
  by (induction k) (simp_all add: stmts_lowered_0 stmts_lowered_Suc)

lemma body_lowered:
  assumes "\<not> cc_is_ebpf_method u ''ktime_ns''" "rb_body k (un_ast u) nid = Some b" "10 * k < n"
    "fits R (cg_ivars g) (concat (map st_ivars b))" "void_method (un_me u) \<Longrightarrow> \<not> list_ex returns b"
  shows "cc_lower_stmt n u nid g = lowered_to g (concat (map st_ivars b)) (lws (void_method (un_me u)) R b (cg_ctr g))"
proof -
  obtain m where m: "n = Suc m" "10 * k \<le> m" using assms(3) by (cases n) auto
  have t: "nt_type (un_ast u) nid = Some ''StatementsNode''" "those (map (rb_stmt k (un_ast u)) (nt_arr (un_ast u) nid ''body'')) = Some b"
    using assms(2) nt_type_nonneg [of "un_ast u" nid] by (auto simp: rb_body_def rb_seq_def split: if_splits)
  show ?thesis unfolding m(1) by (rule statements_lowered [OF all_stmts_lowered m(2) t assms(4,5)]) (fact assms(1))
qed

end
