(* ===== verification/Cc_Amp_Locals.thy ===== *)
theory Cc_Amp_Locals
  imports Cc_Amp_Tree
begin

text \<open>
  The walk over the node table that collects locals: the declarations that the generator puts at the head
  of a function cover the locals of its tree.
\<close>

subsection \<open>Declared locals\<close>

fun st_writes :: "rst \<Rightarrow> string list" where
  "st_writes (SLocal x r) = x # st_writes r"
| "st_writes (SIvar x r) = st_writes r"
| "st_writes (SRet r) = st_writes r"
| "st_writes (SEmit r) = st_writes r"
| "st_writes (SIf c t) = concat (map st_writes t)"
| "st_writes (SIfElse c t f) = concat (map st_writes t) @ concat (map st_writes f)"
| "st_writes _ = []"

text \<open>The walk that collects locals only adds names, and visits what a visited node refers to.\<close>

lemma bindE_Inr: "bindE r f = Inr y \<longleftrightarrow> (\<exists>x. r = Inr x \<and> f x = Inr y)"
  by (cases r) (simp_all add: bindE_def)

definition adding :: "('a \<Rightarrow> string list \<Rightarrow> string list result) \<Rightarrow> bool" where
  "adding f = (\<forall>x s s'. f x s = Inr s' \<longrightarrow> set s \<subseteq> set s')"

lemma foldE_mono: "adding f \<Longrightarrow> foldE f xs s = Inr s' \<Longrightarrow> set s \<subseteq> set s'"
proof (induction xs arbitrary: s)
  case (Cons x xs)
  then obtain s1 where "f x s = Inr s1" "foldE f xs s1 = Inr s'" by (auto simp: bindE_Inr)
  then show ?case using Cons unfolding adding_def by blast
qed simp

lemma foldE_member: "adding f \<Longrightarrow> foldE f xs s = Inr s' \<Longrightarrow> x \<in> set xs \<Longrightarrow> \<exists>s0 s1. f x s0 = Inr s1 \<and> set s1 \<subseteq> set s'"
proof (induction xs arbitrary: s)
  case (Cons y xs)
  then obtain s1 where s1: "f y s = Inr s1" "foldE f xs s1 = Inr s'" by (auto simp: bindE_Inr)
  show ?case
  proof (cases "x = y")
    case True
    then show ?thesis using s1 foldE_mono [OF Cons.prems(1) s1(2)] by blast
  next
    case False
    then show ?thesis using Cons.IH [OF Cons.prems(1) s1(2)] Cons.prems(3) by simp
  qed
qed simp

lemma collect_adding: "adding (cc_collect_locals n t)"
proof (induction n)
  case (Suc n)
  have a: "set names \<subseteq> set (add_name x names)" for x names by (auto simp: add_name_def)
  have "set names \<subseteq> set names'" if c: "cc_collect_locals (Suc n) t nid names = Inr names'" for nid names names'
  proof (cases "nt_type t nid")
    case (Some ty)
    show ?thesis
    proof (cases "nested_scope ty")
      case False
      then obtain names0 where "foldE (cc_collect_locals n t) (node_succs t nid) names0 = Inr names'" "set names \<subseteq> set names0"
        using c Some a by (auto split: option.splits bool.splits)
      then show ?thesis using foldE_mono [OF Suc.IH] by blast
    qed (use c Some in simp)
  qed (use c in simp)
  then show ?case by (simp add: adding_def del: cc_collect_locals.simps)
qed (simp add: adding_def)

definition collected :: "AST \<Rightarrow> int \<Rightarrow> string set \<Rightarrow> bool" where
  "collected t nid N = (\<exists>n names names'. cc_collect_locals n t nid names = Inr names' \<and> set names' \<subseteq> N)"

lemma collected_step:
  assumes "collected t nid N" "nt_type t nid = Some ty" "\<not> nested_scope ty"
  shows "r \<in> set (node_succs t nid) \<Longrightarrow> collected t r N"
    "ty = ''LocalVariableWriteNode'' \<Longrightarrow> nt_str t nid ''name'' = Some x \<Longrightarrow> cc_safe_dup x \<in> N"
proof -
  obtain n names names' where c: "cc_collect_locals n t nid names = Inr names'" "set names' \<subseteq> N"
    using assms(1) by (auto simp: collected_def)
  then obtain m where m: "n = Suc m" by (cases n) auto
  obtain names0 where f: "foldE (cc_collect_locals m t) (node_succs t nid) names0 = Inr names'"
    "ty = ''LocalVariableWriteNode'' \<Longrightarrow> nt_str t nid ''name'' = Some x \<Longrightarrow> cc_safe_dup x \<in> set names0"
    using c(1) m assms(2,3) by (auto simp: add_name_def split: option.splits bool.splits)
  show "r \<in> set (node_succs t nid) \<Longrightarrow> collected t r N"
    using foldE_member [OF collect_adding f(1)] c(2) unfolding collected_def by (meson subset_trans)
  show "ty = ''LocalVariableWriteNode'' \<Longrightarrow> nt_str t nid ''name'' = Some x \<Longrightarrow> cc_safe_dup x \<in> N"
    using f(2) foldE_mono [OF collect_adding f(1)] c(2) by blast
qed

lemma ref_succ: "0 \<le> nt_ref t nid key \<Longrightarrow> nt_ref t nid key \<in> set (node_succs t nid)"
  by (force simp: nt_ref_def node_succs_def dest: map_of_SomeD split: option.splits)

lemma arr_succ: 
  assumes "i \<in> set (nt_arr t nid key)"
  shows "i \<in> set (node_succs t nid)"
proof -
  obtain n ids where n: "node_at t nid = Some n" "map_of (nd_a n) key = Some ids" "i \<in> set ids"
    using assms unfolding nt_arr_def by (cases "node_at t nid"; cases "map_of (nd_a (the (node_at t nid))) key") auto
  then have "(key, ids) \<in> set (nd_a n)" by (simp add: map_of_SomeD)
  then show ?thesis using n by (force simp: node_succs_def)
qed

text \<open>Every local that the tree assigns is declared.\<close>

lemma collected_arg:
  assumes "collected t nid N" "nt_type t nid = Some ty" "\<not> nested_scope ty" "has_args t nid"
    "a \<in> set (call_args t nid)"
  shows "collected t a N"
proof -
  have n: "0 \<le> nt_ref t nid ''arguments''" by (rule nt_type_nonneg [OF assms(4) [unfolded has_args_def]])
  then have "collected t (nt_ref t nid ''arguments'') N" by (intro collected_step(1) [OF assms(1-3)] ref_succ)
  then show ?thesis
    by (rule collected_step(1) [OF _ assms(4) [unfolded has_args_def]]) (use n assms(5) arr_succ in \<open>auto simp: nested_scope_def call_args_def\<close>)
qed

lemma collected_rhs:
  assumes "rb_rhs (rb_exp k t) (rb_stmt k t) t nid = Some r" "collected t nid N"
    "\<And>nid s. rb_stmt k t nid = Some s \<Longrightarrow> collected t nid N \<Longrightarrow> cc_safe_dup ` set (st_writes s) \<subseteq> N"
  shows "cc_safe_dup ` set (st_writes r) \<subseteq> N"
  using assms by (auto simp: rb_rhs_def split: if_splits)

lemma collected_seq:
  assumes "rb_seq (rb_stmt k t) t nid = Some ss" "0 \<le> nid \<Longrightarrow> collected t nid N"
    "\<And>nid s. rb_stmt k t nid = Some s \<Longrightarrow> collected t nid N \<Longrightarrow> cc_safe_dup ` set (st_writes s) \<subseteq> N"
  shows "cc_safe_dup ` set (concat (map st_writes ss)) \<subseteq> N"
  using assms(1)
proof (cases rule: rb_seq_cases)
  case 2
  have c: "collected t i N" if "i \<in> set (nt_arr t nid ''body'')" for i
    by (rule collected_step(1) [OF assms(2) [OF 2(1)] 2(2) _ arr_succ [OF that]]) (simp add: nested_scope_def)
  have "those (map (rb_stmt k t) ids) = Some ss \<Longrightarrow> (\<And>i. i \<in> set ids \<Longrightarrow> collected t i N) \<Longrightarrow> cc_safe_dup ` set (concat (map st_writes ss)) \<subseteq> N" for ids
  proof (induction ids arbitrary: ss)
    case (Cons i ids)
    then obtain s ss' where "rb_stmt k t i = Some s" "those (map (rb_stmt k t) ids) = Some ss'" "ss = s # ss'" by (auto split: option.splits)
    then show ?case using Cons.IH [of ss'] Cons.prems(2) assms(3) [of i s] by (simp add: image_Un)
  qed simp
  then show ?thesis using 2(3) c by blast
qed simp

lemma collected_stmt: "rb_stmt k t nid = Some s \<Longrightarrow> collected t nid N \<Longrightarrow> cc_safe_dup ` set (st_writes s) \<subseteq> N"
proof (induction k arbitrary: nid s)
  case (Suc k)
  obtain ty where ty: "nt_type t nid = Some ty" "rb_stmt_step (rb_exp k t) (rb_stmt k t) t nid ty = Some s"
    using rb_stmt_type [OF Suc.prems(1)] by auto
  have ref: "collected t (nt_ref t nid key) N" if "0 \<le> nt_ref t nid key" "\<not> nested_scope ty" for key
    by (rule collected_step(1) [OF Suc.prems(2) ty(1) that(2) ref_succ [OF that(1)]])
  note rhs = collected_rhs [OF _ _ Suc.IH]
  from ty(2) show ?case
  proof (cases rule: rb_stmt_step_cases)
    case (Local x r)
    have ns: "\<not> nested_scope ty" using Local(1) by (simp add: nested_scope_def)
    show ?thesis
      using rhs [OF Local(3) ref [OF rb_rhs_nonneg [OF Local(3)] ns]] collected_step(2) [OF Suc.prems(2) ty(1) ns Local(1,2)] Local(4) by simp
  next
    case (Ivar x r)
    have ns: "\<not> nested_scope ty" using Ivar(1) by (simp add: nested_scope_def)
    show ?thesis using rhs [OF Ivar(3) ref [OF rb_rhs_nonneg [OF Ivar(3)] ns]] Ivar(4) by simp
  next
    case (Ret a r)
    have ns: "\<not> nested_scope ty" using Ret(1) by (simp add: nested_scope_def)
    show ?thesis using rhs [OF Ret(3) collected_arg [OF Suc.prems(2) ty(1) ns Ret(5)]] Ret(2,4) by simp
  next
    case (Emit a r)
    have ns: "\<not> nested_scope ty" using Emit(1) by (simp add: nested_scope_def)
    show ?thesis using rhs [OF Emit(4) collected_arg [OF Suc.prems(2) ty(1) ns Emit(6)]] Emit(3,5) by simp
  next
    case If
    have ns: "\<not> nested_scope ty" using If(1) by (simp add: nested_scope_def)
    note sq = collected_seq [OF _ _ Suc.IH]
    note th = sq [OF _ ref [OF _ ns]]
    from If(2) show ?thesis
    proof (cases rule: rb_if_cases)
      case (1 c ss)
      then show ?thesis using th [OF 1(2)] by simp
    next
      case (2 c ss fs)
      have e: "collected t (nt_ref t nid ''subsequent'') N" by (rule ref [OF nt_type_nonneg [OF 2(3)] ns])
      have "collected t (nt_ref t (nt_ref t nid ''subsequent'') ''statements'') N" if "0 \<le> nt_ref t (nt_ref t nid ''subsequent'') ''statements''"
        by (rule collected_step(1) [OF e 2(3) _ ref_succ [OF that]]) (simp add: nested_scope_def)
      then show ?thesis using th [OF 2(2)] sq [OF 2(4)] 2(5) by (simp add: image_Un)
    next
      case (3 c ss f)
      have "collected t (nt_ref t nid ''subsequent'') N" by (rule ref [OF nt_type_nonneg [OF 3(3)] ns])
      then show ?thesis using th [OF 3(2)] Suc.IH [OF 3(4)] 3(5) by (simp add: image_Un)
    qed
  qed simp_all
qed simp

lemma collected_body:
  assumes "rb_body k t nid = Some b" "cc_collect_locals n t nid names = Inr names'"
  shows "cc_safe_dup ` set (concat (map st_writes b)) \<subseteq> set names'"
proof (rule collected_seq [OF _ _ collected_stmt])
  show "rb_seq (rb_stmt k t) t nid = Some b" using assms(1) by (auto simp: rb_body_def split: if_splits)
  show "collected t nid (set names')" using assms(2) by (auto simp: collected_def)
qed

end
