(* ===== verification/Cc_Amp_Parse.thy ===== *)
theory Cc_Amp_Parse
  imports Cc_Amp_Locals
begin

text \<open>
  The text of lowered statements, read with the C parser, is the statements they stand for.
\<close>

subsection \<open>Tokens of lines\<close>

lemma c_lex_append: "stops t \<Longrightarrow> c_lex (s @ t) = c_lex s @ c_lex t"
  using lexes_self [of s] by (simp add: lexes_def)

lemma c_lex_join: "c_lex (join_with [CHR 0x0A] ls) = concat (map c_lex ls)"
  by (induction "[CHR 0x0A]" ls rule: join_with.induct) (simp_all add: c_lex_append c_lex_space)

lemma join_c_split: "join_with [sep] (c_split sep s) = s"
proof (induction s)
  case (Cons c s)
  have "c_split sep s \<noteq> []" by (cases s) (auto split: list.splits)
  then obtain w ws where "c_split sep s = w # ws" by (cases "c_split sep s") auto
  then show ?case using Cons by (cases ws) auto
qed simp

lemma c_lex_indent: "c_lex (cc_indent_each s) = c_lex s"
proof -
  have "c_lex (''    '' @ l) = c_lex l" for l by (simp add: c_lex_space)
  then have "c_lex (cc_indent_each s) = concat (map c_lex (c_split CHR 0x0A s))"
    by (simp add: cc_indent_each_def c_lex_join comp_def)
  also have "\<dots> = c_lex (join_with [CHR 0x0A] (c_split CHR 0x0A s))" by (simp add: c_lex_join)
  finally show ?thesis by (simp add: join_c_split)
qed

lemma c_lex_print_lines: "c_lex (print_lines ls) = concat (map c_lex ls)"
  by (induction ls) (simp_all add: print_lines_def c_lex_append c_lex_space)

lemma lex_indented: "concat (map c_lex (map cc_indent_each ls)) = concat (map c_lex ls)"
  by (simp add: comp_def c_lex_indent)

subsection \<open>Statements\<close>

fun icst :: "ist \<Rightarrow> cstmt" where
  "icst (IDecl x) = CDecl x (XNum ''0'')"
| "icst (IAsg l e) = CAsg (ce_tree l) (ce_tree e)"
| "icst (IRet e) = CRet (map_option ce_tree e)"
| "icst (IExp e) = CExp (ce_tree e)"
| "icst (IIf c t) = CIf (ce_tree c) (map icst t)"
| "icst (IIfElse c t f) = CIfElse (ce_tree c) (map icst t) (map icst f)"

definition starts_stmt :: "CExpr \<Rightarrow> bool" where
  "starts_stmt e = (\<forall>x \<in> {''return'', ''if'', ''else'', ''__s64''}. take 1 (c_lex (pr e)) \<noteq> [TId x])"

fun ist_ok :: "ist \<Rightarrow> bool" where
  "ist_ok (IDecl x) = c_word x"
| "ist_ok (IAsg l e) = (ce_ok l \<and> ce_ok e \<and> starts_stmt l)"
| "ist_ok (IRet e) = (case e of None \<Rightarrow> True | Some e \<Rightarrow> ce_ok e)"
| "ist_ok (IExp e) = (ce_ok e \<and> starts_stmt e)"
| "ist_ok (IIf c t) = (ce_ok c \<and> list_all ist_ok t)"
| "ist_ok (IIfElse c t f) = (ce_ok c \<and> list_all ist_ok t \<and> list_all ist_ok f)"

lemma ok_pr: "ce_ok e \<Longrightarrow> ce_print e = Some (pr e)"
  using ce_print_reads [of e] by (auto simp: ce_reads_def pr_def)

text \<open>An expression before a token that ends it.\<close>

lemma ok_reads:
  assumes "ce_ok e"
  shows "plain_start (c_lex (pr e))" "reads_at 0 (c_lex (pr e)) (ce_tree e)"
proof -
  obtain s where "ce_reads e s" using ce_print_reads [OF assms] by blast
  then have "reads (pr e) (ce_tree e) (if is_negative e then 11 else ce_level e)" using ok_pr [OF assms] by (auto simp: ce_reads_def)
  then obtain ts where ts: "lexes (pr e) ts" "plain_start ts" "reads_at (if is_negative e then 11 else ce_level e) ts (ce_tree e)"
    by (auto simp: reads_def)
  then show "plain_start (c_lex (pr e))" "reads_at 0 (c_lex (pr e)) (ce_tree e)"
    using lexesD [OF ts(1)] reads_at_mono [OF ts(3), of 0] by simp_all
qed

lemma parse_before:
  assumes "ce_ok e" "p \<in> {'';'', ''='', '')''}"
  shows "cparse (PBin 0) (c_lex (pr e) @ TOp p # r) = Some (ce_tree e, TOp p # r)"
proof -
  have "nopost (TOp p # r)" using assms(2) by (auto simp: nopost_def)
  moreover have "loose 0 (TOp p # r)" using assms(2) by (auto simp: loose_def)
  ultimately have "cparse (PBin 0) (c_lex (pr e) @ TOp p # r) = cparse (PLoop 0 (ce_tree e)) (TOp p # r)"
    using ok_reads(2) [OF assms(1)] by (simp add: reads_at_def)
  also have "\<dots> = Some (ce_tree e, TOp p # r)" using assms(2) by (auto simp: cparse_loop_punct)
  finally show ?thesis .
qed

lemma parse_semi: "ce_ok e \<Longrightarrow> expr_semi (c_lex (pr e) @ TOp '';'' # r) = Some (ce_tree e, r)"
  by (simp add: expr_semi_def parse_before)

lemma expr_start:
  assumes "ce_ok e"
  obtains t ts where "c_lex (pr e) = t # ts" "t \<noteq> TOp '';''" "t \<noteq> TOp ''}''"
proof -
  obtain t ts where t: "c_lex (pr e) = t # ts" using ok_reads(1) [OF assms] by (cases "c_lex (pr e)") (auto simp: plain_start_def)
  have "cparse (PBin 0) (TOp op # r) = None" if "op = '';'' \<or> op = ''}''" for op r
    using that by (subst cparse.simps) (subst cparse.simps, auto simp: c_prefix_ops_def)
  then have "t \<noteq> TOp '';''" "t \<noteq> TOp ''}''" using parse_before [OF assms, of "'';''" "[]"] t by auto
  then show ?thesis using that t by blast
qed

definition itoks :: "ist \<Rightarrow> token list" where
  "itoks i = concat (map c_lex (ilines i))"

lemma lex_keyword: "c_lex ''return'' = [TId ''return'']" "c_lex ''if'' = [TId ''if'']" "c_lex ''__s64'' = [TId ''__s64'']"
  "c_lex ''= 0;'' = [TOp ''='', TNum ''0'', TOp '';'']" "c_lex '';'' = [TOp '';'']" "c_lex ''}'' = [TOp ''}'']"
  "c_lex ''} else {'' = [TOp ''}'', TId ''else'', TOp ''{'']" "c_lex ''return;'' = [TId ''return'', TOp '';'']"
  "c_lex '') {'' = [TOp '')'', TOp ''{'']"
  by code_simp+

lemma lex_eq: "c_lex ('' = '' @ s) = TOp ''='' # c_lex s"
  by (simp add: c_lex.simps(2) is_space_def ident_start_def is_digit_def two_char_ops_def)

lemma lex_spaced: "c_lex (CHR '' '' # s) = c_lex s"
  by (simp add: c_lex_space)

lemma itoks_simps:
  "c_word x \<Longrightarrow> itoks (IDecl x) = [TId ''__s64'', TId x, TOp ''='', TNum ''0'', TOp '';'']"
  "itoks (IAsg l e) = c_lex (pr l) @ TOp ''='' # c_lex (pr e) @ [TOp '';'']"
  "itoks (IRet None) = [TId ''return'', TOp '';'']"
  "itoks (IRet (Some e)) = TId ''return'' # c_lex (pr e) @ [TOp '';'']"
  "itoks (IExp e) = c_lex (pr e) @ [TOp '';'']"
  "itoks (IIf c t) = TId ''if'' # TOp ''('' # c_lex (pr c) @ [TOp '')'', TOp ''{''] @ concat (map itoks t) @ [TOp ''}'']"
  "itoks (IIfElse c t f) = TId ''if'' # TOp ''('' # c_lex (pr c) @ [TOp '')'', TOp ''{''] @ concat (map itoks t) @
     [TOp ''}'', TId ''else'', TOp ''{''] @ concat (map itoks f) @ [TOp ''}'']"
proof -
  have nest: "concat (map c_lex (concat (map ilines t))) = concat (map itoks t)" for t
    by (induction t) (simp_all add: itoks_def)
  have cond: "c_lex (''if ('' @ pr c @ '') {'') = TId ''if'' # TOp ''('' # c_lex (pr c) @ [TOp '')'', TOp ''{'']" for c
    using c_lex_append [of "'' ('' @ pr c @ '') {''" "''if''"] c_lex_append [of "'') {''" "pr c"]
    by (simp add: lex_keyword lex_spaced c_lex_punct)
  show "c_word x \<Longrightarrow> itoks (IDecl x) = [TId ''__s64'', TId x, TOp ''='', TNum ''0'', TOp '';'']"
    using c_lex_append [of "'' '' @ x @ '' = 0;''" "''__s64''"] c_lex_append [of "'' = 0;''" x] lexesD [OF lexes_word]
    by (simp add: itoks_def lex_keyword lex_spaced)
  show "itoks (IAsg l e) = c_lex (pr l) @ TOp ''='' # c_lex (pr e) @ [TOp '';'']"
    using c_lex_append [of "'' = '' @ pr e @ '';''" "pr l"] c_lex_append [of "'';''" "pr e"] lex_eq [of "pr e @ '';''"]
    by (simp add: itoks_def lex_keyword)
  show "itoks (IRet None) = [TId ''return'', TOp '';'']" by (simp add: itoks_def lex_keyword)
  show "itoks (IRet (Some e)) = TId ''return'' # c_lex (pr e) @ [TOp '';'']"
    using c_lex_append [of "'' '' @ pr e @ '';''" "''return''"] c_lex_append [of "'';''" "pr e"]
    by (simp add: itoks_def lex_keyword lex_spaced)
  show "itoks (IExp e) = c_lex (pr e) @ [TOp '';'']"
    using c_lex_append [of "'';''" "pr e"] by (simp add: itoks_def lex_keyword)
  show "itoks (IIf c t) = TId ''if'' # TOp ''('' # c_lex (pr c) @ [TOp '')'', TOp ''{''] @ concat (map itoks t) @ [TOp ''}'']"
    using cond [of c] lex_indented [of "concat (map ilines t)"] nest [of t] by (simp add: itoks_def lex_keyword)
  show "itoks (IIfElse c t f) = TId ''if'' # TOp ''('' # c_lex (pr c) @ [TOp '')'', TOp ''{''] @ concat (map itoks t) @
     [TOp ''}'', TId ''else'', TOp ''{''] @ concat (map itoks f) @ [TOp ''}'']"
    using cond [of c] lex_indented [of "concat (map ilines t)"] nest [of t] lex_indented [of "concat (map ilines f)"] nest [of f]
    by (simp add: itoks_def lex_keyword)
qed

definition no_else :: "token list \<Rightarrow> bool" where
  "no_else ts = (take 1 ts \<noteq> [TId ''else''])"

abbreviation and_then :: "(cstmt list \<times> token list) option \<Rightarrow> cstmt list \<Rightarrow> (cstmt list \<times> token list) option" where
  "and_then r cs \<equiv> Option.bind r (\<lambda>(ss, r). Some (cs @ ss, r))"

lemma start_no_else: "ce_ok e \<Longrightarrow> starts_stmt e \<Longrightarrow> no_else (c_lex (pr e) @ r)"
proof -
  assume a: "ce_ok e" "starts_stmt e"
  obtain t ts where "c_lex (pr e) = t # ts" by (rule expr_start [OF a(1)]) blast
  then show ?thesis using a(2) by (simp add: no_else_def starts_stmt_def)
qed

lemma itoks_no_else: "ist_ok i \<Longrightarrow> no_else (itoks i @ r)"
proof (cases i)
  case (IDecl x)
  assume "ist_ok i"
  then show ?thesis using IDecl by (simp add: itoks_simps no_else_def)
next
  case (IAsg l e)
  assume "ist_ok i"
  then show ?thesis using IAsg by (simp add: itoks_simps start_no_else)
next
  case (IRet e)
  then show ?thesis by (cases e) (simp_all add: itoks_simps no_else_def)
next
  case (IExp e)
  assume "ist_ok i"
  then show ?thesis using IExp by (simp add: itoks_simps start_no_else)
qed (simp_all add: itoks_simps no_else_def)

text \<open>An expression statement or an assignment is none of the other forms.\<close>

lemma c_stmts_expr:
  assumes "ce_ok e" "starts_stmt e"
  shows "c_stmts (c_lex (pr e) @ r) =
    Option.bind (cparse (PBin 0) (c_lex (pr e) @ r)) (\<lambda>(l, r0).
          if take 1 r0 = [TOp ''=''] then
            Option.bind (expr_semi (tl r0)) (\<lambda>(e, r1).
            Option.bind (c_stmts r1) (\<lambda>(ss, r). Some (CAsg l e # ss, r)))
          else if take 1 r0 = [TOp '';''] then
            Option.bind (c_stmts (tl r0)) (\<lambda>(ss, r). Some (CExp l # ss, r))
          else None)"
proof -
  obtain t ts where t: "c_lex (pr e) = t # ts" "t \<noteq> TOp ''}''" by (rule expr_start [OF assms(1)]) blast
  have "t \<noteq> TId ''return''" "t \<noteq> TId ''if''" "t \<noteq> TId ''__s64''" using assms(2) t(1) by (simp_all add: starts_stmt_def)
  then show ?thesis unfolding t(1) using t(2) by (subst c_stmts.simps) simp
qed

lemma c_stmts_return:
  assumes "ce_ok e"
  shows "c_stmts (TId ''return'' # c_lex (pr e) @ TOp '';'' # r) = and_then (c_stmts r) [CRet (Some (ce_tree e))]"
proof -
  obtain t ts where t: "c_lex (pr e) = t # ts" "t \<noteq> TOp '';''" by (rule expr_start [OF assms]) blast
  then show ?thesis
    using parse_semi [OF assms, of r] by (subst c_stmts.simps) simp
qed

lemma c_stmts_return_none: "c_stmts (TId ''return'' # TOp '';'' # r) = and_then (c_stmts r) [CRet None]"
  by (subst c_stmts.simps) simp

lemma c_stmts_decl: "c_stmts (TId ''__s64'' # TId x # TOp ''='' # TNum ''0'' # TOp '';'' # r) = and_then (c_stmts r) [CDecl x (XNum ''0'')]"
proof -
  have "expr_semi (TNum ''0'' # TOp '';'' # r) = Some (XNum ''0'', r)"
    by (simp add: expr_semi_def cparse_PBin cparse_prim cparse_post_end nopost_def cparse_loop_punct)
  then show ?thesis by (subst c_stmts.simps) simp
qed

lemma c_stmts_if:
  assumes "ce_ok c" "c_stmts (ts @ TOp ''}'' # r) = Some (t, TOp ''}'' # r)" "no_else r"
  shows "c_stmts (TId ''if'' # TOp ''('' # c_lex (pr c) @ TOp '')'' # TOp ''{'' # ts @ TOp ''}'' # r) = and_then (c_stmts r) [CIf (ce_tree c) t]"
proof -
  have "take 2 r \<noteq> [TId ''else'', TOp ''{'']" using assms(3) by (cases r) (auto simp: no_else_def)
  then show ?thesis
    using parse_before [OF assms(1), of "'')''"] assms(2) by (subst c_stmts.simps) simp
qed

lemma c_stmts_if_else:
  assumes "ce_ok c" "\<And>r. c_stmts (ts @ TOp ''}'' # r) = Some (t, TOp ''}'' # r)" "c_stmts (fs @ TOp ''}'' # r) = Some (f, TOp ''}'' # r)"
  shows "c_stmts (TId ''if'' # TOp ''('' # c_lex (pr c) @ TOp '')'' # TOp ''{'' # ts @ TOp ''}'' # TId ''else'' # TOp ''{'' # fs @ TOp ''}'' # r)
    = and_then (c_stmts r) [CIfElse (ce_tree c) t f]"
  using parse_before [OF assms(1), of "'')''"] assms(2,3) by (subst c_stmts.simps) simp

lemma c_stmts_close: "c_stmts (TOp ''}'' # r) = Some ([], TOp ''}'' # r)"
  by (subst c_stmts.simps) simp

lemma parse_ists_of:
  assumes "\<And>i r. i \<in> set is \<Longrightarrow> no_else r \<Longrightarrow> c_stmts (itoks i @ r) = and_then (c_stmts r) [icst i]" "list_all ist_ok is" "no_else r"
  shows "c_stmts (concat (map itoks is) @ r) = and_then (c_stmts r) (map icst is)"
  using assms
proof (induction "is")
  case Nil
  then show ?case by (cases "c_stmts r") auto
next
  case (Cons i "is")
  have n: "no_else (concat (map itoks is) @ r)"
    using Cons.prems(2,3) itoks_no_else by (cases "is") simp_all
  have "c_stmts (itoks i @ concat (map itoks is) @ r) = and_then (c_stmts (concat (map itoks is) @ r)) [icst i]"
    using Cons.prems(1) n by simp
  moreover have "c_stmts (concat (map itoks is) @ r) = and_then (c_stmts r) (map icst is)"
    using Cons by simp
  ultimately show ?case by (cases "c_stmts r") auto
qed

lemma parse_ist: "ist_ok i \<Longrightarrow> no_else r \<Longrightarrow> c_stmts (itoks i @ r) = and_then (c_stmts r) [icst i]"
proof (induction i arbitrary: r)
  case (IDecl x)
  then show ?case using c_stmts_decl by (simp add: itoks_simps)
next
  case (IAsg l e)
  then show ?case by (simp add: itoks_simps c_stmts_expr parse_before parse_semi)
next
  case (IRet e)
  then show ?case by (cases e) (simp_all add: itoks_simps c_stmts_return_none c_stmts_return)
next
  case (IExp e)
  then show ?case by (simp add: itoks_simps c_stmts_expr parse_before)
next
  case (IIf c t)
  have "c_stmts (concat (map itoks t) @ TOp ''}'' # r) = Some (map icst t, TOp ''}'' # r)"
    using parse_ists_of [of t "TOp ''}'' # r"] IIf by (simp add: list_all_iff no_else_def c_stmts_close)
  then show ?case using c_stmts_if [of c _ r] IIf by (simp add: itoks_simps)
next
  case (IIfElse c t f)
  have "c_stmts (concat (map itoks t) @ TOp ''}'' # r) = Some (map icst t, TOp ''}'' # r)" for r
    using parse_ists_of [of t "TOp ''}'' # r"] IIfElse by (simp add: list_all_iff no_else_def c_stmts_close)
  moreover have "c_stmts (concat (map itoks f) @ TOp ''}'' # r) = Some (map icst f, TOp ''}'' # r)"
    using parse_ists_of [of f "TOp ''}'' # r"] IIfElse by (simp add: list_all_iff no_else_def c_stmts_close)
  ultimately show ?case using c_stmts_if_else [of c] IIfElse by (simp add: itoks_simps)
qed

lemma parse_block:
  assumes "list_all ist_ok is"
  shows "c_stmts (concat (map itoks is) @ TOp ''}'' # r) = Some (map icst is, TOp ''}'' # r)"
  using parse_ists_of [OF parse_ist assms, of "TOp ''}'' # r"] assms by (simp add: list_all_iff no_else_def c_stmts_close)

text \<open>A whole function.\<close>

lemma parse_function:
  assumes "list_all ist_ok is" "c_word f" "concat (map c_lex body) = concat (map itoks is)"
  shows "c_function (c_lex (print_lines ([[], ''int '' @ f @ ''(void *ctx)'', ''{''] @ body @ [''}'']))) = Some (f, map icst is)"
proof -
  have h: "c_lex (''int '' @ f @ ''(void *ctx)'') = [TId ''int'', TId f, TOp ''('', TId ''void'', TOp ''*'', TId ''ctx'', TOp '')'']"
  proof -
    have "c_lex ''int'' = [TId ''int'']" "c_lex ''(void *ctx)'' = [TOp ''('', TId ''void'', TOp ''*'', TId ''ctx'', TOp '')'']" by code_simp+
    then show ?thesis
      using c_lex_append [of "'' '' @ f @ ''(void *ctx)''" "''int''"] c_lex_append [of "''(void *ctx)''" f] lexesD [OF lexes_word [OF assms(2)]]
      by (simp add: lex_spaced)
  qed
  have "c_lex ''{'' = [TOp ''{'']" by code_simp
  then have "c_lex (print_lines ([[], ''int '' @ f @ ''(void *ctx)'', ''{''] @ body @ [''}''])) =
      [TId ''int'', TId f, TOp ''('', TId ''void'', TOp ''*'', TId ''ctx'', TOp '')'', TOp ''{''] @ concat (map itoks is) @ [TOp ''}'']"
    using h assms(3) by (simp add: c_lex_print_lines lex_keyword del: append_Cons)
  then show ?thesis
    using parse_block [OF assms(1), of "[]"] by (simp add: c_function_def eval_nat_numeral)
qed

subsection \<open>Lowered statements are well formed\<close>

text \<open>Names of locals that collide with no other name of the generated code: C identifiers that are not
  type names, names of the generated file, temporaries or the replacement of a keyword.\<close>

definition reserved_names :: "string list" where
  "reserved_names = [''__s64'', ''__u64'', ''__s32'', ''__u32'', ''__u16'', ''__u8'', ''ctx'', ''amp_emit'', ''amp_ktime'', IVARS_MACRO]
     @ map (\<lambda>k. k @ ''_'') c_keywords"

definition good_local :: "string \<Rightarrow> bool" where
  "good_local x = (c_word x \<and> x \<notin> set reserved_names \<and> take 3 x \<noteq> ''_if'')"

definition good_name :: "string \<Rightarrow> bool" where
  "good_name y = (c_word y \<and> y \<notin> set c_typenames \<and> y \<notin> {''return'', ''if'', ''else'', ''ctx'', ''amp_emit'', ''amp_ktime'', IVARS_MACRO}
     \<and> take 3 y \<noteq> ''_if'')"

lemma good_safe: "good_local x \<Longrightarrow> good_name (cc_safe_dup x)"
proof (cases "cc_is_c_keyword x")
  case True
  have "list_all (\<lambda>k. good_name (k @ ''_'')) c_keywords" by code_simp
  then have "good_name (x @ ''_'')" using True by (simp add: list_all_iff cc_is_c_keyword_def)
  moreover have "x \<noteq> []" using True by (auto simp: cc_is_c_keyword_def c_keywords_def)
  ultimately show ?thesis using True by (simp add: cc_safe_dup_def)
next
  case False
  assume g: "good_local x"
  have "list_all (\<lambda>y. y \<in> set c_keywords \<or> y \<in> set reserved_names) (c_typenames @ [''return'', ''if'', ''else'', ''ctx'', ''amp_emit'', ''amp_ktime'', IVARS_MACRO])"
    by code_simp
  then have "y \<in> set c_keywords \<or> y \<in> set reserved_names" if "y \<in> set (c_typenames @ [''return'', ''if'', ''else'', ''ctx'', ''amp_emit'', ''amp_ktime'', IVARS_MACRO])" for y
    using that unfolding list_all_iff by blast
  then have "x \<notin> set (c_typenames @ [''return'', ''if'', ''else'', ''ctx'', ''amp_emit'', ''amp_ktime'', IVARS_MACRO])"
    using False g unfolding good_local_def cc_is_c_keyword_def by blast
  then show ?thesis using g False by (simp add: good_name_def good_local_def cc_safe_dup_def)
qed

lemma safe_inj: "good_local x \<Longrightarrow> good_local y \<Longrightarrow> cc_safe_dup x = cc_safe_dup y \<Longrightarrow> x = y"
  by (auto simp: cc_safe_dup_def good_local_def reserved_names_def cc_is_c_keyword_def split: if_splits)

lemma tmp_word: "c_word (tmp_name c)"
proof -
  have "list_all ident_char (dec_of c)" using dec_of_props [of c] by (auto simp: list_all_iff ident_char_def)
  then show ?thesis by (simp add: tmp_name_def c_word_def) code_simp
qed

lemma tmp_plain: "tmp_name c \<notin> set c_typenames" "tmp_name c \<notin> {''return'', ''if'', ''else'', ''ctx'', ''amp_emit'', ''amp_ktime'', IVARS_MACRO}"
  by (simp_all add: tmp_name_def c_typenames_def IVARS_MACRO_def)

lemma dec_number: "c_number (dec_of n)" "c_number (dec_of n @ ''u'')"
proof -
  obtain d ds where d: "dec_of n = d # ds" "is_digit d" "list_all is_digit ds" using dec_of_props [of n] by (cases "dec_of n") auto
  have "ident_char CHR ''u''" by code_simp
  then show "c_number (dec_of n)" "c_number (dec_of n @ ''u'')" using d by (auto simp: c_number_def list_all_iff ident_char_def)
qed

lemma iv_lv_ok: "ce_ok (iv_lv R x)" "starts_stmt (iv_lv R x)"
proof -
  have "c_type_ok ''volatile __u32 *''" "c_level ''+'' \<noteq> None" "raw_atom IVARS_MACRO" by code_simp+
  then show "ce_ok (iv_lv R x)" using dec_number by (auto simp: iv_lv_def raw_atom_def)
  show "starts_stmt (iv_lv R x)" by (simp add: starts_stmt_def pr_ivar ivar_lvalue_def c_lex_punct)
qed

lemma raw_int: "raw_atom (show_int v)"
  using dec_number(1) by (simp add: raw_atom_def show_int_def)

lemma raw_name: "c_word y \<Longrightarrow> y \<notin> set c_typenames \<Longrightarrow> raw_atom y"
  by (simp add: raw_atom_def)

lemma ax_ok: "ops_ok e \<Longrightarrow> list_all good_local (exp_locals e) \<Longrightarrow> ce_ok (ax R e)"
proof (induction e)
  case (RLoc x)
  then show ?case using good_safe [of x] by (simp add: raw_name good_name_def)
next
  case RKtime
  have "c_type_ok ''__s64''" "c_word ''amp_ktime''" "''amp_ktime'' \<notin> set c_typenames" by code_simp+
  then show ?case by simp
next
  case (RBin op a b)
  have "list_all (\<lambda>op. c_level op \<noteq> None) (''&&'' # ''||'' # binary_ops)" by code_simp
  then have "c_level op \<noteq> None" using RBin.prems(1) unfolding list_all_iff by (simp only: ops_ok.simps) blast
  then show ?case using RBin by simp
qed (simp_all add: raw_int iv_lv_ok)

lemma starts_name: "c_word y \<Longrightarrow> y \<notin> {''return'', ''if'', ''else'', ''__s64''} \<Longrightarrow> starts_stmt (CE_RAW y)"
  by (auto simp: starts_stmt_def lexesD [OF lexes_word])

definition st_ok :: "rst \<Rightarrow> bool" where
  "st_ok s = (st_ops s \<and> list_all good_local (st_locals s))"

lemma st_ok_simps [simp]:
  "st_ok (SVal e) = (ops_ok e \<and> list_all good_local (exp_locals e))"
  "st_ok (SLocal x r) = (good_local x \<and> st_ok r)"
  "st_ok (SIvar x r) = st_ok r"
  "st_ok (SOp x op e) = (op \<in> {''+'', ''-'', ''*''} \<and> ops_ok e \<and> list_all good_local (exp_locals e))"
  "st_ok SRet0" "st_ok (SRet r) = st_ok r" "st_ok (SEmit r) = st_ok r"
  "st_ok (SIf c t) = (ops_ok c \<and> list_all good_local (exp_locals c) \<and> list_all st_ok t)"
  "st_ok (SIfElse c t f) = (ops_ok c \<and> list_all good_local (exp_locals c) \<and> list_all st_ok t \<and> list_all st_ok f)"
  by (auto simp: st_ok_def list_all_iff)

definition lw_fine :: "ist list \<times> CExpr option \<times> nat \<Rightarrow> bool" where
  "lw_fine r = (case r of (is, v, c) \<Rightarrow> list_all ist_ok is \<and> (\<forall>e. v = Some e \<longrightarrow> ce_ok e))"

lemma lw_fineE: "lw_fine (is, v, c) \<Longrightarrow> list_all ist_ok is \<and> ce_ok (value_of v)"
proof -
  have "raw_atom ''0''" by code_simp
  then show "lw_fine (is, v, c) \<Longrightarrow> list_all ist_ok is \<and> ce_ok (value_of v)" by (cases v) (auto simp: lw_fine_def)
qed

lemma tmp_asg_fine: "lw_fine (is, v, c) \<Longrightarrow> list_all ist_ok (is @ tmp_asg n v)"
  using raw_name [OF tmp_word tmp_plain(1)] tmp_plain(2) [of n]
  by (cases v) (auto simp: lw_fine_def tmp_asg_def intro!: starts_name [OF tmp_word], simp add: tmp_name_def)

lemma void_line_fine: "lw_fine (is, v, c) \<Longrightarrow> list_all ist_ok (void_line is v)"
proof (cases v)
  case (Some e)
  assume "lw_fine (is, v, c)"
  then have e: "ce_ok e" using Some by (simp add: lw_fine_def)
  have "c_type_ok ''void''" by code_simp
  moreover have "starts_stmt (CE_CAST ''void'' (CE_PAREN e))"
    using pr_void [OF ok_pr [OF e]] by (simp add: starts_stmt_def c_lex_punct)
  ultimately show ?thesis using Some e by (simp add: void_line_def)
qed (simp add: void_line_def)

lemma emit_fine: "ce_ok e \<Longrightarrow> ist_ok (IExp (CE_CALL ''amp_emit'' [e]))"
proof -
  assume e: "ce_ok e"
  have w: "c_word ''amp_emit''" "''amp_emit'' \<notin> set c_typenames" by code_simp+
  have "c_lex (''amp_emit('' @ pr e @ '')'') = TId ''amp_emit'' # c_lex (''('' @ pr e @ '')'')"
    using c_lex_append [of "''('' @ pr e @ '')''" "''amp_emit''"] lexesD [OF lexes_word [OF w(1)]] by simp
  then show ?thesis using w e pr_emit [OF ok_pr [OF e]] by (simp add: starts_stmt_def)
qed

lemma local_fine: "good_local x \<Longrightarrow> ce_ok e \<Longrightarrow> ist_ok (IAsg (CE_RAW (cc_safe_dup x)) e) \<and> ce_ok (CE_RAW (cc_safe_dup x))"
proof -
  assume a: "good_local x" "ce_ok e"
  have "''__s64'' \<in> set c_typenames" by code_simp
  then show ?thesis using good_safe [OF a(1)] a(2) by (auto simp: good_name_def raw_name intro!: starts_name)
qed

lemma lw_ok:
  "st_ok s \<Longrightarrow> lw_fine (lw vd R s c)"
  "list_all st_ok ss \<Longrightarrow> lw_fine (lws vd R ss c)"
proof (induction vd R s c and vd R ss c rule: lw_lws.induct)
  case (1 vd R e c)
  then show ?case by (simp add: lw_fine_def ax_ok)
next
  case (2 vd R x r c)
  obtain "is" v c1 where l: "lw vd R r c = (is, v, c1)" by (cases "lw vd R r c")
  then have "list_all ist_ok is \<and> ce_ok (value_of v)" using 2 lw_fineE by simp
  then show ?case using l 2(2) local_fine by (auto simp: lw_fine_def simp del: ist_ok.simps ce_ok.simps)
next
  case (3 vd R x r c)
  obtain "is" v c1 where l: "lw vd R r c = (is, v, c1)" by (cases "lw vd R r c")
  then have "list_all ist_ok is \<and> ce_ok (value_of v)" using 3 lw_fineE by simp
  then show ?case using l iv_lv_ok by (simp add: lw_fine_def)
next
  case (4 vd R x op e c)
  have "c_level op \<noteq> None" using 4 by (auto simp: c_level_def c_binops_def)
  then show ?case using 4 iv_lv_ok ax_ok by (simp add: lw_fine_def)
next
  case (5 vd R c)
  have "raw_atom ''0''" by code_simp
  then show ?case by (simp add: lw_fine_def)
next
  case (6 vd R r c)
  obtain "is" v c1 where l: "lw vd R r c = (is, v, c1)" by (cases "lw vd R r c")
  then have "list_all ist_ok is \<and> ce_ok (value_of v)" using 6 lw_fineE by simp
  then show ?case using l by (simp add: lw_fine_def)
next
  case (7 vd R r c)
  obtain "is" v c1 where l: "lw vd R r c = (is, v, c1)" by (cases "lw vd R r c")
  have "raw_atom ''0''" by code_simp
  moreover have "list_all ist_ok is \<and> ce_ok (value_of v)" using 7 l lw_fineE by simp
  ultimately show ?case using l emit_fine by (simp add: lw_fine_def del: ist_ok.simps)
next
  case (8 vd R e t c)
  obtain ti tv c1 where l: "lws vd R t (Suc c) = (ti, tv, c1)" by (cases "lws vd R t (Suc c)")
  then show ?case
    using 8 tmp_asg_fine [of ti tv c1 "Suc c"] ax_ok [of e R] tmp_word [of "Suc c"] raw_name [OF tmp_word tmp_plain(1)]
    by (simp add: lw_fine_def)
next
  case (9 vd R e t f c)
  obtain ti tv c1 where l: "lws vd R t (Suc c) = (ti, tv, c1)" by (cases "lws vd R t (Suc c)")
  obtain fi fv c2 where l2: "lws vd R f c1 = (fi, fv, c2)" by (cases "lws vd R f c1")
  have "lw_fine (ti, tv, c1)" "lw_fine (fi, fv, c2)" using 9 l l2 by auto
  then show ?case
    using 9(3) l l2 tmp_asg_fine [of ti tv c1 "Suc c"] tmp_asg_fine [of fi fv c2 "Suc c"] ax_ok [of e R] tmp_word [of "Suc c"]
      raw_name [OF tmp_word tmp_plain(1)]
    by (simp add: lw_fine_def)
next
  case (10 vd R c)
  then show ?case by (simp add: lw_fine_def)
next
  case (11 vd R s ss c)
  obtain "is" v c1 where l: "lw vd R s c = (is, v, c1)" by (cases "lw vd R s c")
  obtain js w c2 where l2: "lws vd R ss c1 = (js, w, c2)" by (cases "lws vd R ss c1")
  have f: "lw_fine (is, v, c1)" using 11 l by simp
  show ?case
  proof (cases "ss = []")
    case False
    then have "lw_fine (js, w, c2)" using 11(2) [OF l [symmetric]] 11(3) l2 by simp
    then show ?thesis using f False l l2 void_line_fine [OF f] by (simp add: lw_fine_def)
  qed (use f l in simp)
qed

end
