(* ===== verification/Cc_Amp_Sim.thy ===== *)
theory Cc_Amp_Sim
  imports Cc_Amp_Parse
begin

text \<open>
  Execution of the lowered statements follows the evaluation of the tree: a simulation between the
  states of the two, statement by statement.
\<close>

subsection \<open>Conversions and operators\<close>

lemma conv_id: "in_ty T v \<Longrightarrow> conv T v = v"
  by (cases T) (simp_all add: mod_pos_pos_trivial)

lemma in_ty_S64: "in_ty T v \<Longrightarrow> T \<noteq> U64 \<Longrightarrow> in_ty S64 v"
  by (cases T) simp_all

lemma in_ty_le: "in_ty T v \<Longrightarrow> 0 \<le> w \<Longrightarrow> w \<le> v \<Longrightarrow> in_ty T w"
  by (cases T) simp_all

lemma in_ty_0: "in_ty T 0"
  by (cases T) simp_all

lemma in_ty_bool: "in_ty I32 (of_bool b)"
  by simp

lemma in_ty_shift:
  assumes "in_ty T a"
  shows "in_ty T (a div 2 ^ n)"
proof -
  have "0 \<le> a \<Longrightarrow> 0 \<le> a div 2 ^ n \<and> a div 2 ^ n \<le> a" by (simp add: pos_imp_zdiv_nonneg_iff zdiv_mono2 [of a 1 "2 ^ n", simplified])
  moreover have "a < 0 \<Longrightarrow> a div 2 ^ n < 0 \<and> a \<le> a div 2 ^ n"
  proof -
    assume "a < 0"
    have "a * 2 ^ n \<le> a * 1" using \<open>a < 0\<close> by (intro mult_left_mono_neg) auto
    then have "a * 2 ^ n div 2 ^ n \<le> a div 2 ^ n" by (intro zdiv_mono1) auto
    then show ?thesis using \<open>a < 0\<close> div_neg_pos_less0 [of a "2 ^ n"] by simp
  qed
  ultimately show ?thesis using assms by (cases "0 \<le> a"; cases T) auto
qed

lemma arith_id: "in_ty T v \<Longrightarrow> arith T v = Some (T, v)"
  by (simp add: arith_def conv_id)

text \<open>Where the Ruby operator has a result, the C operator has the same one.\<close>

definition op_type :: "string \<Rightarrow> cty \<Rightarrow> cty \<Rightarrow> cty" where
  "op_type op A B =
     (if map_of compare_ops op \<noteq> None then I32 else if op \<in> {''<<'', ''>>''} then A else usual A B)"

lemma shift_ops: "map_of compare_ops ''<<'' = None" "map_of compare_ops ''>>'' = None"
  "map_of arith_ops ''<<'' = None" "map_of arith_ops ''>>'' = None" "map_of compare_ops ''/'' = None" "map_of compare_ops ''%'' = None"
  "map_of arith_ops ''/'' = None" "map_of arith_ops ''%'' = None"
  by (simp_all add: compare_ops_def arith_ops_def)

lemma div_facts: "0 \<le> a \<Longrightarrow> 0 < b \<Longrightarrow> trunc_div a b = a div b \<and> a - b * (a div b) = a mod b \<and> 0 \<le> a div b \<and> a div b \<le> a \<and> 0 \<le> a mod b \<and> a mod b \<le> a" for a b :: int
proof -
  assume a: "0 \<le> a" "0 < b"
  have "trunc_div a b = a div b" using a by (cases "a = 0") (simp_all add: trunc_div_def)
  moreover have "a div b \<le> a" using zdiv_mono2 [of a 1 b] a by simp
  moreover have "a mod b \<le> a" using a by (simp add: zmod_le_nonneg_dividend)
  moreover have "0 \<le> a div b" using a by (simp add: pos_imp_zdiv_nonneg_iff)
  ultimately show ?thesis using a by (simp add: minus_mult_div_eq_mod)
qed

lemma c_binop_r_binop:
  assumes "r_binop op A B a b = Some v" "in_ty A a" "in_ty B b"
  shows "c_binop op (A, a) (B, b) = Some (op_type op A B, rep v) \<and> in_ty (op_type op A B) (rep v)"
proof -
  consider (shl) "op = ''<<''" | (shr) "op = ''>>''" | (other) "op \<noteq> ''<<''" "op \<noteq> ''>>''" by blast
  then show ?thesis
  proof cases
    case shl
    then have "0 \<le> a" "0 \<le> b" "b < width A" "in_ty A (a * 2 ^ nat b)" "v = RVInt (a * 2 ^ nat b)"
      using assms(1) by (auto simp: r_binop_def Let_def ranged_def split: if_splits)
    then show ?thesis using shl by (simp add: c_binop_def op_type_def shift_ops arith_id Let_def)
  next
    case shr
    then have "0 \<le> b" "b < width A" "v = RVInt (a div 2 ^ nat b)"
      using assms(1) by (auto simp: r_binop_def Let_def split: if_splits)
    then show ?thesis using shr in_ty_shift [OF assms(2)] by (simp add: c_binop_def op_type_def shift_ops Let_def)
  next
    case other
    let ?T = "usual A B"
    have ab: "in_ty ?T a" "in_ty ?T b" using assms(1) other by (auto simp: r_binop_def Let_def split: if_splits)
    note cv = conv_id [OF ab(1)] conv_id [OF ab(2)]
    show ?thesis
    proof (cases "map_of compare_ops op")
      case (Some f)
      then have "v = RVBool (f a b)" using assms(1) other ab by (simp add: r_binop_def Let_def)
      then show ?thesis using Some cv by (simp add: c_binop_def op_type_def Let_def)
    next
      case n: None
      show ?thesis
      proof (cases "map_of arith_ops op")
        case (Some f)
        then have "in_ty ?T (f a b)" "v = RVInt (f a b)"
          using assms(1) other ab n by (auto simp: r_binop_def Let_def ranged_def split: if_splits)
        then show ?thesis using Some n other cv by (simp add: c_binop_def op_type_def Let_def arith_id)
      next
        case None
        then have p: "0 \<le> a" "0 < b" "op = ''/'' \<and> v = RVInt (a div b) \<or> op = ''%'' \<and> v = RVInt (a mod b)"
          using assms(1) other ab n by (auto simp: r_binop_def Let_def split: if_splits)
        note d = div_facts [OF p(1,2)]
        have i: "in_ty ?T (a div b)" "in_ty ?T (a mod b)" using d in_ty_le [OF ab(1)] by auto
        from p(3) show ?thesis
        proof
          assume "op = ''/'' \<and> v = RVInt (a div b)"
          then show ?thesis using p(2) d i cv arith_id [OF i(1)] by (simp add: c_binop_def op_type_def Let_def shift_ops)
        next
          assume "op = ''%'' \<and> v = RVInt (a mod b)"
          then show ?thesis using p(2) d i cv arith_id [OF i(1)] arith_id [OF i(2)] by (simp add: c_binop_def op_type_def Let_def shift_ops)
        qed
      qed
    qed
  qed
qed

lemma c_binop_other: "op \<noteq> ''&&'' \<Longrightarrow> op \<noteq> ''||'' \<Longrightarrow> ctype (RBin op a b) = op_type op (ctype a) (ctype b)"
  by (simp add: op_type_def)

subsection \<open>Constants\<close>

lemma dec_of_leading: "n \<noteq> 0 \<Longrightarrow> hd (dec_of n) \<noteq> CHR ''0''"
proof (induction n rule: dec_of.induct)
  case (1 n)
  show ?case
  proof (cases "n < 10")
    case True
    have "\<forall>n \<in> set [1..<10]. digit_char n \<noteq> CHR ''0''" by code_simp
    then show ?thesis using True 1(2) by (simp add: dec_of_lt10)
  next
    case False
    then show ?thesis using 1 dec_of_props [of "n div 10"] by (simp add: dec_of_ge10)
  qed
qed

lemma dec_split: "takeWhile is_digit (dec_of n) = dec_of n" "dropWhile is_digit (dec_of n) = []"
  "\<not> is_digit c \<Longrightarrow> takeWhile is_digit (dec_of n @ [c]) = dec_of n" "\<not> is_digit c \<Longrightarrow> dropWhile is_digit (dec_of n @ [c]) = [c]"
  using dec_of_props [of n] by (simp_all add: list_all_iff takeWhile_eq_all_conv takeWhile_append dropWhile_append)

lemma no_octal: "\<not> (dec_of n = [] \<or> hd (dec_of n) = CHR ''0'' \<and> tl (dec_of n) \<noteq> [])"
proof (cases "n = 0")
  case True
  then show ?thesis by (simp add: dec_of_lt10)
next
  case False
  then show ?thesis using dec_of_leading dec_of_props [of n] by simp
qed

lemma c_literal_dec:
  "n < 2 ^ 31 \<Longrightarrow> c_literal (dec_of n) = Some (I32, int n)"
  "\<not> n < 2 ^ 31 \<Longrightarrow> n < 2 ^ 63 \<Longrightarrow> c_literal (dec_of n) = Some (S64, int n)"
  "n < 2 ^ 32 \<Longrightarrow> c_literal (dec_of n @ ''u'') = Some (U32, int n)"
proof -
  have u: "\<not> is_digit CHR ''u''" by code_simp
  have v: "digits_val (dec_of n) = n" using dec_of_props [of n] by simp
  have c: "int n < 2 ^ k \<longleftrightarrow> n < 2 ^ k" for k by (metis of_nat_less_iff of_nat_numeral of_nat_power)
  show "n < 2 ^ 31 \<Longrightarrow> c_literal (dec_of n) = Some (I32, int n)"
    "\<not> n < 2 ^ 31 \<Longrightarrow> n < 2 ^ 63 \<Longrightarrow> c_literal (dec_of n) = Some (S64, int n)"
    unfolding c_literal_def Let_def dec_split(1,2) v if_not_P [OF no_octal] c by simp_all
  show "n < 2 ^ 32 \<Longrightarrow> c_literal (dec_of n @ ''u'') = Some (U32, int n)"
    unfolding c_literal_def Let_def dec_split(3,4) [OF u] v if_not_P [OF no_octal] c by simp
qed

lemma tree_int:
  assumes "\<bar>v\<bar> < 2 ^ 63"
  shows "c_eval E (ce_tree (CE_RAW (show_int v))) s = Some (Some (ctype (RInt v), v), s)" "in_ty (ctype (RInt v)) v"
proof -
  have nw: "\<not> c_word (dec_of n)" "c_number (dec_of n)" for n
    using dec_number(1) [of n] digit_not_start [of "hd (dec_of n)"] by (auto simp: c_word_def c_number_def)
  have neg: "\<not> c_word (CHR ''-'' # xs)" "\<not> c_number (CHR ''-'' # xs)" for xs
    by (simp_all add: c_word_def c_number_def ident_start_def is_digit_def)
  have k: "nat \<bar>v\<bar> < 2 ^ 63" "nat \<bar>v\<bar> < 2 ^ 31 \<longleftrightarrow> \<bar>v\<bar> < 2 ^ 31" using assms by auto
  have lit: "c_literal (dec_of (nat \<bar>v\<bar>)) = Some (ctype (RInt v), \<bar>v\<bar>)"
    using c_literal_dec(1,2) [of "nat \<bar>v\<bar>"] k by (cases "\<bar>v\<bar> < 2 ^ 31") simp_all
  show r: "in_ty (ctype (RInt v)) v" using assms by auto
  show "c_eval E (ce_tree (CE_RAW (show_int v))) s = Some (Some (ctype (RInt v), v), s)"
  proof (cases "v < 0")
    case True
    then have "nat (- v) = nat \<bar>v\<bar>" by simp
    then show ?thesis using True lit arith_id [OF r] neg by (simp add: show_int_def del: ctype.simps)
  next
    case False
    then have "nat v = nat \<bar>v\<bar>" by simp
    then show ?thesis using False lit nw by (simp add: show_int_def del: ctype.simps)
  qed
qed

subsection \<open>States\<close>

definition r_get :: "rstate \<Rightarrow> string \<Rightarrow> rval" where
  "r_get s x = (case r_loc s x of Some v \<Rightarrow> v | None \<Rightarrow> RVNil)"

definition addr :: "cenv \<Rightarrow> string list \<Rightarrow> string \<Rightarrow> int" where
  "addr E R x = conv U32 (ce_base E + 4 * int (slot R x))"

text \<open>The parts of the state that outlive a call: output, clock and instance variables.\<close>

definition glob :: "cenv \<Rightarrow> string list \<Rightarrow> rstate \<Rightarrow> cstate \<Rightarrow> bool" where
  "glob E R q s \<longleftrightarrow> c_out s = r_out q \<and> c_tick s = r_tick q \<and>
     (\<forall>x \<in> set R. c_mem s (addr E R x) = rep (r_iv q x) \<and> in_ty U32 (rep (r_iv q x)))"

definition locs :: "string set \<Rightarrow> rstate \<Rightarrow> (string \<rightharpoonup> int) \<Rightarrow> bool" where
  "locs L q m \<longleftrightarrow> (\<forall>x \<in> L. good_local x \<and> m (cc_safe_dup x) = Some (rep (r_get q x)) \<and> in_ty S64 (rep (r_get q x))) \<and>
     m ''amp_emit'' = None \<and> m ''amp_ktime'' = None"

definition fresh :: "nat \<Rightarrow> (string \<rightharpoonup> int) \<Rightarrow> bool" where
  "fresh c m \<longleftrightarrow> (\<forall>i > c. m (tmp_name i) = None)"

definition agrees :: "cenv \<Rightarrow> string list \<Rightarrow> string set \<Rightarrow> nat \<Rightarrow> rstate \<Rightarrow> cstate \<Rightarrow> bool" where
  "agrees E R L c q s \<longleftrightarrow> glob E R q s \<and> locs L q (c_loc s) \<and> fresh c (c_loc s)"

subsection \<open>Expressions\<close>

lemma has_call_ax: "has_call (ce_tree (ax R e)) = reads_clock e"
  by (induction e) (simp_all add: iv_lv_def)

definition exp_in :: "string list \<Rightarrow> string set \<Rightarrow> rexp \<Rightarrow> bool" where
  "exp_in R L e \<longleftrightarrow> ops_ok e \<and> set (exp_locals e) \<subseteq> L \<and> set (exp_ivars e) \<subseteq> set R"

lemma slot_64: "x \<in> set R \<Longrightarrow> length R \<le> AMP_MAX_IVARS \<Longrightarrow> slot R x < 64"
  using slot_less [of R x] by (simp add: AMP_MAX_IVARS_def)

lemma iv_tree: "ce_tree (iv_lv R x) = XUn ''*'' (XCast ptr_type (XBin ''+'' (XId IVARS_MACRO) (XNum (dec_of (4 * slot R x) @ ''u''))))"
proof -
  have "c_word IVARS_MACRO" "c_lex ''volatile __u32 *'' = ptr_type" by code_simp+
  moreover have "\<not> c_word (dec_of n @ ''u'')" "c_number (dec_of n @ ''u'')" for n
    using dec_number(2) [of n] digit_not_start [of "hd (dec_of n @ ''u'')"] by (auto simp: c_word_def c_number_def)
  ultimately show ?thesis by (simp add: iv_lv_def)
qed

lemma eval_addr:
  assumes "slot R x < 64"
  shows "c_eval E (XBin ''+'' (XId IVARS_MACRO) (XNum (dec_of (4 * slot R x) @ ''u''))) s = Some (Some (U32, addr E R x), s)"
proof -
  have "4 * slot R x < 2 ^ 32" using assms by simp
  note lit = c_literal_dec(3) [OF this]
  have "c_binop ''+'' (U32, ce_base E) (U32, int (4 * slot R x)) = Some (U32, addr E R x)"
    by (simp add: c_binop_def Let_def usual_def compare_ops_def arith_ops_def arith_def addr_def mod_simps)
  then show ?thesis using lit by simp
qed

lemma eval_ivar:
  assumes "x \<in> set R" "length R \<le> AMP_MAX_IVARS" "glob E R q s"
  shows "c_eval E (ce_tree (iv_lv R x)) s = Some (Some (U32, rep (r_iv q x)), s)" "in_ty U32 (rep (r_iv q x))"
  using eval_addr [OF slot_64 [OF assms(1,2)], of E s] assms(1,3) unfolding iv_tree by (simp_all add: glob_def del: c_eval.simps(5))

lemma ctype_not_U64: "ctype e \<noteq> U64"
  by (induction e) (auto simp: usual_def)

lemma tree_local: "good_local x \<Longrightarrow> ce_tree (CE_RAW (cc_safe_dup x)) = XId (cc_safe_dup x) \<and> cc_safe_dup x \<noteq> IVARS_MACRO"
  using good_safe [of x] by (simp add: good_name_def)

lemma ktime_tree: "ce_tree (ax R RKtime) = XCast [TId ''__s64''] (XCall (XId ''amp_ktime'') [])"
proof -
  have "c_lex ''__s64'' = [TId ''__s64'']" by code_simp
  then show ?thesis by simp
qed

definition ticks :: "cstate \<Rightarrow> cstate \<Rightarrow> bool" where
  "ticks s s' \<longleftrightarrow> (\<exists>n. s' = s \<lparr> c_tick := n \<rparr>)"

lemma ticks_facts: "ticks s s" "ticks s s' \<Longrightarrow> ticks s' s'' \<Longrightarrow> ticks s s''" "ticks s s' \<Longrightarrow> c_loc s' = c_loc s \<and> c_mem s' = c_mem s"
proof -
  show "ticks s s" unfolding ticks_def by (rule exI [of _ "c_tick s"]) simp
qed (auto simp: ticks_def)

lemma locs_cong: "r_loc q' = r_loc q \<Longrightarrow> locs L q' m = locs L q m"
  by (simp add: locs_def r_get_def)

definition eval_ok :: "cenv \<Rightarrow> string list \<Rightarrow> rexp \<Rightarrow> rstate \<Rightarrow> cstate \<Rightarrow> rval \<Rightarrow> rstate \<Rightarrow> bool" where
  "eval_ok E R e q s v q' \<longleftrightarrow>
     (\<exists>s'. c_eval E (ce_tree (ax R e)) s = Some (Some (ctype e, rep v), s') \<and> in_ty (ctype e) (rep v) \<and>
           glob E R q' s' \<and> ticks s s' \<and> r_loc q' = r_loc q)"

lemma logical_cases:
  assumes "op = ''&&'' \<or> op = ''||''" "r_eval clk (RBin op a b) q = Some (v, q')"
  obtains p where "r_eval clk a q = Some (RVBool p, q')" "p = (op = ''||'')" "v = RVBool p"
  | p q1 r where "r_eval clk a q = Some (RVBool p, q1)" "p \<noteq> (op = ''||'')" "r_eval clk b q1 = Some (RVBool r, q')" "v = RVBool r"
proof -
  note e = assms(2) [unfolded r_eval.simps if_P [OF assms(1)]]
  from e obtain x q1 where x: "r_eval clk a q = Some (x, q1)" by (cases "r_eval clk a q") auto
  from e x obtain p where p: "x = RVBool p" by (cases x) auto
  show thesis
  proof (cases "p = (op = ''||'')")
    case True
    then show thesis using that(1) [of p] e x p by simp
  next
    case False
    note e2 = e [unfolded x p option.case prod.case rval.case if_not_P [OF False]]
    from e2 obtain y q2 where y: "r_eval clk b q1 = Some (y, q2)" by (cases "r_eval clk b q1") auto
    from e2 y obtain r where "y = RVBool r" by (cases y) auto
    then show thesis using that(2) [of p q1 r] e2 x y p False by simp
  qed
qed

lemma binop_cases:
  assumes "\<not> (op = ''&&'' \<or> op = ''||'')" "r_eval clk (RBin op a b) q = Some (v, q')"
  obtains x y q1 where "\<not> (reads_clock a \<and> reads_clock b)" "r_eval clk a q = Some (RVInt x, q1)" "r_eval clk b q1 = Some (RVInt y, q')"
    "r_binop op (ctype a) (ctype b) x y = Some v"
proof -
  note e = assms(2) [unfolded r_eval.simps if_not_P [OF assms(1)]]
  from e have n: "\<not> (reads_clock a \<and> reads_clock b)" by auto
  note e1 = e [unfolded if_not_P [OF n]]
  from e1 obtain w q1 where w: "r_eval clk a q = Some (w, q1)" by (cases "r_eval clk a q") auto
  from e1 w obtain x where x: "w = RVInt x" by (cases w) auto
  note e2 = e1 [unfolded w x option.case prod.case rval.case]
  from e2 obtain z q2 where z: "r_eval clk b q1 = Some (z, q2)" by (cases "r_eval clk b q1") auto
  from e2 z obtain y where y: "z = RVInt y" by (cases z) auto
  from e2 [unfolded z y option.case prod.case rval.case] have "r_binop op (ctype a) (ctype b) x y = Some v" "q2 = q'" by auto
  then show thesis using that [of x q1 y] n w x z y by simp
qed

lemma eval_logical:
  assumes "op = ''&&'' \<or> op = ''||''"
  shows "c_eval E (XBin op a b) s =
    Option.bind (Option.bind (c_eval E a s) c_truth) (\<lambda>(p, s1).
      if p = (op = ''||'') then Some (Some (I32, of_bool p), s1)
      else Option.bind (Option.bind (c_eval E b s1) c_truth) (\<lambda>(q, s2). Some (Some (I32, of_bool q), s2)))"
  unfolding c_eval.simps if_P [OF assms] ..

lemma eval_binop:
  assumes "\<not> (op = ''&&'' \<or> op = ''||'')" "\<not> (has_call a \<and> has_call b)" "c_eval E a s = Some (Some x, s1)" "c_eval E b s1 = Some (Some y, s2)"
  shows "c_eval E (XBin op a b) s = map_option (\<lambda>r. (Some r, s2)) (c_binop op x y)"
  unfolding c_eval.simps if_not_P [OF assms(1)] if_not_P [OF assms(2)] assms(3) by (simp add: assms(4))

lemma eval_sim_logical:
  assumes "op = ''&&'' \<or> op = ''||''" "r_eval clk (RBin op a b) q = Some (v, q')" "locs L q (c_loc s)" "glob E R q s"
    "\<And>q s v q'. locs L q (c_loc s) \<Longrightarrow> glob E R q s \<Longrightarrow> r_eval clk a q = Some (v, q') \<Longrightarrow> eval_ok E R a q s v q'"
    "\<And>q s v q'. locs L q (c_loc s) \<Longrightarrow> glob E R q s \<Longrightarrow> r_eval clk b q = Some (v, q') \<Longrightarrow> eval_ok E R b q s v q'"
  shows "eval_ok E R (RBin op a b) q s v q'"
proof -
  have ty: "ctype (RBin op a b) = I32" using assms(1) by auto
  have left: "\<exists>s1. Option.bind (c_eval E (ce_tree (ax R a)) s) c_truth = Some (p, s1) \<and> glob E R q1 s1 \<and> ticks s s1 \<and> r_loc q1 = r_loc q"
    if "r_eval clk a q = Some (RVBool p, q1)" for p q1
    using assms(5) [OF assms(3,4) that] by (auto simp: eval_ok_def c_truth_def)
  from assms(1,2) show ?thesis
  proof (cases rule: logical_cases)
    case (1 p)
    then obtain s1 where s1: "Option.bind (c_eval E (ce_tree (ax R a)) s) c_truth = Some (p, s1)" "glob E R q' s1" "ticks s s1" "r_loc q' = r_loc q"
      using left by blast
    then show ?thesis
      unfolding eval_ok_def ty ax.simps ce_tree.simps eval_logical [OF assms(1)] s1(1) using 1 by (intro exI [of _ s1]) simp
  next
    case (2 p q1 r)
    then obtain s1 where s1: "Option.bind (c_eval E (ce_tree (ax R a)) s) c_truth = Some (p, s1)" "glob E R q1 s1" "ticks s s1" "r_loc q1 = r_loc q"
      using left by blast
    have l1: "locs L q1 (c_loc s1)" using assms(3) ticks_facts(3) [OF s1(3)] locs_cong [OF s1(4)] by simp
    obtain s2 where s2: "Option.bind (c_eval E (ce_tree (ax R b)) s1) c_truth = Some (r, s2)" "glob E R q' s2" "ticks s1 s2" "r_loc q' = r_loc q1"
      using assms(6) [OF l1 s1(2) 2(3)] by (auto simp: eval_ok_def c_truth_def)
    have "c_eval E (ce_tree (ax R (RBin op a b))) s = Some (Some (I32, of_bool r), s2)"
      unfolding ax.simps ce_tree.simps eval_logical [OF assms(1)] s1(1) Option.bind.simps prod.case if_not_P [OF 2(2)] s2(1) ..
    then show ?thesis
      unfolding eval_ok_def ty using 2 s1 s2 ticks_facts(2) [OF s1(3) s2(3)] by (intro exI [of _ s2]) simp
  qed
qed

lemma eval_sim_binop:
  assumes "\<not> (op = ''&&'' \<or> op = ''||'')" "r_eval clk (RBin op a b) q = Some (v, q')" "locs L q (c_loc s)" "glob E R q s"
    "\<And>q s v q'. locs L q (c_loc s) \<Longrightarrow> glob E R q s \<Longrightarrow> r_eval clk a q = Some (v, q') \<Longrightarrow> eval_ok E R a q s v q'"
    "\<And>q s v q'. locs L q (c_loc s) \<Longrightarrow> glob E R q s \<Longrightarrow> r_eval clk b q = Some (v, q') \<Longrightarrow> eval_ok E R b q s v q'"
  shows "eval_ok E R (RBin op a b) q s v q'"
  using assms(1,2)
proof (cases rule: binop_cases)
  case (1 x y q1)
  obtain s1 where s1: "c_eval E (ce_tree (ax R a)) s = Some (Some (ctype a, x), s1)" "in_ty (ctype a) x" "glob E R q1 s1" "ticks s s1" "r_loc q1 = r_loc q"
    using assms(5) [OF assms(3,4) 1(2)] by (auto simp: eval_ok_def)
  have l1: "locs L q1 (c_loc s1)" using assms(3) ticks_facts(3) [OF s1(4)] locs_cong [OF s1(5)] by simp
  obtain s2 where s2: "c_eval E (ce_tree (ax R b)) s1 = Some (Some (ctype b, y), s2)" "in_ty (ctype b) y" "glob E R q' s2" "ticks s1 s2" "r_loc q' = r_loc q1"
    using assms(6) [OF l1 s1(3) 1(3)] by (auto simp: eval_ok_def)
  note c = c_binop_r_binop [OF 1(4) s1(2) s2(2)]
  have t: "ctype (RBin op a b) = op_type op (ctype a) (ctype b)" using assms(1) by (intro c_binop_other) auto
  have h: "\<not> (has_call (ce_tree (ax R a)) \<and> has_call (ce_tree (ax R b)))" using 1(1) by (simp add: has_call_ax)
  show ?thesis
    unfolding eval_ok_def t ax.simps ce_tree.simps eval_binop [OF assms(1) h s1(1) s2(1)]
    using c s1 s2 ticks_facts(2) [OF s1(4) s2(4)] by (intro exI [of _ s2]) simp
qed

lemma eval_sim:
  assumes "ce_clock E = clk" "length R \<le> AMP_MAX_IVARS"
  shows "exp_in R L e \<Longrightarrow> locs L q (c_loc s) \<Longrightarrow> glob E R q s \<Longrightarrow> r_eval clk e q = Some (v, q') \<Longrightarrow> eval_ok E R e q s v q'"
proof (induction e arbitrary: q s v q')
  case (RInt i)
  then show ?case using tree_int(1) [of i E s] tree_int(2) [of i] ticks_facts(1)
    by (auto simp: eval_ok_def simp del: ctype.simps ce_tree.simps in_ty.simps split: if_splits)
next
  case (RLoc x)
  then have "good_local x" "c_loc s (cc_safe_dup x) = Some (rep (r_get q x))" "in_ty S64 (rep (r_get q x))"
    by (auto simp: exp_in_def locs_def)
  then show ?case using RLoc.prems(3,4) tree_local [of x] ticks_facts(1)
    by (auto simp: eval_ok_def r_get_def simp del: in_ty.simps ce_tree.simps)
next
  case (RIvar x)
  then show ?case using eval_ivar [OF _ assms(2) RIvar.prems(3)] ticks_facts(1) by (auto simp: eval_ok_def exp_in_def simp del: in_ty.simps)
next
  case RKtime
  then have v: "in_ty S64 (clk (r_tick q))" "v = RVInt (clk (r_tick q))" "q' = q \<lparr> r_tick := Suc (r_tick q) \<rparr>" "c_tick s = r_tick q"
    by (auto simp: Let_def glob_def simp del: in_ty.simps split: if_splits)
  have "c_loc s ''amp_ktime'' = None" using RKtime.prems(2) by (simp add: locs_def)
  then have "c_eval E (ce_tree (ax R RKtime)) s = Some (Some (S64, clk (r_tick q)), s \<lparr> c_tick := Suc (r_tick q) \<rparr>)"
    unfolding ktime_tree using v(4) assms(1) conv_id [OF v(1)] by simp
  then show ?case using v RKtime.prems(3) by (auto simp: eval_ok_def glob_def ticks_def simp del: in_ty.simps ax.simps)
next
  case (RParen e)
  then show ?case by (auto simp: eval_ok_def exp_in_def)
next
  case (RBin op a b)
  have i: "exp_in R L a" "exp_in R L b" using RBin.prems(1) by (auto simp: exp_in_def)
  note ih = RBin.IH(1) [OF i(1)] RBin.IH(2) [OF i(2)]
  show ?case
  proof (cases "op = ''&&'' \<or> op = ''||''")
    case True
    then show ?thesis by (rule eval_sim_logical [OF _ RBin.prems(4,2,3) ih])
  next
    case False
    then show ?thesis by (rule eval_sim_binop [OF _ RBin.prems(4,2,3) ih])
  qed
qed

end
