(* ===== verification/Cc_Amp_Exec.thy ===== *)
theory Cc_Amp_Exec
  imports Cc_Amp_Sim
begin

text \<open>
  The statements of the lowering, executed: each runs from a state that stands for the state of the
  Ruby program to one that stands for the state after the statement it comes from.
\<close>

subsection \<open>States after a step\<close>

lemma execs_append: "c_execs E (a @ b) s =
  Option.bind (c_execs E a s) (\<lambda>r. case r of CNext s' \<Rightarrow> c_execs E b s' | CReturned v s' \<Rightarrow> Some r)"
proof (induction a arbitrary: s)
  case (Cons x xs)
  show ?case
  proof (cases "c_exec E x s")
    case (Some r)
    then show ?thesis by (cases r) (simp_all add: Cons)
  qed simp
qed simp

lemma exec_single: "c_execs E [x] s = c_exec E x s"
  by (cases "c_exec E x s") (auto split: coutcome.split)

lemma execs_next: "c_exec E x s = Some (CNext s') \<Longrightarrow> c_execs E (x # xs) s = c_execs E xs s'"
  by simp

lemma tmp_inj: "tmp_name i = tmp_name j \<longleftrightarrow> i = j"
proof -
  have "dec_of i = dec_of j \<Longrightarrow> i = j" using dec_of_props [of i] dec_of_props [of j] by metis
  then show ?thesis by (auto simp: tmp_name_def)
qed

lemma local_not_tmp: "good_local x \<Longrightarrow> cc_safe_dup x \<noteq> tmp_name i"
proof
  assume "good_local x" "cc_safe_dup x = tmp_name i"
  then have "take 3 (tmp_name i) \<noteq> ''_if''" using good_safe [of x] by (simp add: good_name_def)
  then show False by (simp add: tmp_name_def)
qed

lemma local_not_helper: "good_local x \<Longrightarrow> cc_safe_dup x \<noteq> ''amp_emit'' \<and> cc_safe_dup x \<noteq> ''amp_ktime''"
  using good_safe [of x] by (auto simp: good_name_def)

lemma tmp_not_helper: "''amp_emit'' \<noteq> tmp_name i" "''amp_ktime'' \<noteq> tmp_name i" "tmp_name i \<noteq> IVARS_MACRO"
  using tmp_plain(2) [of i] by auto

lemma locs_local:
  assumes "locs L q m" "x \<in> L" "in_ty S64 (rep v)"
  shows "locs L (q \<lparr> r_loc := (r_loc q)(x \<mapsto> v) \<rparr>) (m(cc_safe_dup x \<mapsto> rep v))"
proof -
  have g: "\<And>y. y \<in> L \<Longrightarrow> good_local y" using assms(1) by (simp add: locs_def)
  then have "\<And>y. y \<in> L \<Longrightarrow> cc_safe_dup y = cc_safe_dup x \<Longrightarrow> y = x" using safe_inj assms(2) by blast
  then show ?thesis using assms local_not_helper [OF g [OF assms(2)]] by (auto simp: locs_def r_get_def simp del: in_ty.simps)
qed

lemma locs_tmp: "locs L q m \<Longrightarrow> locs L q (m(tmp_name i \<mapsto> v))"
  using local_not_tmp by (auto simp: locs_def tmp_not_helper)

lemma locs_restrict: "locs L q m \<Longrightarrow> locs L q m0 \<Longrightarrow> locs L q (m |` dom m0)" for q
  by (auto simp: locs_def restrict_map_def)

lemma locs_dom: "locs L q m \<Longrightarrow> x \<in> L \<Longrightarrow> cc_safe_dup x \<in> dom m"
  by (auto simp: locs_def)

lemma fresh_mono: "fresh c m \<Longrightarrow> c \<le> c' \<Longrightarrow> fresh c' m"
  by (simp add: fresh_def)

lemma slot_nth: "x \<in> set R \<Longrightarrow> R ! slot R x = x"
  unfolding slot_def using nth_length_takeWhile [of "\<lambda>y. y \<noteq> x" R] slot_less [of R x] by (simp add: slot_def)

lemma addr_inj:
  assumes "x \<in> set R" "y \<in> set R" "length R \<le> AMP_MAX_IVARS" "addr E R x = addr E R y"
  shows "x = y"
proof -
  have s: "slot R x < 64" "slot R y < 64" using slot_64 assms by auto
  from assms(4) have "(ce_base E + 4 * int (slot R x)) mod 2 ^ 32 = (ce_base E + 4 * int (slot R y)) mod 2 ^ 32"
    by (simp add: addr_def)
  then have "4 * int (slot R x) mod 2 ^ 32 = 4 * int (slot R y) mod 2 ^ 32" by (simp add: mod_eq_dvd_iff)
  then have "slot R x = slot R y" using s by simp
  then show ?thesis using assms(1,2) slot_nth by metis
qed

lemma glob_store:
  assumes "glob E R q s" "x \<in> set R" "length R \<le> AMP_MAX_IVARS" "in_ty U32 (rep v)"
  shows "glob E R (q \<lparr> r_iv := (r_iv q)(x := v) \<rparr>) (s \<lparr> c_mem := (c_mem s)(addr E R x := rep v) \<rparr>)"
  using assms addr_inj [OF _ assms(2,3)] by (auto simp: glob_def simp del: in_ty.simps)

lemma glob_loc [simp]: "glob E R (q \<lparr> r_loc := m \<rparr>) s = glob E R q s" "glob E R q (s \<lparr> c_loc := n \<rparr>) = glob E R q s"
  by (simp_all add: glob_def)

lemma agrees_ticks: "ticks s s' \<Longrightarrow> r_loc q' = r_loc q \<Longrightarrow> agrees E R L c q s \<Longrightarrow> glob E R q' s' \<Longrightarrow> agrees E R L c q' s'"
  using ticks_facts(3) [of s s'] locs_cong [of q' q] by (simp add: agrees_def)

subsection \<open>What a run of the lowering is\<close>

definition keeps :: "nat \<Rightarrow> cstate \<Rightarrow> cstate \<Rightarrow> bool" where
  "keeps c s s' \<longleftrightarrow> (\<forall>i \<le> c. c_loc s' (tmp_name i) = c_loc s (tmp_name i)) \<and> dom (c_loc s) \<subseteq> dom (c_loc s')"

lemma keeps_facts: "keeps c s s" "keeps c s s' \<Longrightarrow> keeps c s' s'' \<Longrightarrow> keeps c s s''" "ticks s s' \<Longrightarrow> keeps c s s'"
  "keeps c' s s' \<Longrightarrow> c \<le> c' \<Longrightarrow> keeps c s s'"
proof -
  show "ticks s s' \<Longrightarrow> keeps c s s'" using ticks_facts(3) [of s s'] by (simp add: keeps_def)
qed (auto simp: keeps_def dest!: subsetD)

definition runs :: "cenv \<Rightarrow> string list \<Rightarrow> string set \<Rightarrow> nat \<Rightarrow> cstate \<Rightarrow> ist list \<times> CExpr option \<times> nat \<Rightarrow> routcome \<Rightarrow> bool" where
  "runs E R L c s l r =
     (case l of (is, v, c') \<Rightarrow> (case r of
        RNext x q' \<Rightarrow> (\<exists>s1 s2 T. c_execs E (map icst is) s = Some (CNext s1) \<and> c_eval E (ce_tree (value_of v)) s1 = Some (Some (T, rep x), s2) \<and>
          in_ty S64 (rep x) \<and> agrees E R L c' q' s2 \<and> ticks s1 s2 \<and> keeps c s s1 \<and> (v = None \<longrightarrow> x = RVNil))
      | RReturned x q' \<Rightarrow> (\<exists>s1. c_execs E (map icst is) s = Some (CReturned (conv I32 (rep x)) s1) \<and> glob E R q' s1)))"

lemma runs_returned: "runs E R L c s (is, v, c1) (RReturned x q') \<Longrightarrow> runs E R L c s (is @ js, w, c2) (RReturned x q')"
  by (auto simp: runs_def execs_append)

text \<open>A statement after those of the value it uses.\<close>

lemma runs_then:
  assumes "runs E R L c s (is, v, c1) (RNext x q)"
    "\<And>s1 s2 T. c_eval E (ce_tree (value_of v)) s1 = Some (Some (T, rep x), s2) \<Longrightarrow> in_ty S64 (rep x) \<Longrightarrow> agrees E R L c1 q s2 \<Longrightarrow> ticks s1 s2 \<Longrightarrow>
      runs E R L c1 s1 ([i], w, c1) r"
    "c \<le> c1"
  shows "runs E R L c s (is @ [i], w, c1) r"
proof -
  obtain s1 s2 T where s1: "c_execs E (map icst is) s = Some (CNext s1)" "c_eval E (ce_tree (value_of v)) s1 = Some (Some (T, rep x), s2)"
    "in_ty S64 (rep x)" "agrees E R L c1 q s2" "ticks s1 s2" "keeps c s s1"
    using assms(1) by (auto simp: runs_def simp del: in_ty.simps)
  have "runs E R L c1 s1 ([i], w, c1) r" by (rule assms(2) [OF s1(2-5)])
  then show ?thesis using s1(1) keeps_facts(2) [OF s1(6) keeps_facts(4) [OF _ assms(3)]]
    by (cases r) (fastforce simp: runs_def execs_append simp del: in_ty.simps)+
qed

lemma lw_counter:
  "c \<le> snd (snd (lw vd R s c))"
  "c \<le> snd (snd (lws vd R ss c))"
proof (induction vd R s c and vd R ss c rule: lw_lws.induct)
qed (force split: prod.splits simp: Let_def)+

definition sim :: "cenv \<Rightarrow> (nat \<Rightarrow> int) \<Rightarrow> string list \<Rightarrow> string set \<Rightarrow> bool \<Rightarrow> rst \<Rightarrow> bool" where
  "sim E clk R L vd s \<longleftrightarrow> (\<forall>c q st r. r_exec clk s q = Some r \<longrightarrow> agrees E R L c q st \<longrightarrow> runs E R L c st (lw vd R s c) r)"

definition sims :: "cenv \<Rightarrow> (nat \<Rightarrow> int) \<Rightarrow> string list \<Rightarrow> string set \<Rightarrow> bool \<Rightarrow> rst list \<Rightarrow> bool" where
  "sims E clk R L vd ss \<longleftrightarrow> (\<forall>c q st r. r_execs clk ss q = Some r \<longrightarrow> agrees E R L c q st \<longrightarrow> runs E R L c st (lws vd R ss c) r)"

lemma simD: "sim E clk R L vd s \<Longrightarrow> r_exec clk s q = Some r \<Longrightarrow> agrees E R L c q st \<Longrightarrow> runs E R L c st (lw vd R s c) r"
  by (simp add: sim_def)

lemma simsD: "sims E clk R L vd ss \<Longrightarrow> r_execs clk ss q = Some r \<Longrightarrow> agrees E R L c q st \<Longrightarrow> runs E R L c st (lws vd R ss c) r"
  by (simp add: sims_def)

lemma r_then_cases:
  assumes "r_then a f = Some r"
  obtains v q where "a = Some (RNext v q)" "f v q = Some r" | v q where "a = Some (RReturned v q)" "r = RReturned v q"
proof (cases a)
  case None
  then show thesis using assms by (simp add: r_then_def)
next
  case (Some b)
  then show thesis using assms that by (cases b) (auto simp: r_then_def)
qed

lemma sim_unary:
  assumes "sim E clk R L vd r" "\<And>q. r_exec clk s q = r_then (r_exec clk r q) f"
    "\<And>c. lw vd R s c = (let (is, v, c1) = lw vd R r c in (is @ [i v], w v, c1))"
    "\<And>c q s1 s2 T x v ro. c_eval E (ce_tree (value_of v)) s1 = Some (Some (T, rep x), s2) \<Longrightarrow> in_ty S64 (rep x) \<Longrightarrow> agrees E R L c q s2 \<Longrightarrow>
      ticks s1 s2 \<Longrightarrow> f x q = Some ro \<Longrightarrow> runs E R L c s1 ([i v], w v, c) ro"
  shows "sim E clk R L vd s"
  unfolding sim_def
proof (intro allI impI)
  fix c q st ro
  assume r: "r_exec clk s q = Some ro" and a: "agrees E R L c q st"
  obtain ir v c1 where l: "lw vd R r c = (ir, v, c1)" by (metis prod_cases3)
  have c1: "c \<le> c1" using lw_counter(1) [of c vd R r] l by simp
  have lw: "lw vd R s c = (ir @ [i v], w v, c1)" using assms(3) [of c] l by simp
  from r [unfolded assms(2)] show "runs E R L c st (lw vd R s c) ro" unfolding lw
  proof (cases rule: r_then_cases)
    case (1 x q1)
    have n: "runs E R L c st (ir, v, c1) (RNext x q1)" using simD [OF assms(1) 1(1) a] l by simp
    show "runs E R L c st (ir @ [i v], w v, c1) ro" using runs_then [OF n _ c1] assms(4) [OF _ _ _ _ 1(2)] by blast
  next
    case (2 x q1)
    have "runs E R L c st (ir, v, c1) (RReturned x q1)" using simD [OF assms(1) 2(1) a] l by simp
    then show "runs E R L c st (ir @ [i v], w v, c1) ro" unfolding 2(2) by (rule runs_returned)
  qed
qed

subsection \<open>Assignments, returns and output\<close>

lemma tree_safe: "good_local x \<Longrightarrow> ce_tree (CE_RAW (cc_safe_dup x)) = XId (cc_safe_dup x)"
  using tree_local by blast

lemma local_step:
  assumes "c_eval E (ce_tree e) s1 = Some (Some (T, rep y), s2)" "in_ty S64 (rep y)" "agrees E R L c q s2" "ticks s1 s2" "x \<in> L"
  shows "runs E R L c s1 ([IAsg (CE_RAW (cc_safe_dup x)) e], Some (CE_RAW (cc_safe_dup x)), c) (RNext y (q \<lparr> r_loc := (r_loc q)(x \<mapsto> y) \<rparr>))"
proof -
  let ?s = "s2 \<lparr> c_loc := (c_loc s2)(cc_safe_dup x \<mapsto> rep y) \<rparr>"
  have l: "locs L q (c_loc s2)" using assms(3) by (simp add: agrees_def)
  have g: "good_local x" using l assms(5) by (simp add: locs_def)
  have d: "c_loc s2 (cc_safe_dup x) \<noteq> None" using locs_dom [OF l assms(5)] by auto
  have "c_execs E (map icst [IAsg (CE_RAW (cc_safe_dup x)) e]) s1 = Some (CNext ?s)"
    using assms(1) d conv_id [OF assms(2)] unfolding icst.simps list.map tree_safe [OF g] by (simp add: c_assign_def)
  moreover have "c_eval E (ce_tree (CE_RAW (cc_safe_dup x))) ?s = Some (Some (S64, rep y), ?s)"
    unfolding tree_safe [OF g] using tree_local [OF g] by simp
  moreover have "agrees E R L c (q \<lparr> r_loc := (r_loc q)(x \<mapsto> y) \<rparr>) ?s"
    using assms(3) locs_local [OF l assms(5,2)] local_not_tmp [OF g, symmetric] by (auto simp: agrees_def fresh_def)
  moreover have "keeps c s1 ?s"
    using ticks_facts(3) [OF assms(4)] local_not_tmp [OF g, symmetric] by (auto simp: keeps_def)
  ultimately show ?thesis using assms(2) ticks_facts(1) by (auto simp: runs_def simp del: in_ty.simps ce_tree.simps)
qed

lemma ivar_step:
  assumes "c_eval E (ce_tree e) s1 = Some (Some (T, rep y), s2)" "in_ty U32 (rep y)" "agrees E R L c q s2" "ticks s1 s2" "x \<in> set R" "length R \<le> AMP_MAX_IVARS"
  shows "runs E R L c s1 ([IAsg (iv_lv R x) e], Some (iv_lv R x), c) (RNext y (q \<lparr> r_iv := (r_iv q)(x := y) \<rparr>))"
proof -
  let ?s = "s2 \<lparr> c_mem := (c_mem s2)(addr E R x := rep y) \<rparr>" and ?q = "q \<lparr> r_iv := (r_iv q)(x := y) \<rparr>"
  have "c_assign E (ce_tree (iv_lv R x)) (rep y) s2 = Some (CNext ?s)"
    using eval_addr [OF slot_64 [OF assms(5,6)], of E s2] conv_id [OF assms(2)] unfolding iv_tree by (simp add: c_assign_def del: c_eval.simps(5) conv.simps)
  then have "c_execs E (map icst [IAsg (iv_lv R x) e]) s1 = Some (CNext ?s)" using assms(1) by simp
  moreover have g: "glob E R ?q ?s" using assms(2,3,5,6) by (intro glob_store) (simp_all add: agrees_def)
  moreover have "c_eval E (ce_tree (iv_lv R x)) ?s = Some (Some (U32, rep y), ?s)" using eval_ivar(1) [OF assms(5,6) g] by simp
  moreover have "agrees E R L c ?q ?s" using g assms(3) locs_cong [of ?q q] by (simp add: agrees_def)
  moreover have "keeps c s1 ?s" using ticks_facts(3) [OF assms(4)] by (simp add: keeps_def)
  moreover have "in_ty S64 (rep y)" using in_ty_S64 [OF assms(2)] by blast
  ultimately show ?thesis using ticks_facts(1) by (auto simp: runs_def simp del: in_ty.simps ce_tree.simps)
qed

lemma tree_zero: "ce_tree (CE_RAW ''0'') = XNum ''0''"
  by code_simp

lemma eval_zero: "c_eval E (ce_tree (CE_RAW ''0'')) s = Some (Some (I32, 0), s)"
proof -
  have "c_literal ''0'' = Some (I32, 0)" by code_simp
  then show ?thesis unfolding tree_zero by simp
qed

lemma emit_step:
  assumes "c_eval E (ce_tree e) s1 = Some (Some (T, rep y), s2)" "agrees E R L c q s2" "ticks s1 s2"
  shows "runs E R L c s1 ([IExp (CE_CALL ''amp_emit'' [e])], Some (CE_RAW ''0''), c) (RNext RVNil (q \<lparr> r_out := r_out q @ [conv U64 (rep y)] \<rparr>))"
proof -
  let ?s = "s2 \<lparr> c_out := c_out s2 @ [conv U64 (rep y)] \<rparr>" and ?q = "q \<lparr> r_out := r_out q @ [conv U64 (rep y)] \<rparr>"
  have n: "c_loc s1 ''amp_emit'' = None" using assms(2) ticks_facts(3) [OF assms(3)] by (simp add: agrees_def locs_def)
  have "c_execs E (map icst [IExp (CE_CALL ''amp_emit'' [e])]) s1 = Some (CNext ?s)" using assms(1) n by (simp del: conv.simps)
  moreover have "agrees E R L c ?q ?s" using assms(2) locs_cong [of ?q q] by (auto simp: agrees_def glob_def)
  moreover have "keeps c s1 ?s" using ticks_facts(3) [OF assms(3)] by (simp add: keeps_def)
  ultimately show ?thesis using ticks_facts(1) eval_zero [of E ?s] by (auto simp: runs_def simp del: ce_tree.simps conv.simps)
qed

lemma ret_step:
  assumes "c_eval E (ce_tree e) s1 = Some (Some (T, rep y), s2)" "agrees E R L c q s2"
  shows "runs E R L c s1 ([IRet (Some e)], w, c) (RReturned y q)"
  using assms by (simp add: runs_def agrees_def del: conv.simps)

subsection \<open>Branches\<close>

text \<open>The block of a branch, left: its value is in the temporary of the \<open>if\<close>.\<close>

definition branch_runs :: "cenv \<Rightarrow> string list \<Rightarrow> string set \<Rightarrow> nat \<Rightarrow> cstate \<Rightarrow> ist list \<Rightarrow> routcome \<Rightarrow> bool" where
  "branch_runs E R L c s is r =
     (case r of
        RNext x q \<Rightarrow> (\<exists>s'. map_option (leave_block s) (c_execs E (map icst is) s) = Some (CNext s') \<and> c_loc s' (tmp_name (Suc c)) = Some (rep x) \<and>
          in_ty S64 (rep x) \<and> agrees E R L (Suc c) q s' \<and> keeps c s s')
      | RReturned x q \<Rightarrow> (\<exists>s'. map_option (leave_block s) (c_execs E (map icst is) s) = Some (CReturned (conv I32 (rep x)) s') \<and> glob E R q s'))"

lemma tree_tmp: "ce_tree (CE_RAW (tmp_name c)) = XId (tmp_name c)"
  using tmp_word by simp

lemma left_agrees:
  assumes "agrees E R L c q s" "locs L q0 (c_loc s0)" "fresh c0 (c_loc s0)"
  shows "agrees E R L c0 q (s \<lparr> c_loc := c_loc s |` dom (c_loc s0) \<rparr>)"
proof -
  have "locs L q (c_loc s |` dom (c_loc s0))"
    using assms(1,2) by (auto simp: agrees_def locs_def restrict_map_def simp del: in_ty.simps)
  moreover have "fresh c0 (c_loc s |` dom (c_loc s0))" using assms(3) by (auto simp: fresh_def restrict_map_def)
  ultimately show ?thesis using assms(1) by (simp add: agrees_def)
qed

lemma branch_sim:
  assumes "runs E R L (Suc c) s (is, v, c1) r" "agrees E R L (Suc c) q0 s" "c_loc s (tmp_name (Suc c)) = Some 0"
  shows "branch_runs E R L c s (is @ tmp_asg (Suc c) v) r"
proof (cases r)
  case (RReturned x q)
  then show ?thesis using assms(1) by (auto simp: runs_def branch_runs_def execs_append leave_block_def)
next
  case (RNext x q)
  let ?t = "tmp_name (Suc c)"
  obtain s1 s2 T where s1: "c_execs E (map icst is) s = Some (CNext s1)" "c_eval E (ce_tree (value_of v)) s1 = Some (Some (T, rep x), s2)"
    "in_ty S64 (rep x)" "agrees E R L c1 q s2" "ticks s1 s2" "keeps (Suc c) s s1" "v = None \<longrightarrow> x = RVNil"
    using assms(1) RNext by (auto simp: runs_def simp del: in_ty.simps)
  have t: "c_loc s1 ?t = Some 0" using s1(6) assms(3) by (simp add: keeps_def)
  have "\<exists>s3. c_execs E (map icst (is @ tmp_asg (Suc c) v)) s = Some (CNext s3) \<and> c_loc s3 ?t = Some (rep x) \<and>
    (agrees E R L c1 q s3 \<or> agrees E R L (max (Suc c) c1) q s3) \<and> keeps c s s3"
  proof (cases v)
    case None
    then have "s2 = s1" using s1(2) eval_zero [of E s1] by simp
    then show ?thesis using None s1 t keeps_facts(4) [OF s1(6), of c] by (auto simp: tmp_asg_def)
  next
    case (Some e)
    let ?s = "s2 \<lparr> c_loc := (c_loc s2)(?t \<mapsto> rep x) \<rparr>"
    have "c_execs E (map icst [IAsg (CE_RAW ?t) e]) s1 = Some (CNext ?s)"
      using s1(2) Some t ticks_facts(3) [OF s1(5)] conv_id [OF s1(3)] unfolding icst.simps list.map tree_tmp by (simp add: c_assign_def)
    then have "c_execs E (map icst (is @ tmp_asg (Suc c) v)) s = Some (CNext ?s)" using s1(1) Some by (simp add: tmp_asg_def execs_append)
    moreover have "agrees E R L (max (Suc c) c1) q ?s"
      using s1(4) locs_tmp by (auto simp: agrees_def fresh_def tmp_inj)
    moreover have "keeps c s ?s" using s1(6) ticks_facts(3) [OF s1(5)] by (auto simp: keeps_def tmp_inj)
    ultimately show ?thesis by auto
  qed
  then obtain s3 k where s3: "c_execs E (map icst (is @ tmp_asg (Suc c) v)) s = Some (CNext s3)" "c_loc s3 ?t = Some (rep x)"
    "agrees E R L k q s3" "keeps c s s3" by blast
  let ?s = "s3 \<lparr> c_loc := c_loc s3 |` dom (c_loc s) \<rparr>"
  have "agrees E R L (Suc c) q ?s" using assms(2) by (intro left_agrees [OF s3(3), of q0]) (simp_all add: agrees_def)
  moreover have "keeps c s ?s" using s3(4) by (simp add: keeps_def Int_absorb1) (auto simp: restrict_map_def)
  moreover have "c_loc ?s ?t = Some (rep x)" using s3(2) assms(3) by (auto simp: restrict_map_def)
  ultimately show ?thesis using RNext s3(1) s1(3) by (simp add: branch_runs_def leave_block_def)
qed

lemma left_self: "leave_block s (CNext s) = CNext s"
proof -
  have "c_loc s |` dom (c_loc s) = c_loc s" by (rule ext) (simp add: restrict_map_def domIff)
  then show ?thesis by (simp add: leave_block_def)
qed

lemma if_decl:
  assumes "agrees E R L c q s"
  shows "c_exec E (icst (IDecl (tmp_name (Suc c)))) s = Some (CNext (s \<lparr> c_loc := (c_loc s)(tmp_name (Suc c) \<mapsto> 0) \<rparr>))"
    "agrees E R L (Suc c) q (s \<lparr> c_loc := (c_loc s)(tmp_name (Suc c) \<mapsto> 0) \<rparr>)"
    "keeps c s (s \<lparr> c_loc := (c_loc s)(tmp_name (Suc c) \<mapsto> 0) \<rparr>)"
proof -
  have n: "c_loc s (tmp_name (Suc c)) = None" using assms by (simp add: agrees_def fresh_def)
  show "c_exec E (icst (IDecl (tmp_name (Suc c)))) s = Some (CNext (s \<lparr> c_loc := (c_loc s)(tmp_name (Suc c) \<mapsto> 0) \<rparr>))"
    using eval_zero [of E s] n tmp_not_helper(3) unfolding tree_zero by simp
  show "agrees E R L (Suc c) q (s \<lparr> c_loc := (c_loc s)(tmp_name (Suc c) \<mapsto> 0) \<rparr>)"
    using assms locs_tmp by (auto simp: agrees_def fresh_def tmp_inj)
  show "keeps c s (s \<lparr> c_loc := (c_loc s)(tmp_name (Suc c) \<mapsto> 0) \<rparr>)" by (auto simp: keeps_def tmp_inj)
qed

lemma branch_value:
  assumes "branch_runs E R L c s1 is r" "c_execs E (map icst js) s = map_option (leave_block s1) (c_execs E (map icst is) s1)"
    "keeps c s s1" "Suc c \<le> c2"
  shows "runs E R L c s (js, Some (CE_RAW (tmp_name (Suc c))), c2) r"
proof (cases r)
  case (RNext x q)
  then obtain s' where s': "c_execs E (map icst js) s = Some (CNext s')" "c_loc s' (tmp_name (Suc c)) = Some (rep x)"
      "in_ty S64 (rep x)" "agrees E R L (Suc c) q s'" "keeps c s1 s'"
    using assms(1) unfolding branch_runs_def assms(2) [symmetric] by auto
  have "c_eval E (ce_tree (CE_RAW (tmp_name (Suc c)))) s' = Some (Some (S64, rep x), s')"
    unfolding tree_tmp using s'(2) tmp_not_helper(3) by simp
  moreover have "agrees E R L c2 q s'" using s'(4) fresh_mono assms(4) by (auto simp: agrees_def)
  ultimately show ?thesis using s' RNext keeps_facts(2) [OF assms(3) s'(5)] ticks_facts(1)
    by (auto simp: runs_def simp del: ce_tree.simps in_ty.simps)
next
  case (RReturned x q)
  then show ?thesis using assms(1) unfolding runs_def branch_runs_def assms(2) [symmetric] by auto
qed

subsection \<open>Every statement\<close>

definition st_in :: "string list \<Rightarrow> string set \<Rightarrow> rst \<Rightarrow> bool" where
  "st_in R L s \<longleftrightarrow> st_ops s \<and> set (st_locals s) \<subseteq> L \<and> set (st_ivars s) \<subseteq> set R"

lemma st_in_simps [simp]:
  "st_in R L (SVal e) = exp_in R L e"
  "st_in R L (SLocal x r) = (x \<in> L \<and> st_in R L r)"
  "st_in R L (SIvar x r) = (x \<in> set R \<and> st_in R L r)"
  "st_in R L (SOp x op e) = (x \<in> set R \<and> op \<in> {''+'', ''-'', ''*''} \<and> exp_in R L e)"
  "st_in R L SRet0" "st_in R L (SRet r) = st_in R L r" "st_in R L (SEmit r) = st_in R L r"
  "st_in R L (SIf c t) = (exp_in R L c \<and> list_all (st_in R L) t)"
  "st_in R L (SIfElse c t f) = (exp_in R L c \<and> list_all (st_in R L) t \<and> list_all (st_in R L) f)"
  by (auto simp: st_in_def exp_in_def list_all_iff)

lemma agreesD: "agrees E R L c q s \<Longrightarrow> glob E R q s" "agrees E R L c q s \<Longrightarrow> locs L q (c_loc s)" "agrees E R L c q s \<Longrightarrow> fresh c (c_loc s)"
  by (simp_all add: agrees_def)

text \<open>An expression, from states that agree.\<close>

lemma eval_agrees:
  assumes "ce_clock E = clk" "length R \<le> AMP_MAX_IVARS" "exp_in R L e" "agrees E R L c q s" "r_eval clk e q = Some (x, q')"
  obtains s' where "c_eval E (ce_tree (ax R e)) s = Some (Some (ctype e, rep x), s')" "in_ty (ctype e) (rep x)" "agrees E R L c q' s'" "ticks s s'"
proof -
  have "eval_ok E R e q s x q'" by (rule eval_sim [OF assms(1-3) agreesD(2,1) [OF assms(4)] assms(5)])
  then show thesis using that agrees_ticks [OF _ _ assms(4)] unfolding eval_ok_def by blast
qed

lemma sim_val:
  assumes "ce_clock E = clk" "length R \<le> AMP_MAX_IVARS" "exp_in R L e"
  shows "sim E clk R L vd (SVal e)"
  unfolding sim_def
proof (intro allI impI)
  fix c q st r
  assume r: "r_exec clk (SVal e) q = Some r" and a: "agrees E R L c q st"
  obtain x q' where x: "r_eval clk e q = Some (x, q')" "r = RNext x q'" using r by auto
  obtain s' where "c_eval E (ce_tree (ax R e)) st = Some (Some (ctype e, rep x), s')" "in_ty (ctype e) (rep x)" "agrees E R L c q' s'" "ticks st s'"
    using eval_agrees [OF assms a x(1)] .
  then show "runs E R L c st (lw vd R (SVal e) c) r"
    using in_ty_S64 [OF _ ctype_not_U64] keeps_facts(1) unfolding x(2) by (auto simp: runs_def simp del: in_ty.simps)
qed

lemma sim_op:
  assumes "ce_clock E = clk" "length R \<le> AMP_MAX_IVARS" "exp_in R L e" "x \<in> set R" "op \<in> {''+'', ''-'', ''*''}"
  shows "sim E clk R L vd (SOp x op e)"
  unfolding sim_def
proof (intro allI impI)
  fix c q st r
  assume r: "r_exec clk (SOp x op e) q = Some r" and ag: "agrees E R L c q st"
  from r obtain a where a: "r_iv q x = RVInt a" by (cases "r_iv q x") auto
  from r a obtain y q1 where y: "r_eval clk e q = Some (y, q1)" by (cases "r_eval clk e q") auto
  from r a y obtain b where b: "y = RVInt b" by (cases y) auto
  from r a y b obtain v where v: "r_binop op U32 (ctype e) a b = Some v" by (cases "r_binop op U32 (ctype e) a b") auto
  from r a y b v have o: "in_ty U32 (rep v)" "r = RNext v (q1 \<lparr> r_iv := (r_iv q1)(x := v) \<rparr>)" by (auto split: if_splits)
  obtain s' where s': "c_eval E (ce_tree (ax R e)) st = Some (Some (ctype e, b), s')" "in_ty (ctype e) b" "agrees E R L c q1 s'" "ticks st s'"
    using eval_agrees [OF assms(1-3) ag y] b by (auto simp del: in_ty.simps)
  have iv: "c_eval E (ce_tree (iv_lv R x)) st = Some (Some (U32, a), st)" "in_ty U32 a"
    using eval_ivar [OF assms(4,2) agreesD(1) [OF ag]] a by (simp_all del: in_ty.simps)
  have op: "\<not> (op = ''&&'' \<or> op = ''||'')" using assms(5) by auto
  have h: "\<not> (has_call (ce_tree (iv_lv R x)) \<and> has_call (ce_tree (ax R e)))" unfolding iv_tree by simp
  have "c_eval E (ce_tree (CE_BINOP op (iv_lv R x) (CE_PAREN (ax R e)))) st = Some (Some (op_type op U32 (ctype e), rep v), s')"
    unfolding ce_tree.simps eval_binop [OF op h iv(1) s'(1)] using c_binop_r_binop [OF v iv(2) s'(2)] by simp
  from ivar_step [OF this o(1) s'(3,4) assms(4,2)] show "runs E R L c st (lw vd R (SOp x op e) c) r" unfolding o(2) by simp
qed

lemma sim_if:
  assumes "ce_clock E = clk" "length R \<le> AMP_MAX_IVARS" "exp_in R L e" "sims E clk R L vd t"
  shows "sim E clk R L vd (SIf e t)"
  unfolding sim_def
proof (intro allI impI)
  fix c q st r
  assume r: "r_exec clk (SIf e t) q = Some r" and ag: "agrees E R L c q st"
  let ?s = "st \<lparr> c_loc := (c_loc st)(tmp_name (Suc c) \<mapsto> 0) \<rparr>"
  note d = if_decl [OF ag]
  from r obtain y q1 where y: "r_eval clk e q = Some (y, q1)" by (cases "r_eval clk e q") auto
  from r y obtain p where p: "y = RVBool p" by (cases y) auto
  obtain s1 where s1: "c_eval E (ce_tree (ax R e)) ?s = Some (Some (ctype e, of_bool p), s1)" "agrees E R L (Suc c) q1 s1" "ticks ?s s1"
    using eval_agrees [OF assms(1-3) d(2) y] p by auto
  have k: "keeps c st s1" using keeps_facts(2) [OF d(3) keeps_facts(3) [OF s1(3)]] .
  have z: "c_loc s1 (tmp_name (Suc c)) = Some 0" using ticks_facts(3) [OF s1(3)] by simp
  obtain ti tv c1 where l: "lws vd R t (Suc c) = (ti, tv, c1)" by (metis prod_cases3)
  have c1: "Suc c \<le> c1" using lw_counter(2) [of "Suc c" vd R t] l by simp
  have ex: "c_execs E (map icst [IDecl (tmp_name (Suc c)), IIf (ax R e) b]) st =
      (if p then map_option (leave_block s1) (c_execs E (map icst b) s1) else Some (CNext s1))" for b
    unfolding list.map execs_next [OF d(1)] exec_single using s1(1) by (simp add: c_truth_def)
  show "runs E R L c st (lw vd R (SIf e t) c) r"
  proof (cases p)
    case True
    have "runs E R L (Suc c) s1 (ti, tv, c1) r" using simsD [OF assms(4) _ s1(2)] r y p True l by simp
    from branch_sim [OF this s1(2) z] show ?thesis
      unfolding lw.simps l Let_def prod.case by (rule branch_value) (use ex True k c1 in \<open>simp_all only: if_True\<close>)
  next
    case False
    then have rr: "r = RNext RVNil q1" using r y p by simp
    have "branch_runs E R L c s1 [] r" unfolding rr branch_runs_def using s1(2) z keeps_facts(1) left_self by simp
    then show ?thesis
      unfolding lw.simps l Let_def prod.case by (rule branch_value) (use ex False k c1 left_self in \<open>simp_all only: if_False list.map c_execs.simps option.map\<close>)
  qed
qed

lemma sim_if_else:
  assumes "ce_clock E = clk" "length R \<le> AMP_MAX_IVARS" "exp_in R L e" "sims E clk R L vd t" "sims E clk R L vd f"
  shows "sim E clk R L vd (SIfElse e t f)"
  unfolding sim_def
proof (intro allI impI)
  fix c q st r
  assume r: "r_exec clk (SIfElse e t f) q = Some r" and ag: "agrees E R L c q st"
  let ?s = "st \<lparr> c_loc := (c_loc st)(tmp_name (Suc c) \<mapsto> 0) \<rparr>"
  note d = if_decl [OF ag]
  from r obtain y q1 where y: "r_eval clk e q = Some (y, q1)" by (cases "r_eval clk e q") auto
  from r y obtain p where p: "y = RVBool p" by (cases y) auto
  obtain s1 where s1: "c_eval E (ce_tree (ax R e)) ?s = Some (Some (ctype e, of_bool p), s1)" "agrees E R L (Suc c) q1 s1" "ticks ?s s1"
    using eval_agrees [OF assms(1-3) d(2) y] p by auto
  have k: "keeps c st s1" using keeps_facts(2) [OF d(3) keeps_facts(3) [OF s1(3)]] .
  have z: "c_loc s1 (tmp_name (Suc c)) = Some 0" using ticks_facts(3) [OF s1(3)] by simp
  obtain ti tv c1 where l: "lws vd R t (Suc c) = (ti, tv, c1)" by (metis prod_cases3)
  obtain fi fv c2 where m: "lws vd R f c1 = (fi, fv, c2)" by (metis prod_cases3)
  have c1: "Suc c \<le> c1" "c1 \<le> c2" using lw_counter(2) [of "Suc c" vd R t] lw_counter(2) [of c1 vd R f] l m by simp_all
  have ex: "c_execs E (map icst [IDecl (tmp_name (Suc c)), IIfElse (ax R e) a b]) st =
      map_option (leave_block s1) (if p then c_execs E (map icst a) s1 else c_execs E (map icst b) s1)" for a b
    unfolding list.map execs_next [OF d(1)] exec_single using s1(1) by (simp add: c_truth_def)
  let ?br = "if p then ti @ tmp_asg (Suc c) tv else fi @ tmp_asg (Suc c) fv"
  have "branch_runs E R L c s1 ?br r"
  proof (cases p)
    case True
    have "runs E R L (Suc c) s1 (ti, tv, c1) r" using simsD [OF assms(4) _ s1(2)] r y p True l by simp
    from branch_sim [OF this s1(2) z] show ?thesis using True by simp
  next
    case False
    have "agrees E R L c1 q1 s1" using s1(2) fresh_mono c1(1) by (auto simp: agrees_def)
    from simsD [OF assms(5) _ this] have "runs E R L c1 s1 (fi, fv, c2) r" using r y p False m by simp
    then have "runs E R L (Suc c) s1 (fi, fv, c2) r"
      using keeps_facts(4) [OF _ c1(1)] by (cases r) (fastforce simp: runs_def simp del: in_ty.simps)+
    from branch_sim [OF this s1(2) z] show ?thesis using False by simp
  qed
  then show "runs E R L c st (lw vd R (SIfElse e t f) c) r"
    unfolding lw.simps l m Let_def prod.case by (rule branch_value) (use ex k c1 in \<open>simp_all only: if_distrib [of "map icst"] if_distrib [of "\<lambda>x. c_execs E x s1"]\<close>)
qed

text \<open>The value of a statement that emits code has no effect, so it may be left unevaluated.\<close>

lemma quiet_raw: "c_eval E (ce_tree (CE_RAW t)) s = Some (x, s') \<Longrightarrow> s' = s"
  by (auto split: if_splits option.splits)

lemma quiet_ivar: "c_eval E (ce_tree (iv_lv R x)) s = Some (y, s') \<Longrightarrow> s' = s"
  unfolding iv_tree by (auto split: option.splits simp: has_call.simps)

lemma quiet_value:
  assumes "lw vd R s c = (is, v, c')" "is \<noteq> []" "c_eval E (ce_tree (value_of v)) s1 = Some (x, s2)"
  shows "s2 = s1"
proof -
  have "(\<exists>t. value_of v = CE_RAW t) \<or> (\<exists>x. value_of v = iv_lv R x)"
    using assms(1,2) by (cases s) (auto split: prod.splits simp: Let_def)
  then show ?thesis using assms(3) quiet_raw quiet_ivar by metis
qed

lemma void_line_runs:
  assumes "lw vd R s c = (is, v, c1)" "st_in R L s" "c_eval E (ce_tree (value_of v)) s1 = Some (Some x, s2)" "agrees E R L c2 q s2" "ticks s1 s2"
  shows "c_execs E (map icst (void_line is v)) s1 = Some (CNext s2)"
proof (cases "is = []")
  case True
  then obtain e where e: "s = SVal e" using lw_Nil assms(1) by blast
  have "list_all good_local (exp_locals e)" using assms(2,4) e by (auto simp: exp_in_def agrees_def locs_def list_all_iff)
  then have "ce_ok (ax R e)" using ax_ok assms(2) e by (simp add: exp_in_def)
  from ok_reads(1) [OF this] have "pr (ax R e) \<noteq> []" by (auto simp: plain_start_def)
  moreover have "c_lex ''void'' = [TId ''void'']" by code_simp
  ultimately show ?thesis using assms(1,3) e True by (auto simp: void_line_def exec_single)
next
  case False
  then have "void_line is v = []" by (auto simp: void_line_def split: option.split)
  then show ?thesis using quiet_value [OF assms(1) False assms(3)] by simp
qed

lemma sims_list:
  assumes "\<forall>s \<in> set ss. sim E clk R L vd s \<and> st_in R L s"
  shows "sims E clk R L vd ss"
  using assms
proof (induction ss)
  case Nil
  then show ?case using eval_zero keeps_facts(1) ticks_facts(1) by (auto simp: sims_def runs_def simp del: ce_tree.simps)
next
  case (Cons s ss)
  show ?case unfolding sims_def
  proof (intro allI impI)
    fix c q st r
    assume r: "r_execs clk (s # ss) q = Some r" and ag: "agrees E R L c q st"
    obtain ir v c1 where l: "lw vd R s c = (ir, v, c1)" by (metis prod_cases3)
    obtain js w c2 where m: "lws vd R ss c1 = (js, w, c2)" by (metis prod_cases3)
    have c1: "c \<le> c1" using lw_counter(1) [of c vd R s] l by simp
    have S: "sim E clk R L vd s" using Cons.prems by simp
    from r [unfolded r_execs.simps] show "runs E R L c st (lws vd R (s # ss) c) r"
    proof (cases rule: r_then_cases)
      case (2 x q1)
      then have "runs E R L c st (ir, v, c1) r" using simD [OF S 2(1) ag] l by simp
      then show ?thesis using 2(2) l m runs_returned by (auto split: prod.splits)
    next
      case (1 x q1)
      then have n: "runs E R L c st (ir, v, c1) (RNext x q1)" using simD [OF S 1(1) ag] l by simp
      show ?thesis
      proof (cases "ss = []")
        case True
        then show ?thesis using n 1(2) l by simp
      next
        case False
        obtain s1 s2 T where s1: "c_execs E (map icst ir) st = Some (CNext s1)" "c_eval E (ce_tree (value_of v)) s1 = Some (Some (T, rep x), s2)"
          "agrees E R L c1 q1 s2" "ticks s1 s2" "keeps c st s1"
          using n by (auto simp: runs_def simp del: in_ty.simps)
        have "c_execs E (map icst (void_line ir v)) s1 = Some (CNext s2)"
          by (rule void_line_runs [OF l _ s1(2,3,4)]) (use Cons.prems in simp)
        then have e: "c_execs E (map icst (ir @ void_line ir v @ js)) st = c_execs E (map icst js) s2"
          using s1(1) by (simp add: execs_append)
        have "runs E R L c1 s2 (js, w, c2) r" using simsD [OF Cons.IH, of q1 r c1 s2] Cons.prems 1(2) False s1(3) m by simp
        then have "runs E R L c st (ir @ void_line ir v @ js, w, c2) r"
          using e keeps_facts(2) [OF keeps_facts(2) [OF s1(5) keeps_facts(3) [OF s1(4)]] keeps_facts(4) [OF _ c1]]
          by (cases r) (fastforce simp: runs_def simp del: in_ty.simps map_append)+
        then show ?thesis using False l m by simp
      qed
    qed
  qed
qed

theorem all_sim:
  assumes "ce_clock E = clk" "length R \<le> AMP_MAX_IVARS" "st_in R L s" "vd \<Longrightarrow> \<not> returns s"
  shows "sim E clk R L vd s"
  using assms(3,4)
proof (induction s)
  case (SVal e)
  then show ?case using sim_val [OF assms(1,2)] by simp
next
  case (SLocal x r)
  then have x: "x \<in> L" and r: "sim E clk R L vd r" by auto
  show ?case
  proof (rule sim_unary [OF r r_exec.simps(2) lw.simps(2)])
    fix c q s1 s2 T y v ro
    assume a: "c_eval E (ce_tree (value_of v)) s1 = Some (Some (T, rep y), s2)" "in_ty S64 (rep y)" "agrees E R L c q s2" "ticks s1 s2"
      and ro: "Some (RNext y (q \<lparr> r_loc := (r_loc q)(x \<mapsto> y) \<rparr>)) = Some ro"
    show "runs E R L c s1 ([IAsg (CE_RAW (cc_safe_dup x)) (value_of v)], Some (CE_RAW (cc_safe_dup x)), c) ro"
      using local_step [OF a x] ro by simp
  qed
next
  case (SIvar x r)
  then have x: "x \<in> set R" and r: "sim E clk R L vd r" by auto
  show ?case
  proof (rule sim_unary [OF r r_exec.simps(3) lw.simps(3)])
    fix c q s1 s2 T y v ro
    assume a: "c_eval E (ce_tree (value_of v)) s1 = Some (Some (T, rep y), s2)" "agrees E R L c q s2" "ticks s1 s2"
      and ro: "(if in_ty U32 (rep y) then Some (RNext y (q \<lparr> r_iv := (r_iv q)(x := y) \<rparr>)) else None) = Some ro"
    have y: "in_ty U32 (rep y)" "ro = RNext y (q \<lparr> r_iv := (r_iv q)(x := y) \<rparr>)" using ro by (simp_all del: in_ty.simps split: if_splits)
    show "runs E R L c s1 ([IAsg (iv_lv R x) (CE_PAREN (value_of v))], Some (iv_lv R x), c) ro"
      unfolding y(2) by (rule ivar_step [OF _ y(1) a(2,3) x assms(2)]) (simp add: a(1))
  qed
next
  case (SOp x op e)
  then show ?case using sim_op [OF assms(1,2)] by simp
next
  case SRet0
  then have "\<not> vd" by auto
  then have "runs E R L c s (lw vd R SRet0 c) (RReturned RVNil q)" if "agrees E R L c q s" for c q s
    using eval_zero [of E s] ret_step [of E "CE_RAW ''0''" s I32 RVNil s R L c q None] that by (simp del: ce_tree.simps)
  then show ?case by (auto simp: sim_def)
next
  case (SRet r)
  then have r: "sim E clk R L vd r" by auto
  show ?case
  proof (rule sim_unary [OF r r_exec.simps(6) lw.simps(6)])
    fix c q s1 s2 T y v ro
    assume a: "c_eval E (ce_tree (value_of v)) s1 = Some (Some (T, rep y), s2)" "agrees E R L c q s2" and ro: "Some (RReturned y q) = Some ro"
    show "runs E R L c s1 ([IRet (Some (value_of v))], None, c) ro" using ret_step [OF a] ro by simp
  qed
next
  case (SEmit r)
  then have r: "sim E clk R L vd r" by auto
  show ?case
  proof (rule sim_unary [OF r r_exec.simps(7) lw.simps(7)])
    fix c q s1 s2 T y v ro
    assume a: "c_eval E (ce_tree (value_of v)) s1 = Some (Some (T, rep y), s2)" "agrees E R L c q s2" "ticks s1 s2"
      and ro: "Some (RNext RVNil (q \<lparr> r_out := r_out q @ [conv U64 (rep y)] \<rparr>)) = Some ro"
    show "runs E R L c s1 ([IExp (CE_CALL ''amp_emit'' [value_of v])], Some (CE_RAW ''0''), c) ro"
      using emit_step [OF a] ro by simp
  qed
next
  case (SIf c t)
  then show ?case by (intro sim_if assms(1,2) sims_list) (auto simp: list_all_iff list_ex_iff)
next
  case (SIfElse c t f)
  then show ?case by (intro sim_if_else assms(1,2) sims_list) (auto simp: list_all_iff list_ex_iff)
qed

end
