(* ===== verification/Cc_Amp_Sound.thy ===== *)
theory Cc_Amp_Sound
  imports Cc_Amp_Exec Cc_Amp_Locals
begin

text \<open>
  The generator for the real-time core is correct: the text of each handler, read and executed as C,
  has the effect of the Ruby handler.
\<close>

subsection \<open>Memory\<close>

fun stores :: "string list \<Rightarrow> ist \<Rightarrow> bool" where
  "stores R (IAsg l e) = ((\<exists>y. l = CE_RAW y \<and> c_word y) \<or> (\<exists>x \<in> set R. l = iv_lv R x))"
| "stores R (IIf c t) = list_all (stores R) t"
| "stores R (IIfElse c t f) = (list_all (stores R) t \<and> list_all (stores R) f)"
| "stores R _ = True"

lemma truth_state: "Option.bind r c_truth = Some (p, s1) \<Longrightarrow> \<exists>x. r = Some (x, s1)"
  by (cases r) (auto simp: c_truth_def split: option.splits)

lemma eval_mem: "c_eval E a s = Some (v, s') \<Longrightarrow> c_mem s' = c_mem s"
proof (induction E a s arbitrary: v s' rule: c_eval.induct)
  case (3 E ty a s)
  then show ?case by (auto split: if_splits option.splits)
next
  case (4 E op a s)
  show ?case
  proof (cases "op = ''-''")
    case True
    then show ?thesis using 4 by (auto split: option.splits)
  next
    case False
    then show ?thesis using 4 by (cases a) (auto split: if_splits option.splits)
  qed
next
  case (5 E op a b s)
  show ?case
  proof (cases "op = ''&&'' \<or> op = ''||''")
    case True
    note e = 5(5) [unfolded eval_logical [OF True]]
    from e obtain p s1 where a: "Option.bind (c_eval E a s) c_truth = Some (p, s1)" by (cases "Option.bind (c_eval E a s) c_truth") auto
    obtain x where x: "c_eval E a s = Some (x, s1)" using truth_state [OF a] by blast
    note m = 5(1) [OF True x]
    show ?thesis
    proof (cases "p = (op = ''||'')")
      case True
      then show ?thesis using e a m by simp
    next
      case False
      note e1 = e [unfolded a Option.bind.simps prod.case if_not_P [OF False]]
      then obtain r s2 where b: "Option.bind (c_eval E b s1) c_truth = Some (r, s2)" by (cases "Option.bind (c_eval E b s1) c_truth") auto
      obtain y where y: "c_eval E b s1 = Some (y, s2)" using truth_state [OF b] by blast
      show ?thesis using 5(2) [OF True a refl False y] m e1 [unfolded b] by simp
    qed
  next
    case False
    note e = 5(5) [unfolded c_eval.simps if_not_P [OF False]]
    from e have n: "\<not> (has_call a \<and> has_call b)" by auto
    note e1 = e [unfolded if_not_P [OF n]]
    from e1 obtain x s1 where a: "c_eval E a s = Some (Some x, s1)" by (auto split: option.splits)
    from e1 a obtain y s2 where b: "c_eval E b s1 = Some (Some y, s2)" by (auto split: option.splits)
    have "s' = s2" using e1 a b by auto
    then show ?thesis using 5(3) [OF False n a] 5(4) [OF False n a refl refl b]  by simp
  qed
next
  case (6 E f args s)
  consider "c_eval E (XCall f args) s = None" | h where "f = XId h" "args = []" | h a where "f = XId h" "args = [a]"
    by (cases f; cases args; cases "tl args") auto
  then show ?case
  proof cases
    case 1
    then show ?thesis using 6(2) by simp
  next
    case (2 h)
    then show ?thesis using 6(2) by (auto split: if_splits)
  next
    case (3 h a)
    then show ?thesis using 6(2) 6(1) [of "XId h" "[a]" h a "[]"] by (auto split: if_splits option.splits)
  qed
qed (auto split: if_splits option.splits)

fun after :: "coutcome \<Rightarrow> cstate" where
  "after (CNext s) = s" | "after (CReturned v s) = s"

definition framed :: "cenv \<Rightarrow> string list \<Rightarrow> cstate \<Rightarrow> cstate \<Rightarrow> bool" where
  "framed E R s s' \<longleftrightarrow> (\<forall>a. a \<notin> addr E R ` set R \<longrightarrow> c_mem s' a = c_mem s a)"

lemma framed_facts: "framed E R s s" "framed E R s s' \<Longrightarrow> framed E R s' s'' \<Longrightarrow> framed E R s s''" "c_mem s' = c_mem s \<Longrightarrow> framed E R s s'"
  by (simp_all add: framed_def)

lemma after_leave: "c_mem (after (leave_block s0 r)) = c_mem (after r)"
  by (cases r) (simp_all add: leave_block_def)

lemma asg_frame:
  assumes "stores R (IAsg l e)" "length R \<le> AMP_MAX_IVARS" "c_exec E (icst (IAsg l e)) s = Some r"
  shows "framed E R s (after r)"
proof -
  from assms(3) obtain T v s1 where v: "c_eval E (ce_tree e) s = Some (Some (T, v), s1)" "c_assign E (ce_tree l) v s1 = Some r"
    by (auto split: option.splits)
  note m = eval_mem [OF v(1)]
  from assms(1) have "(\<exists>y. l = CE_RAW y \<and> c_word y) \<or> (\<exists>x \<in> set R. l = iv_lv R x)" by simp
  then show ?thesis
  proof
    assume "\<exists>y. l = CE_RAW y \<and> c_word y"
    then show ?thesis using v(2) m by (intro framed_facts(3)) (auto simp: c_assign_def split: if_splits)
  next
    assume "\<exists>x \<in> set R. l = iv_lv R x"
    then obtain x where x: "x \<in> set R" "l = iv_lv R x" by blast
    have "r = CNext (s1 \<lparr> c_mem := (c_mem s1)(addr E R x := conv U32 v) \<rparr>)"
      using v(2) eval_addr [OF slot_64 [OF x(1) assms(2)], of E s1] unfolding x(2) iv_tree
      by (simp add: c_assign_def del: c_eval.simps(5) conv.simps)
    then show ?thesis using m x(1) by (auto simp: framed_def)
  qed
qed

lemma list_frame:
  assumes "\<And>i s r. i \<in> set is \<Longrightarrow> c_exec E (icst i) s = Some r \<Longrightarrow> framed E R s (after r)" "c_execs E (map icst is) s = Some r"
  shows "framed E R s (after r)"
  using assms
proof (induction "is" arbitrary: s)
  case Nil
  then show ?case using framed_facts(1) by auto
next
  case (Cons i "is")
  from Cons.prems(2) obtain r1 where r1: "c_exec E (icst i) s = Some r1" by (cases "c_exec E (icst i) s") auto
  have f: "framed E R s (after r1)" using Cons.prems(1) [OF _ r1] by simp
  show ?case
  proof (cases r1)
    case (CNext s1)
    then have "c_execs E (map icst is) s1 = Some r" using Cons.prems(2) r1 by simp
    then have "framed E R s1 (after r)" by (rule Cons.IH [rotated]) (rule Cons.prems(1), simp_all)
    then show ?thesis using f CNext framed_facts(2) by fastforce
  next
    case (CReturned v s1)
    then show ?thesis using f Cons.prems(2) r1 by auto
  qed
qed

lemma exec_frame:
  assumes "length R \<le> AMP_MAX_IVARS"
  shows "stores R i \<Longrightarrow> c_exec E (icst i) s = Some r \<Longrightarrow> framed E R s (after r)"
proof (induction i arbitrary: s r)
  case (IAsg l e)
  then show ?case using asg_frame assms by blast
next
  case (IDecl x)
  then show ?case by (intro framed_facts(3)) (auto split: option.splits if_splits)
next
  case (IRet e)
  then show ?case by (intro framed_facts(3)) (auto dest!: eval_mem split: option.splits)
next
  case (IExp e)
  then show ?case by (intro framed_facts(3)) (auto dest: eval_mem)
next
  case (IIf c t)
  obtain p s1 where p: "Option.bind (c_eval E (ce_tree c) s) c_truth = Some (p, s1)"
      "(if p then map_option (leave_block s1) (c_execs E (map icst t) s1) else Some (CNext s1)) = Some r"
    using IIf.prems(2) by (cases "Option.bind (c_eval E (ce_tree c) s) c_truth") auto
  have m: "c_mem s1 = c_mem s" using truth_state [OF p(1)] eval_mem by blast
  have "framed E R s1 (after r')" if "c_execs E (map icst t) s1 = Some r'" for r'
    using that by (rule list_frame [rotated]) (use IIf in \<open>auto simp: list_all_iff\<close>)
  then show ?case using p(2) m after_leave by (auto simp: framed_def split: if_splits)
next
  case (IIfElse c t f)
  obtain p s1 where p: "Option.bind (c_eval E (ce_tree c) s) c_truth = Some (p, s1)"
      "map_option (leave_block s1) (if p then c_execs E (map icst t) s1 else c_execs E (map icst f) s1) = Some r"
    using IIfElse.prems(2) by (cases "Option.bind (c_eval E (ce_tree c) s) c_truth") auto
  have m: "c_mem s1 = c_mem s" using truth_state [OF p(1)] eval_mem by blast
  have "framed E R s1 (after r')" if "c_execs E (map icst t) s1 = Some r'" for r'
    using that by (rule list_frame [rotated]) (use IIfElse in \<open>auto simp: list_all_iff\<close>)
  moreover have "framed E R s1 (after r')" if "c_execs E (map icst f) s1 = Some r'" for r'
    using that by (rule list_frame [rotated]) (use IIfElse in \<open>auto simp: list_all_iff\<close>)
  ultimately show ?case using p(2) m after_leave by (auto simp: framed_def split: if_splits)
qed

lemma safe_word: "good_local x \<Longrightarrow> c_word (cc_safe_dup x)"
  using good_safe by (simp add: good_name_def)

lemma lw_stores:
  shows "st_in R L s \<Longrightarrow> \<forall>x \<in> L. good_local x \<Longrightarrow> list_all (stores R) (fst (lw vd R s c))"
    "list_all (st_in R L) ss \<Longrightarrow> \<forall>x \<in> L. good_local x \<Longrightarrow> list_all (stores R) (fst (lws vd R ss c))"
proof (induction vd R s c and vd R ss c rule: lw_lws.induct)
qed (auto simp: Let_def void_line_def tmp_asg_def tmp_word safe_word split: prod.splits option.splits if_splits)

subsection \<open>The names of a handler\<close>

lemma foldE_inv:
  assumes "\<And>x s s'. P s \<Longrightarrow> f x s = Inr s' \<Longrightarrow> P s'" "P s" "foldE f xs s = Inr s'"
  shows "P s'"
  using assms(2,3)
proof (induction xs arbitrary: s)
  case (Cons x xs)
  then show ?case using assms(1) by (auto simp: bindE_def split: sum.splits)
qed simp

lemma collected_distinct: "distinct names \<Longrightarrow> cc_collect_locals n t nid names = Inr names' \<Longrightarrow> distinct names'"
proof (induction n arbitrary: nid names names')
  case (Suc n)
  have a: "distinct (add_name x names)" for x using Suc.prems(1) by (simp add: add_name_def)
  have step: "distinct names'" if "foldE (cc_collect_locals n t) xs ns = Inr names'" "distinct ns" for xs ns
    using foldE_inv [of distinct "cc_collect_locals n t", OF _ that(2,1)] Suc.IH by blast
  show ?case
  proof (cases "nt_type t nid")
    case None
    then show ?thesis using Suc.prems by simp
  next
    case (Some ty)
    then show ?thesis using Suc.prems step a by (auto split: if_splits option.splits bool.splits)
  qed
qed simp

lemma no_return:
  shows "\<not> returns s \<Longrightarrow> r_exec clk s q \<noteq> Some (RReturned v q')"
    "\<not> list_ex returns ss \<Longrightarrow> r_execs clk ss q \<noteq> Some (RReturned v q')"
proof (induction clk s q and clk ss q rule: r_exec_r_execs.induct)
qed (auto elim!: r_then_cases split: option.splits rval.splits if_splits)

subsection \<open>The body of a handler\<close>

definition start_state :: "string list \<Rightarrow> cstate \<Rightarrow> cstate" where
  "start_state names s = s \<lparr> c_loc := (\<lambda>x. if x = ''ctx'' \<or> x \<in> set names then Some 0 else None) \<rparr>"

lemma run_decls:
  assumes "distinct (''ctx'' # names @ ys)" "IVARS_MACRO \<notin> set ys"
  shows "c_execs E (map icst (map IDecl ys)) (start_state names s) = Some (CNext (start_state (names @ ys) s))"
  using assms
proof (induction ys arbitrary: names)
  case (Cons y ys)
  have z: "c_eval E (XNum ''0'') (start_state names s) = Some (Some (I32, 0), start_state names s)"
    using eval_zero [of E "start_state names s"] unfolding tree_zero .
  have n: "c_loc (start_state names s) y = None" "y \<noteq> IVARS_MACRO" using Cons.prems by (auto simp: start_state_def)
  have "start_state (names @ [y]) s = start_state names s \<lparr> c_loc := (c_loc (start_state names s))(y \<mapsto> conv S64 0) \<rparr>"
  proof -
    have "c_loc (start_state (names @ [y]) s) = (c_loc (start_state names s))(y \<mapsto> conv S64 0)"
      by (rule ext) (simp add: start_state_def)
    then show ?thesis by (simp add: start_state_def)
  qed
  then have "c_exec E (icst (IDecl y)) (start_state names s) = Some (CNext (start_state (names @ [y]) s))"
    unfolding icst.simps c_exec.simps z using n by simp
  then show ?case using Cons.IH [of "names @ [y]"] Cons.prems by (simp del: c_exec.simps icst.simps)
qed simp

lemma start_agrees:
  assumes "glob E R q s" "list_all good_name names" "\<forall>x \<in> L. good_local x" "cc_safe_dup ` L \<subseteq> set names"
  shows "agrees E R L 0 (q \<lparr> r_loc := Map.empty \<rparr>) (start_state names s)"
proof -
  have g: "good_name y" if "y \<in> set names" for y using that assms(2) by (simp add: list_all_iff)
  have t: "tmp_name i \<notin> set names" for i
  proof
    assume "tmp_name i \<in> set names"
    then have "take 3 (tmp_name i) \<noteq> ''_if''" using g by (simp add: good_name_def)
    then show False by (simp add: tmp_name_def)
  qed
  have c: "tmp_name i \<noteq> ''ctx''" for i using tmp_plain(2) [of i] by simp
  have h: "''amp_emit'' \<notin> set names" "''amp_ktime'' \<notin> set names" using g [of "''amp_emit''"] g [of "''amp_ktime''"] by (auto simp: good_name_def)
  have "fresh 0 (c_loc (start_state names s))" using t c by (simp add: fresh_def start_state_def)
  moreover have "locs L (q \<lparr> r_loc := Map.empty \<rparr>) (c_loc (start_state names s))"
    using assms(3,4) h by (auto simp: locs_def start_state_def r_get_def)
  moreover have "glob E R (q \<lparr> r_loc := Map.empty \<rparr>) (start_state names s)" using assms(1) by (simp add: start_state_def)
  ultimately show ?thesis by (simp add: agrees_def)
qed

text \<open>The statements of the function of a handler, from those of its body.\<close>

definition body_stmts :: "Method \<Rightarrow> string list \<Rightarrow> ist list \<times> CExpr option \<times> nat \<Rightarrow> ist list" where
  "body_stmts me names l =
     map IDecl names @ fst l @ (if void_method me then [] else [IRet (Some (value_of (fst (snd l))))])"

definition function_stmts :: "Method \<Rightarrow> string list \<Rightarrow> ist list \<times> CExpr option \<times> nat \<Rightarrow> ist list" where
  "function_stmts me names l =
     IExp (CE_CAST ''void'' (CE_RAW ''ctx'')) # body_stmts me names l @ (if me_ret me = CC_TY_VOID then [IRet (Some (CE_RAW ''0''))] else [])"

lemma emitted_body:
  assumes "cc_collect_locals n (un_ast u) (me_body_id (un_me u)) [] = Inr names" "\<not> cc_is_ebpf_method u ''ktime_ns''"
    "rb_body k (un_ast u) (me_body_id (un_me u)) = Some b" "10 * k < n" "fits R I (concat (map st_ivars b))"
    "void_method (un_me u) \<Longrightarrow> \<not> list_ex returns b" "me_pnames (un_me u) = []"
  shows "cc_emit_method_body n u I =
    Inr (concat (map ilines (body_stmts (un_me u) names (lws (void_method (un_me u)) R b 0))), reg I (concat (map st_ivars b)))"
proof -
  have t: "nt_type (un_ast u) (me_body_id (un_me u)) = Some ''StatementsNode''" using assms(3) by (simp add: rb_body_def split: if_splits)
  let ?g = "\<lparr> cg_ctr = 0, cg_ivars = I, cg_lines = map (\<lambda>x. ''__s64 '' @ x @ '' = 0;'') names \<rparr>"
  obtain js v c' where l: "lws (void_method (un_me u)) R b 0 = (js, v, c')" by (metis prod_cases3)
  have "cc_lower_stmt n u (me_body_id (un_me u)) ?g = lowered_to ?g (concat (map st_ivars b)) (js, v, c')"
    using body_lowered [OF assms(2-4), of R ?g] assms(5,6) l by simp
  moreover have "(case map_option pr v of Some s \<Rightarrow> s | None \<Rightarrow> ''0'') = pr (value_of v)" by (cases v) simp_all
  moreover have "concat (map ilines (map IDecl names)) = map (\<lambda>x. ''__s64 '' @ x @ '' = 0;'') names" by (induction names) simp_all
  ultimately show ?thesis using assms(1,7) t l by (auto simp: cc_emit_method_body_def bindE_def Let_def lowered_to_def body_stmts_def)
qed

lemma lex_indented4: "c_lex (''    '' @ l) = c_lex l"
  by (simp add: lex_spaced)

lemma ctx_line: "ilines (IExp (CE_CAST ''void'' (CE_RAW ''ctx''))) = [''(void)ctx;'']" "ist_ok (IExp (CE_CAST ''void'' (CE_RAW ''ctx'')))"
proof -
  have p: "pr (CE_CAST ''void'' (CE_RAW ''ctx'')) = ''(void)ctx''" unfolding pr_def by code_simp
  then show "ilines (IExp (CE_CAST ''void'' (CE_RAW ''ctx''))) = [''(void)ctx;'']" by simp
  have "ce_ok (CE_CAST ''void'' (CE_RAW ''ctx''))" by code_simp
  moreover have "starts_stmt (CE_CAST ''void'' (CE_RAW ''ctx''))" unfolding starts_stmt_def p by code_simp
  ultimately show "ist_ok (IExp (CE_CAST ''void'' (CE_RAW ''ctx'')))" by simp
qed

lemma zero_ok: "ce_ok (CE_RAW ''0'')"
  by code_simp

lemma zero_line: "ilines (IRet (Some (CE_RAW ''0''))) = [''return 0;'']"
  by simp

lemma lex_line: "ilines i = [l] \<Longrightarrow> c_lex (''    '' @ l) = itoks i"
  unfolding lex_indented4 by (simp add: itoks_def)

lemma lex_lines: "concat (map c_lex (map (\<lambda>l. ''    '' @ l) (concat (map ilines js)))) = concat (map itoks js)"
proof -
  have "map c_lex (map (\<lambda>l. ''    '' @ l) xs) = map c_lex xs" for xs unfolding map_map comp_def lex_indented4 ..
  moreover have "concat (map c_lex (concat (map ilines js))) = concat (map itoks js)" by (induction js) (simp_all add: itoks_def)
  ultimately show ?thesis by metis
qed

lemma function_text:
  assumes "list_all ist_ok (fst l)" "ce_ok (value_of (fst (snd l)))" "list_all c_word names" "c_word (cc_func_name me)"
  shows "c_function (c_lex (print_lines (amp_function (me, concat (map ilines (body_stmts me names l)))))) =
    Some (cc_func_name me, map icst (function_stmts me names l))"
proof -
  let ?body = "''    (void)ctx;'' # map (\<lambda>l. ''    '' @ l) (concat (map ilines (body_stmts me names l))) @
    (if me_ret me = CC_TY_VOID then [''    return 0;''] else [])"
  have ok: "list_all ist_ok (function_stmts me names l)"
    using assms(1-3) ctx_line(2) zero_ok by (auto simp: function_stmts_def body_stmts_def list_all_iff simp del: ist_ok.simps(4))
  have "concat (map c_lex ?body) = concat (map itoks (function_stmts me names l))"
    using lex_line [OF ctx_line(1)] lex_line [OF zero_line] lex_lines [of "body_stmts me names l"]
    by (simp add: function_stmts_def del: ilines.simps)
  from parse_function [OF ok assms(4) this] show ?thesis by (simp add: amp_function_def)
qed

subsection \<open>The effect of a handler\<close>

definition same_effect :: "cenv \<Rightarrow> string list \<Rightarrow> rstate \<Rightarrow> cstate \<Rightarrow> bool" where
  "same_effect E R q s \<longleftrightarrow> c_out s = r_out q \<and> (\<forall>x \<in> set R. c_mem s (addr E R x) = rep (r_iv q x) \<and> in_ty U32 (rep (r_iv q x)))"

lemma glob_effect: "glob E R q s \<Longrightarrow> same_effect E R q s" "ticks s1 s2 \<Longrightarrow> same_effect E R q s2 = same_effect E R q s1"
  by (auto simp: glob_def same_effect_def ticks_def simp del: in_ty.simps)

lemma ctx_runs: "c_exec E (icst (IExp (CE_CAST ''void'' (CE_RAW ''ctx'')))) (start_state [] s) = Some (CNext (start_state [] s))"
proof -
  have "c_lex ''void'' = [TId ''void'']" "c_word ''ctx''" "''ctx'' \<noteq> IVARS_MACRO" by code_simp+
  then show ?thesis by (simp add: start_state_def)
qed

lemma tail_runs:
  assumes "runs E R L 0 s (js, v, c) r" "void_method me \<Longrightarrow> \<exists>x q. r = RNext x q" "r = RNext x q' \<or> r = RReturned x q'"
  shows "\<exists>s'. c_execs E (map icst (js @ (if void_method me then [] else [IRet (Some (value_of v))]) @ (if me_ret me = CC_TY_VOID then [IRet (Some (CE_RAW ''0''))] else []))) s
      = Some (CReturned (if void_method me then 0 else conv I32 (rep x)) s') \<and> same_effect E R q' s'"
proof (cases r)
  case (RReturned y q)
  then have "\<not> void_method me" "y = x" "q = q'" using assms(2,3) by auto
  then show ?thesis using RReturned assms(1) glob_effect(1) by (auto simp: runs_def execs_append simp del: conv.simps)
next
  case (RNext y q)
  then have y: "y = x" "q = q'" using assms(3) by auto
  obtain s1 s2 T where s1: "c_execs E (map icst js) s = Some (CNext s1)" "c_eval E (ce_tree (value_of v)) s1 = Some (Some (T, rep x), s2)"
    "glob E R q' s2" "ticks s1 s2"
    using assms(1) RNext y by (auto simp: runs_def agrees_def simp del: in_ty.simps)
  have e: "same_effect E R q' s2" "same_effect E R q' s1" using glob_effect(1) [OF s1(3)] glob_effect(2) [OF s1(4)] by simp_all
  show ?thesis
  proof (cases "void_method me")
    case True
    then have "me_ret me = CC_TY_VOID" by (simp add: void_method_def)
    moreover have "c_execs E (map icst [IRet (Some (CE_RAW ''0''))]) s1 = Some (CReturned 0 s1)" using eval_zero [of E s1] by (simp del: ce_tree.simps)
    ultimately show ?thesis using True s1(1) e by (simp add: execs_append del: icst.simps)
  next
    case False
    have "c_exec E (icst (IRet (Some (value_of v)))) s1 = Some (CReturned (conv I32 (rep x)) s2)" using s1(2) by (simp del: conv.simps)
    then show ?thesis using False s1(1) e by (simp add: execs_append del: icst.simps c_exec.simps conv.simps)
  qed
qed

lemma function_runs:
  assumes "ce_clock E = clk" "length R \<le> AMP_MAX_IVARS" "list_all (st_in R L) b" "\<forall>x \<in> L. good_local x" "cc_safe_dup ` L \<subseteq> set names"
    "distinct names" "list_all good_name names" "void_method me \<Longrightarrow> \<not> list_ex returns b" "glob E R q s" "r_call clk b q = Some (x, q')"
  shows "\<exists>s'. c_execs E (map icst (function_stmts me names (lws (void_method me) R b 0))) (s \<lparr> c_loc := [''ctx'' \<mapsto> 0] \<rparr>) =
      Some (CReturned (if void_method me then 0 else conv I32 (rep x)) s') \<and> same_effect E R q' s' \<and> framed E R s s'"
proof -
  obtain js v c where l: "lws (void_method me) R b 0 = (js, v, c)" by (metis prod_cases3)
  have s0: "s \<lparr> c_loc := [''ctx'' \<mapsto> 0] \<rparr> = start_state [] s" by (auto simp: start_state_def fun_upd_def)
  have n: "''ctx'' \<notin> set names" "IVARS_MACRO \<notin> set names" using assms(7) by (auto simp: list_all_iff good_name_def)
  have d: "c_execs E (map icst (map IDecl names)) (start_state [] s) = Some (CNext (start_state names s))"
    using run_decls [of "[]" names E s] n assms(6) by simp
  obtain r q1 where r: "r_execs clk b (q \<lparr> r_loc := Map.empty \<rparr>) = Some r" "r = RNext x q1 \<or> r = RReturned x q1" "q' = q1 \<lparr> r_loc := r_loc q \<rparr>"
    using assms(10) by (auto simp: r_call_def split: option.splits routcome.splits)
  have "sims E clk R L (void_method me) b"
  proof (rule sims_list, intro ballI conjI)
    fix st assume st: "st \<in> set b"
    then show "st_in R L st" using assms(3) by (simp add: list_all_iff)
    then show "sim E clk R L (void_method me) st" using st assms(8) by (intro all_sim [OF assms(1,2)]) (auto simp: list_ex_iff)
  qed
  from simsD [OF this r(1) start_agrees [OF assms(9,7,4,5)]] have rn: "runs E R L 0 (start_state names s) (js, v, c) r" using l by simp
  have "\<exists>y q. r = RNext y q" if "void_method me" using that no_return(2) assms(8) r(1) by (cases r) blast+
  from tail_runs [OF rn this r(2)] obtain s' where
    "c_execs E (map icst (js @ (if void_method me then [] else [IRet (Some (value_of v))]) @ (if me_ret me = CC_TY_VOID then [IRet (Some (CE_RAW ''0''))] else []))) (start_state names s)
      = Some (CReturned (if void_method me then 0 else conv I32 (rep x)) s')" "same_effect E R q1 s'" by blast
  then have ex: "c_execs E (map icst (function_stmts me names (lws (void_method me) R b 0))) (s \<lparr> c_loc := [''ctx'' \<mapsto> 0] \<rparr>) =
      Some (CReturned (if void_method me then 0 else conv I32 (rep x)) s')"
    unfolding s0 l function_stmts_def body_stmts_def list.map execs_next [OF ctx_runs] append_assoc map_append [of icst "map IDecl names"] execs_append [of E "map icst (map IDecl names)"] d
    by (simp only: Option.bind.simps coutcome.case fst_conv snd_conv)
  have "list_all (stores R) (function_stmts me names (lws (void_method me) R b 0))"
    using lw_stores(2) [OF assms(3,4), of "void_method me" 0] by (auto simp: function_stmts_def body_stmts_def list_all_iff)
  then have "framed E R (s \<lparr> c_loc := [''ctx'' \<mapsto> 0] \<rparr>) (after (CReturned (if void_method me then 0 else conv I32 (rep x)) s'))"
    by (intro list_frame [OF exec_frame [OF assms(2)] ex]) (auto simp: list_all_iff)
  then have "framed E R s s'" by (simp add: framed_def)
  moreover have "same_effect E R q' s'" using \<open>same_effect E R q1 s'\<close> r(3) by (simp add: same_effect_def)
  ultimately show ?thesis using ex by blast
qed

subsection \<open>The program\<close>

text \<open>The handlers the theorem is about: a method without parameters that the scan accepts and whose body
  is in the subset, with names that the C text does not use otherwise, locals that are assigned somewhere,
  and no \<open>return\<close> where the value is not used.\<close>

definition handler_ok :: "nat \<Rightarrow> nat \<Rightarrow> AST \<Rightarrow> Method \<Rightarrow> bool" where
  "handler_ok k n t me \<longleftrightarrow>
     me_pnames me = [] \<and> me_name me \<noteq> ''ktime_ns'' \<and> amp_scan_supported n t (me_body_id me) () = Inr () \<and> c_word (cc_func_name me) \<and>
     (case (rb_body k t (me_body_id me), cc_collect_locals n t (me_body_id me) []) of
        (Some b, Inr names) \<Rightarrow>
          list_all good_local (concat (map st_locals b)) \<and> set (concat (map st_locals b)) \<subseteq> set (concat (map st_writes b)) \<and>
          (void_method me \<longrightarrow> \<not> list_ex returns b) \<and> list_all good_name names
      | _ \<Rightarrow> False)"

definition handler_ivars :: "nat \<Rightarrow> AST \<Rightarrow> Method \<Rightarrow> string list" where
  "handler_ivars k t me = concat (map st_ivars (the (rb_body k t (me_body_id me))))"

definition program_ivars :: "nat \<Rightarrow> AST \<Rightarrow> Method list \<Rightarrow> string list" where
  "program_ivars k t es = reg [] (concat (map (handler_ivars k t) es))"

lemma set_reg: "set (reg I xs) = set I \<union> set xs"
  unfolding reg_def by (induction xs arbitrary: I) (auto simp: add_name_def)

lemma body_ops: "rb_body k t nid = Some b \<Longrightarrow> list_all st_ops b"
  using rb_seq_ops [OF _ rb_stmt_ops] by (auto simp: rb_body_def split: if_splits)

text \<open>The text of a handler has its effect.\<close>

definition implements :: "string list \<Rightarrow> Method \<Rightarrow> rst list \<Rightarrow> string list \<Rightarrow> bool" where
  "implements R me b body \<longleftrightarrow>
     (\<forall>E q s v q'. glob E R q s \<longrightarrow> r_call (ce_clock E) b q = Some (v, q') \<longrightarrow>
       (\<exists>s'. c_call E (print_lines (amp_function (me, body))) s = Some (if void_method me then 0 else conv I32 (rep v), s') \<and>
             same_effect E R q' s' \<and> framed E R s s'))"

lemma body_implements:
  assumes "handler_ok k n t me" "rb_body k t (me_body_id me) = Some b" "cc_collect_locals n t (me_body_id me) [] = Inr names"
    "set (concat (map st_ivars b)) \<subseteq> set R" "length R \<le> AMP_MAX_IVARS"
  shows "implements R me b (concat (map ilines (body_stmts me names (lws (void_method me) R b 0))))"
proof -
  let ?L = "set (concat (map st_locals b))" and ?l = "lws (void_method me) R b 0"
  note ok = assms(1) [unfolded handler_ok_def assms(2,3) prod.case option.case sum.case]
  have nm: "list_all good_name names" "list_all c_word names" using ok by (auto simp: list_all_iff good_name_def)
  have g: "\<forall>x \<in> ?L. good_local x" using ok by (auto simp: list_all_iff)
  have i: "list_all (st_in R ?L) b" using body_ops [OF assms(2)] assms(4) by (auto simp: list_all_iff st_in_def)
  have "list_all st_ok b" using body_ops [OF assms(2)] g by (auto simp: list_all_iff st_ok_def)
  then have "lw_fine ?l" using lw_ok(2) by blast
  then have f: "list_all ist_ok (fst ?l)" "ce_ok (value_of (fst (snd ?l)))" by (cases ?l, simp add: lw_fineE)+
  note c = function_text [OF f nm(2), of me]
  have s: "cc_safe_dup ` ?L \<subseteq> set names" using collected_body [OF assms(2,3)] ok by blast
  note r = function_runs [OF refl assms(5) i g s collected_distinct [OF _ assms(3)] nm(1)]
  show ?thesis unfolding implements_def
  proof (intro allI impI)
    fix E q st v q'
    assume a: "glob E R q st" "r_call (ce_clock E) b q = Some (v, q')"
    obtain s' where s': "c_execs E (map icst (function_stmts me names ?l)) (st \<lparr> c_loc := [''ctx'' \<mapsto> 0] \<rparr>) =
        Some (CReturned (if void_method me then 0 else conv I32 (rep v)) s')" "same_effect E R q' s'" "framed E R st s'"
      using r [of me E q st v q'] a ok by auto
    have "c_call E (print_lines (amp_function (me, concat (map ilines (body_stmts me names ?l))))) st =
        Some (if void_method me then 0 else conv I32 (rep v), s' \<lparr> c_loc := c_loc st \<rparr>)"
      using c ok s'(1) by (simp add: c_call_def)
    moreover have "same_effect E R q' (s' \<lparr> c_loc := c_loc st \<rparr>)" "framed E R st (s' \<lparr> c_loc := c_loc st \<rparr>)"
      using s'(2,3) by (simp_all add: same_effect_def framed_def)
    ultimately show "\<exists>s'. c_call E (print_lines (amp_function (me, concat (map ilines (body_stmts me names ?l))))) st =
        Some (if void_method me then 0 else conv I32 (rep v), s') \<and> same_effect E R q' s' \<and> framed E R st s'" by blast
  qed
qed

lemma handler_emitted:
  assumes "handler_ok k n t me" "10 * k < n" "\<not> list_ex (\<lambda>me. cc_method_eligible env me \<and> me_name me = ''ktime_ns'') ms"
    "fits R I (handler_ivars k t me)" "length R \<le> AMP_MAX_IVARS" "set (handler_ivars k t me) \<subseteq> set R"
  obtains body where "amp_handler n env ms t me (bs, I) = Inr (bs @ [(me, body)], reg I (handler_ivars k t me))"
    "implements R me (the (rb_body k t (me_body_id me))) body"
proof -
  let ?u = "\<lparr> un_ast = t, un_methods = ms, un_env = env, un_me = me \<rparr>"
  obtain b names where b: "rb_body k t (me_body_id me) = Some b" "cc_collect_locals n t (me_body_id me) [] = Inr names"
    using assms(1) by (auto simp: handler_ok_def split: option.splits sum.splits)
  have iv: "handler_ivars k t me = concat (map st_ivars b)" using b by (simp add: handler_ivars_def)
  have vd: "void_method me \<Longrightarrow> \<not> list_ex returns b" and p: "me_pnames me = []" "amp_scan_supported n t (me_body_id me) () = Inr ()"
    using assms(1) b by (simp_all add: handler_ok_def)
  have kt: "\<not> cc_is_ebpf_method ?u ''ktime_ns''" using assms(3) by (simp add: cc_is_ebpf_method_def)
  let ?body = "concat (map ilines (body_stmts me names (lws (void_method me) R b 0)))"
  have "cc_emit_method_body n ?u I = Inr (?body, reg I (handler_ivars k t me))"
    using emitted_body [of n ?u names, OF _ kt _ assms(2)] b vd p(1) assms(4) iv by simp
  then have "amp_handler n env ms t me (bs, I) = Inr (bs @ [(me, ?body)], reg I (handler_ivars k t me))"
    using p by (simp add: amp_handler_def bindE_def)
  moreover have "implements R me b ?body" by (rule body_implements [OF assms(1) b _ assms(5)]) (use assms(6) iv in auto)
  ultimately show thesis using that b by simp
qed

lemma handlers_emitted:
  assumes "10 * k < n" "\<not> list_ex (\<lambda>me. cc_method_eligible env me \<and> me_name me = ''ktime_ns'') ms" "length R \<le> AMP_MAX_IVARS"
    "\<forall>me \<in> set es. handler_ok k n t me" "fits R I (concat (map (handler_ivars k t) es))" "set (concat (map (handler_ivars k t) es)) \<subseteq> set R"
  shows "\<exists>bodies. foldE (amp_handler n env ms t) es (bs, I) = Inr (bs @ bodies, reg I (concat (map (handler_ivars k t) es))) \<and>
    (\<forall>me \<in> set es. \<exists>body. (me, body) \<in> set bodies \<and> implements R me (the (rb_body k t (me_body_id me))) body)"
  using assms(4-6)
proof (induction es arbitrary: bs I)
  case (Cons me es)
  have f: "fits R I (handler_ivars k t me)" "fits R (reg I (handler_ivars k t me)) (concat (map (handler_ivars k t) es))"
    using Cons.prems(2) by (simp_all add: fits_append)
  obtain body where e: "amp_handler n env ms t me (bs, I) = Inr (bs @ [(me, body)], reg I (handler_ivars k t me))"
    "implements R me (the (rb_body k t (me_body_id me))) body"
    using handler_emitted [OF _ assms(1,2) f(1) assms(3)] Cons.prems by auto
  obtain bodies where b: "foldE (amp_handler n env ms t) es (bs @ [(me, body)], reg I (handler_ivars k t me)) =
      Inr ((bs @ [(me, body)]) @ bodies, reg (reg I (handler_ivars k t me)) (concat (map (handler_ivars k t) es)))"
    "\<forall>me \<in> set es. \<exists>body. (me, body) \<in> set bodies \<and> implements R me (the (rb_body k t (me_body_id me))) body"
    using Cons.IH [OF _ f(2), of "bs @ [(me, body)]"] Cons.prems(1,3) by auto
  show ?case using e b by (intro exI [of _ "(me, body) # bodies"]) (auto simp: bindE_def)
qed simp

lemma generated_implements:
  assumes "cc_scan_common_filter t = Inr (False, keys)" "es = filter (cc_method_eligible env) ms" "\<forall>me \<in> set es. handler_ok k n t me"
    "10 * k < n" "R = program_ivars k t es" "length R \<le> AMP_MAX_IVARS" "me \<in> set es" "rb_body k t (me_body_id me) = Some b"
  shows "\<exists>before body between.
    amp_codegen_program n env ms t base = Inr (print_lines (before @ amp_function (me, body) @ between @ amp_manifest es (length R))) \<and>
    implements R me b body"
proof -
  have R: "R = reg [] (concat (map (handler_ivars k t) es))" using assms(5) by (simp add: program_ivars_def)
  have f: "fits R [] (concat (map (handler_ivars k t) es))" "set (concat (map (handler_ivars k t) es)) \<subseteq> set R"
    using assms(6) set_reg [of "[]"] unfolding R fits_def by simp_all
  have kt: "\<not> list_ex (\<lambda>me. cc_method_eligible env me \<and> me_name me = ''ktime_ns'') ms"
    using assms(2,3) by (auto simp: list_ex_iff handler_ok_def)
  obtain bodies where g: "foldE (amp_handler n env ms t) es ([], []) = Inr (bodies, R)"
    "\<forall>me \<in> set es. \<exists>body. (me, body) \<in> set bodies \<and> implements R me (the (rb_body k t (me_body_id me))) body"
    using handlers_emitted [OF assms(4) kt assms(6,3) f, of "[]"] R by auto
  then obtain body where body: "(me, body) \<in> set bodies" "implements R me b body" using assms(7,8) by fastforce
  then obtain xs ys where "bodies = xs @ (me, body) # ys" by (meson split_list)
  then have "amp_codegen_program n env ms t base =
      Inr (print_lines ((amp_head base @ concat (map amp_function xs)) @ amp_function (me, body) @ concat (map amp_function ys) @ amp_manifest es (length R)))"
    using assms(1,2,7) g(1) by (auto simp: amp_codegen_program_def bindE_def Let_def)
  then show ?thesis using body(2) by blast
qed

text \<open>C1: The generator for the real-time core is correct.  Take a unit without \<open>filter_by\<close> each of whose
  eligible methods is a handler of the Ruby subset (assignments, \<open>if\<close>, operators, \<open>spnl_emit\<close>,
  \<open>ktime_ns\<close>, \<open>return\<close>), with at most 64 instance variables in all.  Then the generator returns a program;
  the program has a function for each method which a C reader parses; and wherever the Ruby method has a
  result, a call of the function returns that result, emits the same samples, leaves in each 32-bit slot
  of the carveout the value of its instance variable and writes no other memory.  The manifest that
  follows gives the size of the carveout in use.\<close>

theorem amp_codegen_correct:
  assumes "cc_scan_common_filter t = Inr (False, keys)" "es = filter (cc_method_eligible env) ms" "\<forall>me \<in> set es. handler_ok k n t me"
    "10 * k < n" "R = program_ivars k t es" "length R \<le> AMP_MAX_IVARS" "me \<in> set es" "rb_body k t (me_body_id me) = Some b"
  shows "\<exists>before body between.
    amp_codegen_program n env ms t base = Inr (print_lines (before @ amp_function (me, body) @ between @ amp_manifest es (length R))) \<and>
    (\<forall>E q s v q'. glob E R q s \<longrightarrow> r_call (ce_clock E) b q = Some (v, q') \<longrightarrow>
       (\<exists>s'. c_call E (print_lines (amp_function (me, body))) s = Some (if void_method me then 0 else conv I32 (rep v), s') \<and>
             same_effect E R q' s' \<and> framed E R s s'))"
  using generated_implements [OF assms, of base] unfolding implements_def .

definition demo_node :: "string \<Rightarrow> (string \<times> string) list \<Rightarrow> (string \<times> int) list \<Rightarrow> (string \<times> int) list \<Rightarrow> (string \<times> int list) list \<Rightarrow> SpNode" where
  "demo_node ty ss is rs as = \<lparr> nd_type = Some ty, nd_s = ss, nd_i = is, nd_r = rs, nd_a = as \<rparr>"

text \<open>\<open>def timer_100; @n += 1; x = @n; if x > 2 then spnl_emit(x) end; end\<close>\<close>

definition demo_ast :: AST where
  "demo_ast =
     [demo_node ''ProgramNode'' [] [] [(''statements'', 1)] [],
      demo_node ''StatementsNode'' [] [] [] [(''body'', [2])],
      demo_node ''DefNode'' [(''name'', ''timer_100'')] [] [(''body'', 3)] [],
      demo_node ''StatementsNode'' [] [] [] [(''body'', [4, 6, 8])],
      demo_node ''InstanceVariableOperatorWriteNode'' [(''name'', ''@n''), (''binary_operator'', ''+'')] [] [(''value'', 5)] [],
      demo_node ''IntegerNode'' [] [(''value'', 1)] [] [],
      demo_node ''LocalVariableWriteNode'' [(''name'', ''x'')] [] [(''value'', 7)] [],
      demo_node ''InstanceVariableReadNode'' [(''name'', ''@n'')] [] [] [],
      demo_node ''IfNode'' [] [] [(''predicate'', 9), (''statements'', 13)] [],
      demo_node ''CallNode'' [(''name'', ''>'')] [] [(''receiver'', 10), (''arguments'', 11)] [],
      demo_node ''LocalVariableReadNode'' [(''name'', ''x'')] [] [] [],
      demo_node ''ArgumentsNode'' [] [] [] [(''arguments'', [12])],
      demo_node ''IntegerNode'' [] [(''value'', 2)] [] [],
      demo_node ''StatementsNode'' [] [] [] [(''body'', [14])],
      demo_node ''CallNode'' [(''name'', ''spnl_emit'')] [] [(''arguments'', 15)] [],
      demo_node ''ArgumentsNode'' [] [] [] [(''arguments'', [16])],
      demo_node ''LocalVariableReadNode'' [(''name'', ''x'')] [] [] []]"

definition demo_method :: Method where
  "demo_method = \<lparr> me_name = ''timer_100'', me_cls = None, me_pnames = [], me_ptypes = [], me_ret = CC_TY_VOID,
     me_body_id = 3, me_so_kind = SO_NONE, me_so_member = None \<rparr>"


lemma demo_ok: "handler_ok 4 41 demo_ast demo_method" "cc_method_eligible (\<lambda>_. None) demo_method" "program_ivars 4 demo_ast [demo_method] = [''n'']"
  "me_name demo_method \<noteq> ''ktime_ns''" "void_method demo_method"
  by code_simp+

definition demo_body :: "rst list" where
  "demo_body = [SOp ''n'' ''+'' (RInt 1), SLocal ''x'' (SVal (RIvar ''n'')), SIf (RBin ''>'' (RLoc ''x'') (RInt 2)) [SEmit (SVal (RLoc ''x''))]]"

lemma demo_body: "rb_body 4 demo_ast (me_body_id demo_method) = Some demo_body"
  by code_simp

definition demo_env :: cenv where
  "demo_env = \<lparr> ce_base = AMP_IVARS_BASE_MIRROR, ce_clock = (\<lambda>_. 0) \<rparr>"

definition demo_before :: rstate where
  "demo_before = \<lparr> r_loc = Map.empty, r_iv = (\<lambda>x. if x = ''n'' then RVInt 2 else RVNil), r_out = [], r_tick = 0 \<rparr>"

definition demo_start :: cstate where
  "demo_start = \<lparr> c_loc = Map.empty, c_mem = (\<lambda>a. if a = AMP_IVARS_BASE_MIRROR then 2 else 0), c_out = [], c_tick = 0 \<rparr>"

lemma demo_runs: "map_option (\<lambda>(v, q). (v, r_out q, r_iv q ''n'')) (r_call (ce_clock demo_env) demo_body demo_before) = Some (RVNil, [3], RVInt 3)"
  by code_simp

theorem amp_codegen_correct_witness:
  "\<exists>before body between s'.
     amp_codegen_program 41 (\<lambda>_. None) [demo_method] demo_ast ''demo'' =
       Inr (print_lines (before @ amp_function (demo_method, body) @ between @ amp_manifest [demo_method] 1)) \<and>
     c_call demo_env (print_lines (amp_function (demo_method, body))) demo_start = Some (0, s') \<and>
     c_out s' = [3] \<and> c_mem s' AMP_IVARS_BASE_MIRROR = 3"
proof -
  have f: "cc_scan_common_filter demo_ast = Inr (False, [])" by code_simp
  have e: "[demo_method] = filter (cc_method_eligible (\<lambda>_. None)) [demo_method]" using demo_ok(2) by simp
  have m: "length [''n''] \<le> AMP_MAX_IVARS" by (simp add: AMP_MAX_IVARS_def)
  have a: "addr demo_env [''n''] ''n'' = AMP_IVARS_BASE_MIRROR" by code_simp
  have g: "glob demo_env [''n''] demo_before demo_start" using a by (simp add: glob_def demo_before_def demo_start_def)
  obtain v q' where r: "r_call (ce_clock demo_env) demo_body demo_before = Some (v, q')" "r_out q' = [3]" "r_iv q' ''n'' = RVInt 3"
    using demo_runs by auto
  have ok: "\<forall>me \<in> set [demo_method]. handler_ok 4 41 demo_ast me" using demo_ok(1) by simp
  from amp_codegen_correct [OF f e ok _ demo_ok(3) [symmetric] m _ demo_body, of "''demo''"] obtain before body between s' where
    "amp_codegen_program 41 (\<lambda>_. None) [demo_method] demo_ast ''demo'' =
       Inr (print_lines (before @ amp_function (demo_method, body) @ between @ amp_manifest [demo_method] 1))"
    "c_call demo_env (print_lines (amp_function (demo_method, body))) demo_start = Some (0, s')" "same_effect demo_env [''n''] q' s'"
    using g r(1) demo_ok(5) by fastforce
  then show ?thesis using r(2,3) a by (fastforce simp: same_effect_def)
qed

end
