(* ===== verification/Cc_Amp_Slots.thy ===== *)
theory Cc_Amp_Slots
  imports Cc_Amp_Tree Amp_Check
begin

text \<open>
  Two checks of the generator for the real-time core, for programs of any shape: the registry of
  instance variables stays well-formed and only grows, and a call that the target does not have stops
  the generator.
\<close>

subsection \<open>The registry of instance variables\<close>

definition registry_ok :: "string list \<Rightarrow> bool" where
  "registry_ok I \<longleftrightarrow> distinct I \<and> length I \<le> AMP_MAX_IVARS"

definition extends :: "cg \<Rightarrow> cg \<Rightarrow> bool" where
  "extends g g' \<longleftrightarrow> prefix (cg_ivars g) (cg_ivars g') \<and> (registry_ok (cg_ivars g) \<longrightarrow> registry_ok (cg_ivars g'))"

definition keeps_slots :: "cg \<Rightarrow> ('a \<times> cg) result \<Rightarrow> bool" where
  "keeps_slots g r \<longleftrightarrow> (\<forall>v g'. r = Inr (v, g') \<longrightarrow> extends g g')"

lemma extends_refl: "extends g g"
  by (simp add: extends_def)

lemma extends_trans: "extends g g1 \<Longrightarrow> extends g1 g2 \<Longrightarrow> extends g g2"
  using prefix_order.trans by (auto simp: extends_def)

lemma extends_same: "cg_ivars g' = cg_ivars g \<Longrightarrow> extends g g'"
  by (simp add: extends_def)

lemma extends_line [simp]: "extends g (push_line l g1) = extends g g1" "extends (push_line l g1) g = extends g1 g"
  "extends g (g1 \<lparr> cg_lines := ls \<rparr>) = extends g g1" "extends (g1 \<lparr> cg_lines := ls \<rparr>) g = extends g1 g"
  "extends g (g1 \<lparr> cg_ctr := n \<rparr>) = extends g g1" "extends (g1 \<lparr> cg_ctr := n \<rparr>) g = extends g1 g"
  by (simp_all add: extends_def push_line_def)

lemma keeps_Inl: "keeps_slots g (Inl d)"
  by (simp add: keeps_slots_def)

lemma keeps_Inr: "extends g g' \<Longrightarrow> keeps_slots g (Inr (v, g'))"
  by (simp add: keeps_slots_def)

lemma keeps_bind:
  assumes "keeps_slots g r" "\<And>v g1. extends g g1 \<Longrightarrow> keeps_slots g (f v g1)"
  shows "keeps_slots g (bindE r (\<lambda>(v, g1). f v g1))"
  using assms by (auto simp: keeps_slots_def bindE_def split: sum.splits)

lemma keeps_check: "(\<And>x. keeps_slots g (f x)) \<Longrightarrow> keeps_slots g (bindE r f)"
  by (auto simp: keeps_slots_def bindE_def split: sum.splits)

lemma keeps_from: "keeps_slots g1 r \<Longrightarrow> extends g g1 \<Longrightarrow> keeps_slots g r"
  using extends_trans by (auto simp: keeps_slots_def)

lemma keeps_if: "(c \<Longrightarrow> keeps_slots g a) \<Longrightarrow> (\<not> c \<Longrightarrow> keeps_slots g b) \<Longrightarrow> keeps_slots g (if c then a else b)"
  by simp

lemma keeps_option: "keeps_slots g a \<Longrightarrow> (\<And>x. keeps_slots g (f x)) \<Longrightarrow> keeps_slots g (case x of None \<Rightarrow> a | Some y \<Rightarrow> f y)"
  by (cases x) simp_all

lemma keeps_list: "keeps_slots g a \<Longrightarrow> (\<And>x xs. keeps_slots g (f x xs)) \<Longrightarrow> keeps_slots g (case x of [] \<Rightarrow> a | y # ys \<Rightarrow> f y ys)"
  by (cases x) simp_all

lemma keeps_bool: "keeps_slots g a \<Longrightarrow> keeps_slots g b \<Longrightarrow> keeps_slots g (case x of True \<Rightarrow> a | False \<Rightarrow> b)"
  by (cases x) simp_all

lemma keeps_pair: "(\<And>a b. keeps_slots g (f a b)) \<Longrightarrow> keeps_slots g (case x of (a, b) \<Rightarrow> f a b)"
  by (cases x) simp

lemmas keeps_rules = keeps_Inl keeps_Inr keeps_if keeps_option keeps_list keeps_bool keeps_pair

lemma keeps_ivar: "keeps_slots g (cc_ivar_map iv g)"
proof -
  have "keeps_slots g (amp_ivar_slot x g)" for x
    using slot_less [of "cg_ivars g"] by (auto simp: amp_ivar_slot_def slot_def [symmetric] Let_def keeps_slots_def extends_def registry_ok_def)
  then show ?thesis unfolding cc_ivar_map_def by (rule keeps_bind) (auto intro: keeps_Inr)
qed

lemma keeps_args: "(\<And>i g. keeps_slots g (f i g)) \<Longrightarrow> keeps_slots g (lower_args f ids g)"
proof (induction ids arbitrary: g)
  case (Cons i ids)
  show ?case unfolding lower_args.simps
    by (intro keeps_bind [OF Cons.prems] keeps_bind [OF keeps_from [OF Cons.IH [OF Cons.prems]]] keeps_Inr)
qed (auto intro: keeps_Inr extends_refl)

lemma keeps_seq: "(\<And>i g. keeps_slots g (f i g)) \<Longrightarrow> keeps_slots g (lower_seq f ids g)"
proof (induction ids arbitrary: g)
  case (Cons i ids)
  have "extends g (case v of Some e \<Rightarrow> if c e then push_line (l e) g1 else g1 | None \<Rightarrow> g1)" if "extends g g1" for v g1 c and l :: "string \<Rightarrow> string"
    using that by (auto split: option.splits)
  then show ?case unfolding lower_seq.simps
    by (intro keeps_bind [OF Cons.prems] keeps_if keeps_Inr keeps_from [OF Cons.IH [OF Cons.prems]])
qed (auto intro: keeps_Inr extends_refl)

lemma keeps_print: "keeps_slots g r \<Longrightarrow> keeps_slots g (bindE r print_expr)"
  unfolding print_expr_def by (rule keeps_bind) (auto simp: keeps_slots_def split: option.splits)

lemma keeps_build_step:
  assumes "\<And>i g. keeps_slots g (B i g)" "\<And>i g. keeps_slots g (L i g)"
  shows "keeps_slots g (build_expr_step B L u nid g)"
  unfolding build_expr_step_def Let_def
  by (intro keeps_rules keeps_bind [OF assms(1)] keeps_bind [OF assms(2)] keeps_bind [OF keeps_from [OF assms(1)]] extends_refl)

lemma keeps_expr_step:
  assumes "\<And>i g. keeps_slots g (B i g)" "\<And>i g. keeps_slots g (L i g)" "\<And>i g. keeps_slots g (S i g)"
  shows "keeps_slots g (lower_expr_step B L S u nid g)"
  unfolding lower_expr_step_def Let_def
  by (intro keeps_rules keeps_bind [OF assms(1)] keeps_bind [OF assms(2)] keeps_bind [OF assms(3)] keeps_ivar keeps_print [OF assms(1)]
      keeps_bind [OF keeps_args [OF assms(2)]] keeps_check extends_refl) simp_all

lemma keeps_branch:
  assumes "\<And>i g. keeps_slots g (S i g)"
  shows "keeps_slots g (cc_branch_block S bid rv g)"
proof -
  have "keeps_slots g (S bid (g \<lparr> cg_lines := [] \<rparr>))" by (rule keeps_from [OF assms]) (simp add: extends_refl)
  then show ?thesis unfolding cc_branch_block_def by (intro keeps_rules keeps_bind extends_refl) simp_all
qed

lemma keeps_if_node:
  assumes "\<And>i g. keeps_slots g (B i g)" "\<And>i g. keeps_slots g (S i g)"
  shows "keeps_slots g (cc_if_node B S u nid g)"
  unfolding cc_if_node_def Let_def
  by (intro keeps_rules keeps_bind [OF assms(1)] keeps_bind [OF keeps_from [OF keeps_branch [OF assms(2)]]] keeps_bind) simp_all

lemma keeps_stmt_step:
  assumes "\<And>i g. keeps_slots g (B i g)" "\<And>i g. keeps_slots g (L i g)" "\<And>i g. keeps_slots g (S i g)"
  shows "keeps_slots g (lower_stmt_step B L S u nid g)"
  unfolding lower_stmt_step_def Let_def cc_emit_ivar_write_def cc_emit_ivar_rmw_def
  by (intro keeps_rules keeps_bind [OF assms(2)] keeps_bind [OF keeps_from [OF keeps_ivar]] keeps_if_node [OF assms(1,3)]
      keeps_seq assms(3) extends_refl) (simp_all add: extends_refl)

lemma lowering_keeps:
  "keeps_slots g (cc_build_expr n u nid g)" "keeps_slots g (cc_lower_expr n u nid g)" "keeps_slots g (cc_lower_stmt n u nid g)"
proof (induction n arbitrary: nid g)
  case 0
  show "keeps_slots g (cc_build_expr 0 u nid g)" "keeps_slots g (cc_lower_expr 0 u nid g)" "keeps_slots g (cc_lower_stmt 0 u nid g)" for g nid
    by (simp_all add: keeps_Inl)
next
  case (Suc n)
  show "keeps_slots g (cc_build_expr (Suc n) u nid g)" "keeps_slots g (cc_lower_expr (Suc n) u nid g)" "keeps_slots g (cc_lower_stmt (Suc n) u nid g)" for g nid
    unfolding cc_build_expr.simps cc_lower_expr.simps cc_lower_stmt.simps
    by (rule keeps_build_step [OF Suc(1,2)], rule keeps_expr_step [OF Suc], rule keeps_stmt_step [OF Suc])
qed

lemma body_keeps:
  assumes "cc_emit_method_body n u I = Inr (ls, I')"
  shows "prefix I I'" "registry_ok I \<Longrightarrow> registry_ok I'"
proof -
  obtain names where n: "cc_collect_locals n (un_ast u) (me_body_id (un_me u)) [] = Inr names" "nt_type (un_ast u) (me_body_id (un_me u)) = Some ''StatementsNode''"
    using assms by (auto simp: cc_emit_method_body_def Let_def bindE_def split: if_splits sum.splits)
  define g where "g = \<lparr> cg_ctr = 0, cg_ivars = I, cg_lines = map (\<lambda>x. ''__s64 '' @ x @ '' = 0;'') (filter (\<lambda>x. x \<notin> set (me_pnames (un_me u))) names) \<rparr>"
  obtain v g' where g: "cc_lower_stmt n u (me_body_id (un_me u)) g = Inr (v, g')" "cg_ivars g' = I'"
    using assms n by (auto simp: cc_emit_method_body_def Let_def bindE_def g_def split: if_splits sum.splits)
  have gi: "cg_ivars g = I" by (simp add: g_def)
  have "extends g g'" using lowering_keeps(3) [of g n u] g(1) by (auto simp: keeps_slots_def)
  then show "prefix I I'" "registry_ok I \<Longrightarrow> registry_ok I'" using g(2) gi by (auto simp: extends_def)
qed

definition unit_of :: "(string \<Rightarrow> string option) \<Rightarrow> Method list \<Rightarrow> AST \<Rightarrow> Method \<Rightarrow> cunit" where
  "unit_of env ms t me = \<lparr> un_ast = t, un_methods = ms, un_env = env, un_me = me \<rparr>"

lemma handlers_keep:
  assumes "foldE (amp_handler n env ms t) es (bs, I) = Inr (bodies, ivars)"
    "registry_ok I" "\<forall>(me, ls) \<in> set bs. \<exists>J J'. cc_emit_method_body n (unit_of env ms t me) J = Inr (ls, J') \<and> prefix J J' \<and> prefix J' I"
  shows "registry_ok ivars \<and>
    (\<forall>(me, ls) \<in> set bodies. \<exists>J J'. cc_emit_method_body n (unit_of env ms t me) J = Inr (ls, J') \<and> prefix J J' \<and> prefix J' ivars)"
  using assms
proof (induction es arbitrary: bs I)
  case (Cons me es)
  obtain st where st: "amp_handler n env ms t me (bs, I) = Inr st" "foldE (amp_handler n env ms t) es st = Inr (bodies, ivars)"
    using Cons.prems(1) by (cases "amp_handler n env ms t me (bs, I)") (auto simp: bindE_def)
  from st(1) obtain ls I1 where l: "cc_emit_method_body n (unit_of env ms t me) I = Inr (ls, I1)" "st = (bs @ [(me, ls)], I1)"
    by (auto simp: amp_handler_def unit_of_def bindE_def split: if_splits sum.splits)
  note e = l(1) st(2) [unfolded l(2)]
  note k = body_keeps [OF e(1)]
  show ?case
  proof (rule Cons.IH [OF e(2) k(2) [OF Cons.prems(2)]])
    show "\<forall>(me, ls) \<in> set (bs @ [(me, ls)]). \<exists>J J'. cc_emit_method_body n (unit_of env ms t me) J = Inr (ls, J') \<and> prefix J J' \<and> prefix J' I1"
      using Cons.prems(3) e(1) k(1) prefix_order.trans [OF _ k(1)] by fastforce
  qed
qed simp

text \<open>C16: The slots of the instance variables are well typed.  Whatever program the generator for the
  real-time core accepts, the registry of names behind its slot numbers has no name twice and fits the
  256 bytes that the checker and the runtime reserve for it, at four bytes a slot; and each handler was
  lowered with a registry that is an initial part of the final one, so that all handlers use one slot
  number for one instance variable.  The size in the manifest is that of the final registry.\<close>

theorem amp_slots_typed:
  assumes "amp_codegen_program n env ms t base = Inr text"
  shows "\<exists>bodies ivars.
    text = print_lines (amp_head base @ concat (map amp_function bodies) @ amp_manifest (filter (cc_method_eligible env) ms) (length ivars)) \<and>
    distinct ivars \<and> 4 * length ivars \<le> unat AMP_IVARS_SIZE \<and>
    (\<forall>(me, ls) \<in> set bodies. \<exists>I I'. cc_emit_method_body n (unit_of env ms t me) I = Inr (ls, I') \<and> prefix I I' \<and> prefix I' ivars)"
proof -
  obtain bodies ivars where g: "foldE (amp_handler n env ms t) (filter (cc_method_eligible env) ms) ([], []) = Inr (bodies, ivars)"
      "text = print_lines (amp_head base @ concat (map amp_function bodies) @ amp_manifest (filter (cc_method_eligible env) ms) (length ivars))"
    using assms by (auto simp: amp_codegen_program_def bindE_def Let_def split: sum.splits if_splits)
  have "registry_ok []" by (simp add: registry_ok_def)
  note k = handlers_keep [OF g(1) this]
  then show ?thesis using g(2) by (fastforce simp: registry_ok_def AMP_MAX_IVARS_def AMP_IVARS_SIZE_def)
qed

definition slots_ast :: AST where
  "slots_ast =
     [\<lparr> nd_type = Some ''ProgramNode'', nd_s = [], nd_i = [], nd_r = [], nd_a = [] \<rparr>,
      \<lparr> nd_type = Some ''StatementsNode'', nd_s = [], nd_i = [], nd_r = [], nd_a = [(''body'', [2])] \<rparr>,
      \<lparr> nd_type = Some ''InstanceVariableReadNode'', nd_s = [(''name'', ''@n'')], nd_i = [], nd_r = [], nd_a = [] \<rparr>]"

definition slots_method :: Method where
  "slots_method = \<lparr> me_name = ''cmd'', me_cls = None, me_pnames = [], me_ptypes = [], me_ret = CC_TY_VOID,
     me_body_id = 1, me_so_kind = SO_NONE, me_so_member = None \<rparr>"

lemma slots_generates: "\<exists>text. amp_codegen_program 4 (\<lambda>_. None) [slots_method] slots_ast ''demo'' = Inr text"
proof -
  have "cc_scan_common_filter slots_ast = Inr (False, [])" by code_simp
  moreover have "cc_method_eligible (\<lambda>_. None) slots_method" by code_simp
  moreover have "foldE (amp_handler 4 (\<lambda>_. None) [slots_method] slots_ast) [slots_method] ([], []) = Inr ([(slots_method, [])], [''n''])" by code_simp
  ultimately show ?thesis by (simp add: amp_codegen_program_def bindE_def)
qed

theorem amp_slots_typed_witness:
  "\<exists>bodies. \<exists>ivars :: string list. amp_codegen_program 4 (\<lambda>_. None) [slots_method] slots_ast ''demo'' =
     Inr (print_lines (amp_head ''demo'' @ concat (map amp_function bodies) @ amp_manifest [slots_method] (length ivars))) \<and>
     distinct ivars \<and> 4 * length ivars \<le> 256"
proof -
  obtain w where w: "amp_codegen_program 4 (\<lambda>_. None) [slots_method] slots_ast ''demo'' = Inr w" using slots_generates by blast
  have e: "filter (cc_method_eligible (\<lambda>_. None)) [slots_method] = [slots_method]" by code_simp
  have u: "unat AMP_IVARS_SIZE = 256" by (simp add: AMP_IVARS_SIZE_def)
  from amp_slots_typed [OF w, unfolded e u] show ?thesis unfolding w sum.inject by blast
qed

subsection \<open>Calls the target does not have\<close>

text \<open>The nodes of a body: those reached without entering another method, class or module.\<close>

inductive walks :: "AST \<Rightarrow> int \<Rightarrow> int \<Rightarrow> bool" for t where
  here: "walks t nid nid"
| down: "nt_type t nid = Some ty \<Longrightarrow> \<not> nested_scope ty \<Longrightarrow> y \<in> set (node_succs t nid) \<Longrightarrow> walks t y x \<Longrightarrow> walks t nid x"

lemma foldE_all: "foldE f xs s = Inr s' \<Longrightarrow> x \<in> set xs \<Longrightarrow> \<exists>s1 s2. f x s1 = Inr s2"
  by (induction xs arbitrary: s) (auto simp: bindE_def split: sum.splits)

definition unsupported :: "AST \<Rightarrow> int \<Rightarrow> string \<Rightarrow> bool" where
  "unsupported t x nm \<longleftrightarrow> nt_type t x = Some ''CallNode'' \<and> nt_str t x ''name'' = Some nm \<and>
     \<not> cc_is_binary_op nm \<and> \<not> cc_builtin_on_target nm CC_TGT_AMP"

lemma scan_finds: "walks t nid x \<Longrightarrow> unsupported t x nm \<Longrightarrow> amp_scan_supported n t nid u \<noteq> Inr v"
proof (induction nid x arbitrary: n u v rule: walks.induct)
  case (here nid)
  have "\<not> nested_scope ''CallNode''" by code_simp
  then show ?case using here by (cases n) (simp_all add: unsupported_def)
next
  case (down nid ty y x)
  show ?case
  proof
    assume a: "amp_scan_supported n t nid u = Inr v"
    then obtain m where m: "n = Suc m" by (cases n) auto
    have "foldE (amp_scan_supported m t) (node_succs t nid) () = Inr v"
      using a down.hyps(1,2) unfolding m by (auto split: bool.splits option.splits if_splits)
    from foldE_all [OF this down.hyps(3)] show False using down.IH [OF down.prems] by blast
  qed
qed

text \<open>C17: A call that the real-time target does not have stops the generator.  If anywhere in the body of
  an eligible method, outside nested definitions, there is a call that is neither an operator nor one of the
  built-ins of the target, the generator reports an error and writes no program, whatever else the unit
  holds and however deep the call sits.\<close>

theorem amp_unsupported_call_rejected:
  assumes "me \<in> set ms" "cc_method_eligible env me" "walks t (me_body_id me) x" "unsupported t x nm"
  shows "\<exists>d. amp_codegen_program n env ms t base = Inl d"
proof -
  have "amp_handler n env ms t me st \<noteq> Inr st'" for st st'
    using scan_finds [OF assms(3,4), of n "()"] by (auto simp: amp_handler_def bindE_def split: sum.splits)
  then have "foldE (amp_handler n env ms t) (filter (cc_method_eligible env) ms) s \<noteq> Inr s'" for s s'
    using foldE_all [of "amp_handler n env ms t" "filter (cc_method_eligible env) ms" s s' me] assms(1,2) by fastforce
  then show ?thesis
    by (cases "amp_codegen_program n env ms t base") (auto simp: amp_codegen_program_def bindE_def Let_def split: sum.splits if_splits)
qed

definition reject_ast :: AST where
  "reject_ast =
     [\<lparr> nd_type = Some ''ProgramNode'', nd_s = [], nd_i = [], nd_r = [], nd_a = [] \<rparr>,
      \<lparr> nd_type = Some ''StatementsNode'', nd_s = [], nd_i = [], nd_r = [], nd_a = [(''body'', [2])] \<rparr>,
      \<lparr> nd_type = Some ''ReturnNode'', nd_s = [], nd_i = [], nd_r = [(''arguments'', 3)], nd_a = [] \<rparr>,
      \<lparr> nd_type = Some ''ArgumentsNode'', nd_s = [], nd_i = [], nd_r = [], nd_a = [(''arguments'', [4])] \<rparr>,
      \<lparr> nd_type = Some ''CallNode'', nd_s = [(''name'', ''current_pid'')], nd_i = [], nd_r = [], nd_a = [] \<rparr>]"

theorem amp_unsupported_call_rejected_witness:
  "\<exists>d. amp_codegen_program 100 (\<lambda>_. None) [slots_method] reject_ast ''demo'' = Inl d"
proof (rule amp_unsupported_call_rejected)
  show "slots_method \<in> set [slots_method]" by simp
  show "cc_method_eligible (\<lambda>_. None) slots_method" by code_simp
  have s: "nt_type reject_ast 1 = Some ''StatementsNode''" "nt_type reject_ast 2 = Some ''ReturnNode''" "nt_type reject_ast 3 = Some ''ArgumentsNode''"
    "2 \<in> set (node_succs reject_ast 1)" "3 \<in> set (node_succs reject_ast 2)" "4 \<in> set (node_succs reject_ast 3)"
    "\<not> nested_scope ''StatementsNode''" "\<not> nested_scope ''ReturnNode''" "\<not> nested_scope ''ArgumentsNode''" by code_simp+
  have "walks reject_ast 1 4" using s by (blast intro: walks.intros)
  then show "walks reject_ast (me_body_id slots_method) 4" by (simp add: slots_method_def)
  show "unsupported reject_ast 4 ''current_pid''" unfolding unsupported_def by code_simp
qed

end
