(* ===== verification/Spec2Isabelle.thy ===== *)
theory Spec2Isabelle
  imports Amp_Ring_Steps Amp_Check_Sound Amp_Runtime Probe_Cap Otlp_Enrich Otlp_Grpc Otlp_Traces Otlp_Metrics Amp_Drain Cc_Amp_Sound Cc_Amp_Slots
begin

text \<open>
  A verification development for spinel-ebpf, a compiler from a Ruby subset to eBPF programs together
  with the runtimes that carry what the programs observe to an OpenTelemetry collector.

  \<^bold>\<open>The parts and how they interact.\<close>  The code generator (\<open>src/codegen_c/spinel_ebpf_cc.c\<close>) reads a
  table of syntax nodes and the method signatures of a unit and writes C.  For the target \<open>amp-m7\<close> the C
  is compiled to eBPF bytecode, checked (\<open>src/runtime/amp/amp_check.c\<close>), and pushed over a command ring
  to a real-time core, whose runtime (\<open>amp_m7_runtime.c\<close>) installs it in one of two slots.  Running
  there, a handler updates instance variables in a 256-byte carveout and emits samples into an event ring
  (\<open>include/spnl/amp_ring.h\<close>).  The application core drains that ring (\<open>amp_otlp.c\<close>,
  \<open>amp_a55_drain.c\<close>), builds OTLP requests (\<open>src/runtime/otlp\<close>) and posts them over HTTP or gRPC.  A
  firmware that offers probe points publishes them in a capability table (\<open>probe_capability.c\<close>).

  \<^bold>\<open>Conventions.\<close>  \<open>Prelude\<close> holds the machine types (words of their C width, so arithmetic wraps), the
  fragments of the C library in use, decimal numbers and the list and word lemmas shared by the
  components.  A C string is the list of its characters before the NUL, a buffer a list of bytes, a
  struct a record, an error a left value or \<open>None\<close>.  Shared memory is part of the state record of the
  component that writes it.  Environment variables, sockets, clocks, the cgroup file system, reverse
  DNS, zlib and TLS are arguments of the definitions.

  \<^bold>\<open>Rings.\<close>  \<open>Amp_Ring\<close> models the event ring and the command ring; the locale \<open>bounded_fifo\<close> is the
  contract of a single-producer single-consumer queue, interpreted on both.  \<open>Amp_Ring_Steps\<close> splits the
  operations of the event ring at their shared-memory accesses (\<open>ring_step\<close>) and shows that in every
  interleaving what the consumer committed is an initial part of what the producer published.  Any sequence
  of whole operations on a well-formed ring gives reply by reply what a bounded list gives (\<open>queue_run\<close>),
  also when the 32-bit indices wrap.

  \<^bold>\<open>Checker.\<close>  \<open>Amp_Check\<close> is \<open>amp_check_text\<close>.  \<open>Amp_Check_Sound\<close> gives the machine as a step relation,
  with the register effects as an argument constrained to the instruction-set document (\<open>isa_regs_ok\<close>),
  and shows memory safety, termination and the cost bound of accepted programs.  Safety needs that the
  instructions are tracked exactly (\<open>all_subset\<close>) and that branches join consistently (\<open>join_stable\<close>), and
  speaks of the first byte of an access, or of all its bytes when the access is aligned; termination and
  cost need only that branches land on slots the walk visited (\<open>jumps_checked\<close>).  The checker tests none of
  these; the lemmas \<open>gap_join_store\<close>, \<open>gap_hidden_call\<close>, \<open>gap_loop_runs\<close> and \<open>gap_width_store\<close> are
  accepted programs that show what happens without them.

  \<^bold>\<open>Real-time core.\<close>  \<open>Amp_Runtime\<close> has boot, the poll that installs and removes blobs, and the helpers.  Over
  any list of events (pushes, polls, emits, ivar stores, teardowns, drains) it gives the replies of a
  contract written without rings and slots (\<open>k_step\<close>) and ends in a state that agrees with it; \<open>poll_loop\<close>
  terminates because the distance of the indices shrinks.  \<open>Probe_Cap\<close> has publication as a list of
  stores, opening and admission: the round trip, what a reader sees between two stores, and exact
  admission.

  \<^bold>\<open>Code generator.\<close>  \<open>Cc_Ast\<close> is the node table and the reader of its dump, \<open>Cc_Ir\<close> the method signatures
  and the two ways they reach the generator, which agree on the eligible methods.  \<open>Cc_Expr\<close> is the
  expression printer.  \<open>C_Syntax\<close> and \<open>C_Stmt\<close> are a lexer, a parser and an evaluator of the C that is
  emitted, written from the C standard and not from the generator; undefined behaviour is \<open>None\<close>.  The
  printed text of an expression is parsed as the expression.

  \<open>Cc_Amp\<close> is the target \<open>amp-m7\<close>: the scan for unsupported calls, \<open>cc_build_expr\<close>, \<open>cc_lower_expr\<close>,
  \<open>cc_lower_stmt\<close>, \<open>cc_if_node\<close>, the slots of the instance variables, the collection of locals, method
  bodies, triggers and the program around them.  The recursion is bounded by an argument that stands for
  the stack; running out of it is the error \<open>Stack_overflow\<close>.  For a tree of height \<open>k\<close> more than \<open>10 * k\<close>
  is enough for the lowering, which is proved; that the scan and the collection of locals, which walk
  every field of the nodes, end within the bound is part of the hypothesis \<open>handler_ok\<close>.  \<open>Amp_Ruby\<close> gives the Ruby side:
  the tree behind the table and its evaluation.  Correctness is then in steps.  \<open>Cc_Amp_Tree\<close>: the walk
  over the table is a function of the tree.  \<open>Cc_Amp_Locals\<close>: the declarations cover the locals.
  \<open>Cc_Amp_Parse\<close>: the lines parse as the statements they stand for.  \<open>Cc_Amp_Sim\<close>: C expressions have the
  values of the Ruby expressions.  \<open>Cc_Amp_Exec\<close>: so do statements, with temporaries and block scope.
  \<open>Cc_Amp_Sound\<close> puts them together for a whole program.  \<open>Cc_Amp_Slots\<close> shows for programs of any shape
  that the slot registry stays well-formed, and that a call the target lacks stops the generator.
  The Ruby evaluation has no result where the two languages differ: a value outside the range of the C
  type of its expression, an integer used as a condition, division of negative numbers, two clock reads
  under one operator.  The correctness theorem says nothing of such runs.

  \<^bold>\<open>Exporter.\<close>  \<open>Nanopb\<close> is the protobuf encoder with its two-word varints, \<open>Otlp_Pb\<close> the generated
  descriptors and shared callbacks, \<open>Otlp_Msg\<close> logs and spans, \<open>Otlp_Hist\<close> and \<open>Otlp_Metrics\<close> histograms and
  metrics.  A message is written beside the value it means, and a protobuf reader recovers that value from
  the bytes.  A double that holds a natural number is that number, rounded to 53 bits where an operation
  can leave them.  The log2 histogram of the kernel counts a value below 1 as a 1, and so do the statements
  about it.  \<open>Otlp_Traces\<close> has identifiers, trace context and the assembly of events into spans;
  \<open>Otlp_Enrich\<close> the attribute enrichers, with their contract as the locale \<open>enricher\<close>; \<open>Otlp_Http\<close> endpoint
  URLs, the environment grammar and one POST; \<open>Otlp_Grpc\<close> HPACK, the HTTP/2 exchange and the choice of
  transport.  \<open>Amp_Drain\<close> composes ring, manifest, messages and transport: enough passes empty the ring, and
  the requests hold the records in order.

  \<^bold>\<open>Across components.\<close>  The theorem of this theory follows a sample from the Ruby handler through the
  generated C, the helper of the real-time core, the event ring and the drain to the bytes of the request.
  The step from C to the bytecode that runs there is the work of clang and of a translator outside the
  repository; the theorem takes the C function as what runs.

  \<^bold>\<open>Not modelled.\<close>  The Linux target of the generator with its templates and the dispatch of its
  built-ins: its output is a kernel program whose meaning needs the helpers and the verifier of
  the kernel, which are not in the repository.  The schema files and the tables generated from them, apart
  from the entries the \<open>amp-m7\<close> target looks up.  The Ruby front end and the upstream compiler it calls.
  The TLS and OpenSSL bindings, the userspace loader over libbpf and the agent loop: calls into libraries
  and the operating system with little logic of their own.  The JSON forms of the OTLP messages, the
  HTTP server spans, the metric registries and the cross-layer correlation, which feed or bypass the
  builders modelled here.  Cache
  maintenance, barriers and interrupt masking: each step on shared memory is taken as atomic and visible
  in program order, as the comments of the sources ask of the platform.

  \<^bold>\<open>Where C leaves the behaviour open.\<close>  The checker's reads past its register array are the argument
  \<open>oob\<close>.  A negative node number in a dump and a constant path longer than its buffer, which make the
  generator write outside its memory, are errors of the model.  \<open>atoi\<close> has an unbounded result, and the
  back-off of a connection is exact for fewer than 57 attempts (5 are made).
\<close>

subsection \<open>From a handler to the collector\<close>

text \<open>The calls of the helper \<open>amp_emit\<close> that a handler makes, with the uptime at each.\<close>

primrec emit_samples :: "(u64 \<times> int) list \<Rightarrow> m7 \<Rightarrow> m7 option" where
  "emit_samples [] s = Some s"
| "emit_samples (x # xs) s = Option.bind (amp_emit (fst x) (of_int (snd x)) s) (\<lambda>(_, s'). emit_samples xs s')"

definition sample_rec :: "u64 \<times> int \<Rightarrow> amp_ring_rec" where
  "sample_rec x = amp_evt_rec (amp_ktime (fst x)) (of_int (snd x))"

lemma sample_rec_key [simp]: "amp_rec_key (sample_rec x) = (fst x * 1000000, of_int (snd x))"
  by (simp add: sample_rec_def amp_ktime_def)

lemma emit_samples_stored:
  assumes "amp_ring_wf (m_ring s)" "length (amp_ring_contents (m_ring s)) + length xs \<le> unat (rg_capacity (m_ring s))"
  shows "\<exists>s'. emit_samples xs s = Some s' \<and> amp_ring_wf (m_ring s') \<and> rg_magic (m_ring s') = rg_magic (m_ring s) \<and>
    amp_ring_contents (m_ring s') = amp_ring_contents (m_ring s) @ map sample_rec xs"
  using assms
proof (induction xs arbitrary: s)
  case (Cons x xs)
  let ?r = "m_ring s"
  have l: "unat (rg_prod ?r - rg_cons ?r) < unat (rg_capacity ?r)" using Cons.prems(2) by (simp add: amp_ring_contents_def)
  let ?r1 = "?r \<lparr> rg_slots := (rg_slots ?r)[unat (rg_prod ?r) mod unat (rg_capacity ?r) := sample_rec x], rg_prod := rg_prod ?r + 1 \<rparr>"
  have e: "amp_emit (fst x) (of_int (snd x)) s = Some (0, s \<lparr> m_ring := ?r1 \<rparr>)"
    using amp_ring_emit_wf [OF Cons.prems(1)] l by (simp add: amp_emit_def sample_rec_def)
  have c: "amp_ring_wf ?r1" "amp_ring_contents ?r1 = amp_ring_contents ?r @ [sample_rec x]"
    using spsc_contents_push [OF Cons.prems(1) [unfolded amp_ring_wf_def] l] by (simp_all add: amp_ring_wf_def amp_ring_contents_def)
  show ?case using Cons.IH [of "s \<lparr> m_ring := ?r1 \<rparr>"] c Cons.prems(2) e by simp
qed simp

text \<open>C2: A sample reaches the collector.  Take a handler of a unit that the generator for the real-time
  core accepts, a well-formed event ring with room left for the samples of one call, and a loaded manifest.
  The C function of the handler, called in a state that agrees with the Ruby program, emits through the
  helper of the runtime; every emit is stored; and enough passes of the drain loop (64 records each) build
  requests from whose bytes a protobuf reader recovers the records that were waiting and then one log
  record per sample, with the value that the Ruby handler emitted and the uptime of the emit in
  nanoseconds, in order and with nothing else.\<close>

theorem handler_samples_exported:
  assumes "cc_scan_common_filter t = Inr (False, keys)" "es = filter (cc_method_eligible env) ms" "\<forall>me \<in> set es. handler_ok k n t me"
    "10 * k < n" "R = program_ivars k t es" "length R \<le> AMP_MAX_IVARS" "me \<in> set es" "rb_body k t (me_body_id me) = Some b"
    and "glob E R q s" "r_out q = []" "r_call (ce_clock E) b q = Some (v, q')"
    and "amp_ring_wf (m_ring m)" "rg_magic (m_ring m) = AMP_RING_MAGIC"
    and "length (amp_ring_contents (m_ring m)) + length (r_out q') \<le> unat (rg_capacity (m_ring m))" "length ups = length (r_out q')"
    and "amp_manifest_load file = (True, mf)" "length (amp_ring_contents (m_ring m)) + length (r_out q') \<le> 64 * passes"
  shows "\<exists>before body between rv s' m' ps r' rqs.
    amp_codegen_program n env ms t base = Inr (print_lines (before @ amp_function (me, body) @ between @ amp_manifest es (length R))) \<and>
    c_call E (print_lines (amp_function (me, body))) s = Some (rv, s') \<and>
    emit_samples (zip ups (c_out s')) m = Some m' \<and>
    drain_loop getenv gw hw proc mf passes (m_ring m') = Some (ps, r') \<and>
    those (map (\<lambda>p. dec_request dec_log (fst p)) ps) = Some rqs \<and>
    concat (map rq_items rqs) = map sample_log (map amp_rec_key (amp_ring_contents (m_ring m))
      @ map (\<lambda>(up, v). (up * 1000000, of_int v)) (zip ups (r_out q')))"
proof -
  obtain before body between where g: "amp_codegen_program n env ms t base =
      Inr (print_lines (before @ amp_function (me, body) @ between @ amp_manifest es (length R)))" "implements R me b body"
    using generated_implements [OF assms(1-8)] by blast
  obtain rv s' where s': "c_call E (print_lines (amp_function (me, body))) s = Some (rv, s')" "c_out s' = r_out q'"
    using g(2) assms(9,11) unfolding implements_def same_effect_def by blast
  obtain m' where m': "emit_samples (zip ups (c_out s')) m = Some m'" "amp_ring_wf (m_ring m')" "rg_magic (m_ring m') = AMP_RING_MAGIC"
      "amp_ring_contents (m_ring m') = amp_ring_contents (m_ring m) @ map sample_rec (zip ups (r_out q'))"
    using emit_samples_stored [OF assms(12), of "zip ups (c_out s')"] assms(13-15) s'(2) by auto
  have "length (amp_ring_contents (m_ring m')) \<le> AMP_DRAIN_MAX * passes" using m'(4) assms(15,17) by (simp add: AMP_DRAIN_MAX_def)
  from drain_loop_wf [OF m'(2,3) manifest_load_name [OF assms(16)] this, of getenv gw hw proc] obtain ps r' rqs where
    "drain_loop getenv gw hw proc mf passes (m_ring m') = Some (ps, r')" "those (map (\<lambda>p. dec_request dec_log (fst p)) ps) = Some rqs"
    "concat (map rq_items rqs) = map log_value (map drain_log (amp_ring_contents (m_ring m')))" by blast
  moreover have "map log_value (map drain_log (amp_ring_contents (m_ring m'))) = map sample_log (map amp_rec_key (amp_ring_contents (m_ring m))
      @ map (\<lambda>(up, v). (up * 1000000, of_int v)) (zip ups (r_out q')))"
    using m'(4) by (simp add: drain_log_value sample_rec_key split_beta)
  ultimately show ?thesis using g(1) s'(1) m'(1) by metis
qed

definition export_m7 :: m7 where
  "export_m7 = demo_m7 \<lparr> m_ring := demo_full_ring \<lparr> rg_cons := 3 \<rparr> \<rparr>"

theorem handler_samples_exported_witness:
  "\<exists>before body between rv s' m' ps r' rqs.
    amp_codegen_program 41 (\<lambda>_. None) [demo_method] demo_ast ''demo'' =
      Inr (print_lines (before @ amp_function (demo_method, body) @ between @ amp_manifest [demo_method] 1)) \<and>
    c_call Cc_Amp_Sound.demo_env (print_lines (amp_function (demo_method, body))) demo_start = Some (rv, s') \<and>
    emit_samples (zip [5] (c_out s')) export_m7 = Some m' \<and>
    drain_loop (\<lambda>_. None) (\<lambda>_. demo_grpc) (\<lambda>_. demo_world) demo_proc (snd (amp_manifest_load (Some ''service.name=x''))) 1 (m_ring m') = Some (ps, r') \<and>
    those (map (\<lambda>p. dec_request dec_log (fst p)) ps) = Some rqs \<and>
    concat (map rq_items rqs) = [sample_log (5000000, 3)]"
proof -
  have f: "cc_scan_common_filter demo_ast = Inr (False, [])" by code_simp
  have e: "[demo_method] = filter (cc_method_eligible (\<lambda>_. None)) [demo_method]" using demo_ok(2) by simp
  have ok: "\<forall>me \<in> set [demo_method]. handler_ok 4 41 demo_ast me" using demo_ok(1) by simp
  have a: "addr Cc_Amp_Sound.demo_env [''n''] ''n'' = AMP_IVARS_BASE_MIRROR" by code_simp
  have g: "glob Cc_Amp_Sound.demo_env [''n''] demo_before demo_start" using a by (simp add: glob_def demo_before_def demo_start_def)
  obtain v q' where r: "r_call (ce_clock Cc_Amp_Sound.demo_env) demo_body demo_before = Some (v, q')" "r_out q' = [3]"
    using demo_runs by auto
  have w: "amp_ring_wf (m_ring export_m7)" "rg_magic (m_ring export_m7) = AMP_RING_MAGIC" "amp_ring_contents (m_ring export_m7) = []"
      "unat (rg_capacity (m_ring export_m7)) = 2"
    by (simp_all add: export_m7_def amp_ring_wf_def spsc_wf_def demo_full_ring_def amp_ring_contents_def spsc_contents_def)
  have l: "amp_manifest_load (Some ''service.name=x'') = (True, snd (amp_manifest_load (Some ''service.name=x'')))"
    by (simp add: amp_manifest_load_def Let_def)
  have m: "length [''n''] \<le> AMP_MAX_IVARS" "(10 :: nat) * 4 < 41" "demo_method \<in> set [demo_method]" "r_out demo_before = []"
      "length (amp_ring_contents (m_ring export_m7)) + length (r_out q') \<le> unat (rg_capacity (m_ring export_m7))"
      "length [5 :: u64] = length (r_out q')" "length (amp_ring_contents (m_ring export_m7)) + length (r_out q') \<le> 64 * 1"
    using r(2) w(3,4) by (simp_all add: AMP_MAX_IVARS_def demo_before_def)
  have z: "map sample_log (map amp_rec_key (amp_ring_contents (m_ring export_m7))
      @ map (\<lambda>(up, v). (up * 1000000, of_int v)) (zip [5] (r_out q'))) = [sample_log (5000000, 3)]"
    using r(2) w(3) by simp
  have n1: "length [''n''] = 1" by simp
  show ?thesis
    using handler_samples_exported [OF f e ok m(2) demo_ok(3) [symmetric] m(1,3) demo_body g m(4) r(1) w(1,2) m(5,6) l m(7),
        of "''demo''" "\<lambda>_. None" "\<lambda>_. demo_grpc" "\<lambda>_. demo_world" demo_proc, unfolded z n1] .
qed

end
